(* ===== verification/Prelude.thy ===== *)
theory Prelude
  imports Main "HOL-Library.Word" "HOL-Library.Monad_Syntax" "HOL-Library.Signed_Division"
begin

text \<open>
  What every theory of the development shares: the failure monad in which an
  \<open>assert\<close> of the source is a branch, the named collections of rewrite rules, and
  the facts on fixed-width two's complement integers (an unsigned value \<open>v\<close> of
  width \<open>w\<close> is an \<open>int\<close> with \<open>0 \<le> v < 2 ^ w\<close>) that the
  components rest on.
\<close>

unbundle bit_operations_syntax

named_theorems apint_simps \<open>unfolding of the constant operations\<close>
named_theorems den_simps \<open>meaning of expressions\<close>
named_theorems create_simps \<open>unfolding of the expression constructors\<close>

section \<open>Assertions\<close>

text \<open>
  A function of the source that can stop on an \<open>assert\<close> returns an \<open>option\<close>;
  \<open>None\<close> is the failed assertion.
\<close>

definition assert_that :: "bool \<Rightarrow> unit option" where
  "assert_that b = (if b then Some () else None)"

lemma assert_that_simps [simp]:
  "assert_that True = Some ()" "assert_that False = None"
  by (simp_all add: assert_that_def)

lemma assert_that_eq_Some [simp]: "assert_that b = Some u \<longleftrightarrow> b"
  by (simp add: assert_that_def)

lemma assert_that_bind: "(assert_that b \<bind> f) = (if b then f () else None)"
  by (simp add: assert_that_def)

section \<open>Unsigned values of a width\<close>

definition in_width :: "nat \<Rightarrow> int \<Rightarrow> bool" where
  "in_width w v \<longleftrightarrow> 0 \<le> v \<and> v < 2 ^ w"

lemma in_width_take_bit [simp, intro]: "in_width w (take_bit w v)"
  by (simp add: in_width_def)

lemma in_width_mod [simp, intro]: "in_width w (v mod 2 ^ w)"
  by (simp add: in_width_def)

lemma in_width_take_bit_eq: "in_width w v \<Longrightarrow> take_bit w v = v"
  by (simp add: in_width_def take_bit_int_eq_self)

lemma in_width_iff_take_bit: "in_width w v \<longleftrightarrow> take_bit w v = v"
  by (metis in_width_take_bit in_width_take_bit_eq)

lemma in_width_mono: "in_width w v \<Longrightarrow> w \<le> w' \<Longrightarrow> in_width w' v"
  by (auto simp: in_width_def intro: less_le_trans power_increasing)

lemma in_width_bit: "in_width w v \<Longrightarrow> bit v n \<Longrightarrow> n < w"
  by (metis bit_take_bit_iff in_width_take_bit_eq)

lemma in_width_0 [simp]: "in_width w 0"
  by (simp add: in_width_def)

lemma in_width_1 [simp]: "0 < w \<Longrightarrow> in_width w 1"
  by (simp add: in_width_def)

lemma in_width_Suc_0: "in_width (Suc 0) v \<longleftrightarrow> v = 0 \<or> v = 1"
  by (auto simp: in_width_def)

lemma in_width_of_bool [simp]: "0 < w \<Longrightarrow> in_width w (of_bool b)"
  by (cases b) simp_all

lemma in_width_and: "in_width w x \<Longrightarrow> in_width w y \<Longrightarrow> in_width w (x AND y)"
  by (simp add: in_width_iff_take_bit take_bit_and)

lemma in_width_or: "in_width w x \<Longrightarrow> in_width w y \<Longrightarrow> in_width w (x OR y)"
  by (simp add: in_width_iff_take_bit take_bit_or)

lemma in_width_xor: "in_width w x \<Longrightarrow> in_width w y \<Longrightarrow> in_width w (x XOR y)"
  by (simp add: in_width_iff_take_bit take_bit_xor)

lemma in_width_div: "in_width w (x div y)" if x: "in_width w x" and y: "0 \<le> y"
proof (cases "y = 0")
  case False
  with y have "0 < y" by simp
  with x have "x div y \<le> x div 1"
    by (intro zdiv_mono2) (simp_all add: in_width_def)
  with x \<open>0 < y\<close> show ?thesis
    by (auto simp: in_width_def pos_imp_zdiv_nonneg_iff)
qed simp

lemma in_width_umod: "in_width w (x mod y)" if "in_width w x" "0 \<le> y"
proof (cases "y = 0")
  case True
  with that show ?thesis by simp
next
  case False
  with that have "x mod y \<le> x"
    by (simp add: in_width_def zmod_le_nonneg_dividend)
  with False that show ?thesis by (auto simp: in_width_def)
qed

section \<open>Signed reading\<close>

text \<open>Two's complement reading of an unsigned value of width \<open>w\<close>.\<close>

definition signed_val :: "nat \<Rightarrow> int \<Rightarrow> int" where
  "signed_val w v = (if v < 2 ^ (w - 1) then v else v - 2 ^ w)"

lemma signed_take_bit_eq_signed_val:
  assumes w: "0 < w" and v: "in_width w v"
  shows "signed_take_bit (w - 1) v = signed_val w v"
proof -
  obtain n where n: "w = Suc n" using w by (cases w) auto
  have v': "take_bit n v = v" if "v < 2 ^ n"
    using v that by (simp add: in_width_def take_bit_int_eq_self)
  have "bit v n \<longleftrightarrow> 2 ^ n \<le> v"
  proof -
    have "bit v n \<longleftrightarrow> odd (v div 2 ^ n)" by (rule bit_iff_odd)
    also have "v div 2 ^ n = (if 2 ^ n \<le> v then 1 else 0)"
    proof (cases "2 ^ n \<le> v")
      case True
      with v n have "v div 2 ^ n = 1"
        by (intro int_div_pos_eq [where r = "v - 2 ^ n"]) (auto simp: in_width_def)
      with True show ?thesis by simp
    next
      case False
      with v show ?thesis by (simp add: in_width_def)
    qed
    finally show ?thesis by simp
  qed
  moreover have "take_bit n v = v - 2 ^ n" if "2 ^ n \<le> v"
  proof -
    have "take_bit n v = take_bit n (v - 2 ^ n)"
      by (simp add: take_bit_eq_mod)
    also have "\<dots> = v - 2 ^ n"
      using that v n by (intro take_bit_int_eq_self) (auto simp: in_width_def)
    finally show ?thesis .
  qed
  ultimately show ?thesis
    using v' n in_width_take_bit_eq [OF v]
    by (auto simp: signed_val_def signed_take_bit_eq_take_bit_minus)
qed

lemma signed_val_bounds:
  assumes "0 < w" "in_width w v"
  shows "- (2 ^ (w - 1)) \<le> signed_val w v" "signed_val w v < 2 ^ (w - 1)"
proof -
  obtain n where n: "w = Suc n" using assms by (cases w) auto
  show "- (2 ^ (w - 1)) \<le> signed_val w v" "signed_val w v < 2 ^ (w - 1)"
    using assms n by (auto simp: signed_val_def in_width_def)
qed

lemma take_bit_signed_val: "in_width w v \<Longrightarrow> take_bit w (signed_val w v) = v"
proof -
  assume v: "in_width w v"
  have "take_bit w (v - 2 ^ w) = take_bit w v"
    by (simp add: take_bit_eq_mod)
  with v show ?thesis by (auto simp: signed_val_def in_width_take_bit_eq)
qed

lemma signed_val_inj: "in_width w x \<Longrightarrow> in_width w y \<Longrightarrow> signed_val w x = signed_val w y \<Longrightarrow> x = y"
  by (metis take_bit_signed_val)

section \<open>Concatenation and extraction of bits\<close>

lemma push_bit_or_eq_add:
  assumes "in_width r y"
  shows "push_bit r x OR y = x * 2 ^ r + (y :: int)"
proof -
  have "push_bit r x AND y = 0"
    by (rule bit_eqI) (auto simp: bit_simps dest: in_width_bit [OF assms])
  then have "push_bit r x + y = push_bit r x OR y"
    by (rule disjunctive_add_eq_or)
  then show ?thesis by (simp add: push_bit_eq_mult)
qed

lemma in_width_concat:
  assumes "in_width l x" "in_width r y"
  shows "in_width (l + r) (x * 2 ^ r + y)"
proof -
  have "x + 1 \<le> 2 ^ l" using assms by (simp add: in_width_def)
  then have "(x + 1) * 2 ^ r \<le> 2 ^ l * 2 ^ r" by (rule mult_right_mono) simp
  moreover have "0 \<le> x * 2 ^ r" using assms by (simp add: in_width_def)
  ultimately show ?thesis
    using assms by (simp add: in_width_def power_add algebra_simps)
qed

lemma concat_div [simp]: "in_width r y \<Longrightarrow> (x * 2 ^ r + y) div 2 ^ r = (x :: int)"
  by (simp add: in_width_def)

lemma concat_mod [simp]: "in_width r y \<Longrightarrow> (x * 2 ^ r + y) mod 2 ^ r = (y :: int)"
  by (simp add: in_width_def)

text \<open>\<open>bit_slice off w v\<close> are the \<open>w\<close> bits of \<open>v\<close> from bit \<open>off\<close> on.\<close>

definition bit_slice :: "nat \<Rightarrow> nat \<Rightarrow> int \<Rightarrow> int" where
  "bit_slice off w v = (v div 2 ^ off) mod 2 ^ w"

lemma in_width_bit_slice [simp, intro]: "in_width w (bit_slice off w v)"
  by (simp add: bit_slice_def)

lemma bit_slice_eq_take_drop: "bit_slice off w v = take_bit w (drop_bit off v)"
  by (simp add: bit_slice_def take_bit_eq_mod drop_bit_eq_div)

lemma bit_slice_0_eq: "in_width w v \<Longrightarrow> bit_slice 0 w v = v"
  by (simp add: bit_slice_def in_width_def)

lemma bit_slice_slice: "off + w \<le> w' \<Longrightarrow> bit_slice off w (bit_slice off' w' v) = bit_slice (off' + off) w v"
  by (rule bit_eqI) (auto simp: bit_slice_eq_take_drop bit_simps ac_simps)

lemma bit_slice_concat_left:
  assumes "r \<le> off" "in_width r y"
  shows "bit_slice off w (x * 2 ^ r + y) = bit_slice (off - r) w x"
proof -
  have "(x * 2 ^ r + y) div 2 ^ off = (x * 2 ^ r + y) div 2 ^ r div 2 ^ (off - r)"
    using assms(1) by (simp add: zdiv_zmult2_eq [symmetric] power_add [symmetric]
        del: concat_div div_mult_self1 div_mult_self2 div_mult_self3 div_mult_self4)
  also have "(x * 2 ^ r + y) div 2 ^ r = x"
    using assms(2) by (rule concat_div)
  finally show ?thesis by (simp add: bit_slice_def)
qed

lemma bit_slice_concat_right:
  assumes "off + w \<le> r"
  shows "bit_slice off w (x * 2 ^ r + y) = bit_slice off w y"
proof -
  have "bit_slice off w (x * 2 ^ r + y) = bit_slice off w (bit_slice 0 r (x * 2 ^ r + y))"
    using assms by (simp add: bit_slice_slice)
  also have "bit_slice 0 r (x * 2 ^ r + y) = bit_slice 0 r y"
    by (simp add: bit_slice_def)
  also have "bit_slice off w (bit_slice 0 r y) = bit_slice off w y"
    using assms by (simp add: bit_slice_slice)
  finally show ?thesis .
qed

lemma bit_slice_append:
  "bit_slice (off + r) l v * 2 ^ r + bit_slice off r v = bit_slice off (l + r) v"
proof -
  have "bit_slice off (l + r) v = bit_slice (off + r) l v * 2 ^ r + bit_slice off r v"
    (is "?a = ?b * 2 ^ r + ?c")
  proof -
    have "push_bit r ?b OR ?c = ?a"
      by (rule bit_eqI) (auto simp: bit_slice_eq_take_drop bit_simps ac_simps)
    then show ?thesis by (simp add: push_bit_or_eq_add)
  qed
  then show ?thesis by simp
qed

lemma bit_slice_concat_middle:
  assumes "off < r" "r < off + w" "in_width r y"
  shows "bit_slice 0 (w + off - r) x * 2 ^ (r - off) + bit_slice off (r - off) y
       = bit_slice off w (x * 2 ^ r + y)"
proof -
  let ?v = "x * 2 ^ r + y"
  have "bit_slice off w ?v = bit_slice (off + (r - off)) (w + off - r) ?v * 2 ^ (r - off) + bit_slice off (r - off) ?v"
    using bit_slice_append [of off "r - off" "w + off - r" ?v] assms by simp
  also have "bit_slice (off + (r - off)) (w + off - r) ?v = bit_slice 0 (w + off - r) x"
    using assms by (simp add: bit_slice_concat_left)
  also have "bit_slice off (r - off) ?v = bit_slice off (r - off) y"
    using assms by (simp add: bit_slice_concat_right)
  finally show ?thesis by simp
qed

end
