(* ===== verification/Bits.thy ===== *)
theory Bits
  imports Prelude
begin

text \<open>
  The bit twiddling of \<open>include/klee/ADT/Bits.h\<close>, on 32-bit and 64-bit machine
  words. The asserted preconditions are branches of the model.
\<close>

section \<open>bits32\<close>

definition bits32_maxValueOfNBits :: "nat \<Rightarrow> 32 word option" where
  "bits32_maxValueOfNBits N = do {
     assert_that (N \<le> 32);
     Some (if N = 0 then 0 else drop_bit (32 - N) (- 1))
   }"

definition bits32_truncateToNBits :: "32 word \<Rightarrow> nat \<Rightarrow> 32 word option" where
  "bits32_truncateToNBits x N = do {
     assert_that (N > 0 \<and> N \<le> 32);
     Some (x AND drop_bit (32 - N) (- 1))
   }"

definition bits32_withoutRightmostBit :: "32 word \<Rightarrow> 32 word" where
  "bits32_withoutRightmostBit x = x AND (x - 1)"

definition bits32_isolateRightmostBit :: "32 word \<Rightarrow> 32 word" where
  "bits32_isolateRightmostBit x = x AND - x"

definition bits32_isPowerOfTwo :: "32 word \<Rightarrow> bool" where
  "bits32_isPowerOfTwo x = (if x = 0 then False else x AND (x - 1) = 0)"

definition bits32_indexOfSingleBit :: "32 word \<Rightarrow> nat option" where
  "bits32_indexOfSingleBit x = do {
     assert_that (bits32_withoutRightmostBit x = 0);
     let res = (0 :: nat);
     let res = (if x AND 0xFFFF0000 \<noteq> 0 then res + 16 else res);
     let res = (if x AND 0xFF00FF00 \<noteq> 0 then res + 8 else res);
     let res = (if x AND 0xF0F0F0F0 \<noteq> 0 then res + 4 else res);
     let res = (if x AND 0xCCCCCCCC \<noteq> 0 then res + 2 else res);
     let res = (if x AND 0xAAAAAAAA \<noteq> 0 then res + 1 else res);
     assert_that (res < 32);
     assert_that (push_bit res 1 = x);
     Some res
   }"

section \<open>bits64\<close>

definition bits64_maxValueOfNBits :: "nat \<Rightarrow> 64 word option" where
  "bits64_maxValueOfNBits N = do {
     assert_that (N \<le> 64);
     Some (if N = 0 then 0 else drop_bit (64 - N) (- 1))
   }"

definition bits64_truncateToNBits :: "64 word \<Rightarrow> nat \<Rightarrow> 64 word option" where
  "bits64_truncateToNBits x N = do {
     assert_that (N > 0 \<and> N \<le> 64);
     Some (x AND drop_bit (64 - N) (- 1))
   }"

definition bits64_withoutRightmostBit :: "64 word \<Rightarrow> 64 word" where
  "bits64_withoutRightmostBit x = x AND (x - 1)"

definition bits64_isolateRightmostBit :: "64 word \<Rightarrow> 64 word" where
  "bits64_isolateRightmostBit x = x AND - x"

definition bits64_isPowerOfTwo :: "64 word \<Rightarrow> bool" where
  "bits64_isPowerOfTwo x = (if x = 0 then False else x AND (x - 1) = 0)"

definition bits64_indexOfSingleBit :: "64 word \<Rightarrow> nat option" where
  "bits64_indexOfSingleBit x = do {
     assert_that (x AND (x - 1) = 0);
     res \<leftarrow> bits32_indexOfSingleBit (ucast (x OR drop_bit 32 x));
     let res = (if x AND push_bit 32 0xFFFFFFFF \<noteq> 0 then res + 32 else res);
     assert_that (res < 64);
     assert_that (push_bit res 1 = x);
     Some res
   }"

definition roundUpToMultipleOf4096 :: "64 word \<Rightarrow> 64 word" where
  "roundUpToMultipleOf4096 x = ((x - 1) OR (4096 - 1)) + 1"

section \<open>Truncation\<close>

lemma drop_bit_minus_one_word:
  "n \<le> LENGTH('a) \<Longrightarrow> drop_bit (LENGTH('a) - n) (- 1 :: 'a :: len word) = mask n"
  by (rule bit_word_eqI) (auto simp: bit_simps)

lemma bits64_truncateToNBits_eq:
  assumes "0 < N" "N \<le> 64"
  shows "bits64_truncateToNBits x N = Some (take_bit N x)"
  using assms drop_bit_minus_one_word [where 'a = 64, of N]
  by (simp add: bits64_truncateToNBits_def take_bit_eq_mask)

lemma bits32_truncateToNBits_eq:
  assumes "0 < N" "N \<le> 32"
  shows "bits32_truncateToNBits x N = Some (take_bit N x)"
  using assms drop_bit_minus_one_word [where 'a = 32, of N]
  by (simp add: bits32_truncateToNBits_def take_bit_eq_mask)

lemma bits64_maxValueOfNBits_eq:
  "N \<le> 64 \<Longrightarrow> bits64_maxValueOfNBits N = Some (mask N)"
  using drop_bit_minus_one_word [where 'a = 64, of N]
  by (simp add: bits64_maxValueOfNBits_def)

section \<open>Single bits\<close>

lemma pow2_and_pred:
  fixes x :: "'a :: len word"
  assumes "i < LENGTH('a)"
  shows "push_bit i 1 AND (push_bit i 1 - 1) = (0 :: 'a word)"
proof -
  have "push_bit i 1 - 1 = (mask i :: 'a word)"
    by (simp add: mask_eq_exp_minus_1 push_bit_eq_mult)
  then show ?thesis
    by (simp only:) (rule bit_word_eqI, auto simp: bit_simps)
qed

lemma bits32_indexOfSingleBit_pow:
  assumes "i < 32"
  shows "bits32_indexOfSingleBit (push_bit i 1) = Some i"
proof -
  have "i \<in> set [0, 1, 2, 3, 4, 5, 6, 7, 8, 9, 10, 11, 12, 13, 14, 15, 16, 17, 18, 19, 20,
    21, 22, 23, 24, 25, 26, 27, 28, 29, 30, 31]"
    using assms by (simp; arith)
  then show ?thesis
    by (simp only: list.set insert_iff empty_iff, elim disjE)
      (simp_all add: bits32_indexOfSingleBit_def bits32_withoutRightmostBit_def)
qed

lemma fold_halves_pow:
  assumes "i < 64"
  shows "(ucast (push_bit i 1 OR drop_bit 32 (push_bit i 1 :: 64 word)) :: 32 word)
       = push_bit (if i < 32 then i else i - 32) 1"
  using assms by (intro bit_word_eqI) (auto simp: bit_simps)

lemma high_half_pow:
  assumes "i < 64"
  shows "push_bit i 1 AND push_bit 32 0xFFFFFFFF \<noteq> (0 :: 64 word) \<longleftrightarrow> 32 \<le> i"
proof -
  have m: "(0xFFFFFFFF :: 64 word) = mask 32" by (simp add: mask_numeral)
  have "push_bit i 1 AND push_bit 32 0xFFFFFFFF
      = (if 32 \<le> i then push_bit i 1 else (0 :: 64 word))"
    unfolding m using assms by (intro bit_word_eqI) (auto simp: bit_simps)
  moreover have "push_bit i 1 \<noteq> (0 :: 64 word)"
    using assms by (simp add: push_bit_eq_mult)
  ultimately show ?thesis by simp
qed

lemma bits64_indexOfSingleBit_pow:
  assumes "i < 64"
  shows "bits64_indexOfSingleBit (push_bit i 1) = Some i"
  using assms pow2_and_pred [where 'a = 64, of i] bits32_indexOfSingleBit_pow
    high_half_pow [OF assms]
  by (auto simp: bits64_indexOfSingleBit_def fold_halves_pow assert_that_bind simp del: push_bit_of_1)

text \<open>The lowest bit of a word, and what lies above it.\<close>

lemma lowest_bit:
  fixes x :: "'a :: len word"
  assumes "x \<noteq> 0"
  obtains i where "i < LENGTH('a)" "bit x i" "\<And>j. j < i \<Longrightarrow> \<not> bit x j"
    "x = push_bit (Suc i) (drop_bit (Suc i) x) + push_bit i 1"
    "x - 1 = push_bit (Suc i) (drop_bit (Suc i) x) OR mask i"
proof -
  obtain i where i: "bit x i" "\<And>j. j < i \<Longrightarrow> \<not> bit x j"
    using assms by (metis bit_0_eq bit_eqI bot_apply bot_bool_def exists_least_iff)
  have il: "i < LENGTH('a)" using i(1) by (rule bit_imp_le_length)
  let ?h = "push_bit (Suc i) (drop_bit (Suc i) x)"
  have "?h AND push_bit i 1 = 0"
    by (rule bit_word_eqI) (auto simp: bit_simps simp del: push_bit_Suc)
  then have "?h + push_bit i 1 = ?h OR push_bit i 1" by (rule disjunctive_add_eq_or)
  also have "\<dots> = x"
  proof (rule bit_word_eqI)
    fix n assume "n < LENGTH('a)"
    then show "bit (?h OR push_bit i 1) n = bit x n"
      using i i(2) [of n] by (cases n i rule: linorder_cases)
        (auto simp: bit_simps Suc_le_eq simp del: push_bit_Suc)
  qed
  finally have split: "x = ?h + push_bit i 1" by simp
  have "x - 1 = ?h + mask i"
    by (subst split) (simp add: mask_eq_exp_minus_1 push_bit_eq_mult)
  also have "\<dots> = ?h OR mask i"
    by (rule disjunctive_add_eq_or, rule bit_word_eqI) (auto simp: bit_simps)
  finally show ?thesis using that il i split by blast
qed

text \<open>A word with at most one bit is zero or a power of two.\<close>

lemma single_bit_cases:
  fixes x :: "'a :: len word"
  assumes "x AND (x - 1) = 0" "x \<noteq> 0"
  obtains i where "i < LENGTH('a)" "x = push_bit i 1"
proof (rule lowest_bit [OF assms(2)])
  fix i assume i: "i < LENGTH('a)" "\<And>j. j < i \<Longrightarrow> \<not> bit x j"
    and split: "x = push_bit (Suc i) (drop_bit (Suc i) x) + push_bit i 1"
    and pred: "x - 1 = push_bit (Suc i) (drop_bit (Suc i) x) OR mask i"
  let ?h = "push_bit (Suc i) (drop_bit (Suc i) x)"
  have "x AND (?h OR mask i) = 0" using assms(1) pred by simp
  moreover have "x AND (?h OR mask i) = ?h"
    using i(2) by (intro bit_word_eqI) (auto simp: bit_simps simp del: push_bit_Suc)
  ultimately have "?h = 0" by simp
  with split have "x = push_bit i 1" by simp
  with i(1) show ?thesis by (rule that)
qed

lemma isolate_rightmost:
  fixes x :: "'a :: len word"
  assumes "bit x i" "\<And>j. j < i \<Longrightarrow> \<not> bit x j"
  shows "x AND - x = push_bit i 1"
proof -
  have "x \<noteq> 0" using assms(1) by auto
  then obtain k where k: "bit x k" "\<And>j. j < k \<Longrightarrow> \<not> bit x j"
      "x - 1 = push_bit (Suc k) (drop_bit (Suc k) x) OR mask k"
    using lowest_bit by metis
  then have "k = i" using assms by (meson linorder_neqE_nat)
  have "- x = NOT (x - 1)" by (simp add: not_eq_complement)
  also have "\<dots> = NOT (push_bit (Suc i) (drop_bit (Suc i) x) OR mask i)" using k(3) \<open>k = i\<close> by simp
  finally have "x AND - x = x AND NOT (push_bit (Suc i) (drop_bit (Suc i) x) OR mask i)" by simp
  also have "\<dots> = push_bit i 1"
  proof (rule bit_word_eqI)
    fix n assume "n < LENGTH('a)"
    then show "bit (x AND NOT (push_bit (Suc i) (drop_bit (Suc i) x) OR mask i)) n = bit (push_bit i 1 :: 'a word) n"
      using assms(1) assms(2) [of n] by (cases n i rule: linorder_cases) (auto simp: bit_simps simp del: push_bit_Suc)
  qed
  finally show ?thesis .
qed

section \<open>Trailing zeroes\<close>

text \<open>\<open>countTrailingZeroes\<close> is the compiler's \<open>ctz\<close>.\<close>

definition countTrailingZeroes :: "64 word \<Rightarrow> nat option" where
  "countTrailingZeroes x = do {
     assert_that (x > 0);
     Some (length (takeWhile (\<lambda>i. \<not> bit x i) [0..<64]))
   }"

lemma countTrailingZeroes_Some:
  assumes "x \<noteq> 0"
  obtains i where "countTrailingZeroes x = Some i" "i < 64" "bit x i" "\<And>j. j < i \<Longrightarrow> \<not> bit x j"
proof (rule lowest_bit [OF assms])
  fix i assume i: "i < LENGTH(64)" "bit x i" "\<And>j. j < i \<Longrightarrow> \<not> bit x j"
  have "[0..<64] = [0..<i] @ [i..<64]" using i(1) upt_add_eq_append [of 0 i "64 - i"] by simp
  then have "takeWhile (\<lambda>i. \<not> bit x i) [0..<64] = [0..<i]" using i by (simp add: takeWhile_append upt_conv_Cons)
  then have "countTrailingZeroes x = Some i" using assms by (simp add: countTrailingZeroes_def word_gt_0)
  with i that show ?thesis by simp
qed

lemma isPowerOfTwo64_iff: "bits64_isPowerOfTwo x \<longleftrightarrow> (\<exists>i < 64. x = push_bit i 1)"
proof
  assume "bits64_isPowerOfTwo x"
  then have "x AND (x - 1) = 0" "x \<noteq> 0"
    by (auto simp: bits64_isPowerOfTwo_def split: if_splits)
  then obtain i where "i < 64" "x = push_bit i 1"
    using single_bit_cases [of x] by auto
  then show "\<exists>i < 64. x = push_bit i 1" by blast
next
  assume "\<exists>i < 64. x = push_bit i 1"
  then obtain i where i: "i < 64" "x = push_bit i 1" by blast
  moreover from i(1) have "push_bit i 1 \<noteq> (0 :: 64 word)"
    by (simp add: push_bit_eq_mult)
  ultimately show "bits64_isPowerOfTwo x"
    using pow2_and_pred [where 'a = 64, of i] by (simp add: bits64_isPowerOfTwo_def)
qed

section \<open>Contracts\<close>

text \<open>
  (C22) \<open>bits64::indexOfSingleBit\<close> returns \<open>i\<close> exactly on the word with the single bit
  \<open>i\<close>; on every other word, zero included, an assertion fails.
\<close>

theorem bits64_indexOfSingleBit_iff:
  "bits64_indexOfSingleBit x = Some i \<longleftrightarrow> i < 64 \<and> x = push_bit i 1"
proof
  assume r: "bits64_indexOfSingleBit x = Some i"
  show "i < 64 \<and> x = push_bit i 1"
    using r by (auto simp: bits64_indexOfSingleBit_def Let_def assert_that_bind bind_eq_Some_conv split: if_splits)
next
  assume "i < 64 \<and> x = push_bit i 1"
  then show "bits64_indexOfSingleBit x = Some i" using bits64_indexOfSingleBit_pow by blast
qed

end
