(* ===== verification/Const_Expr.thy ===== *)
theory Const_Expr
  imports Bits
begin

text \<open>
  The constants of the expression language: class \<open>ConstantExpr\<close> of
  \<open>include/klee/Expr/Expr.h\<close> and its operations in \<open>lib/Expr/Expr.cpp\<close>.
  A constant is an integer of a run-time width (an \<open>APInt\<close>), so it is modelled as the
  width with an unsigned value below \<open>2 ^ width\<close>, and every operation writes its
  wrap-around out. Operands of different widths are the callers' asserted error;
  division by zero, on which the integer type stops, is \<open>None\<close>.
\<close>

section \<open>Data\<close>

datatype apint = APInt (getBitWidth: nat) (getValue: int)

definition wf_apint :: "apint \<Rightarrow> bool" where
  "wf_apint c \<longleftrightarrow> 0 < getBitWidth c \<and> in_width (getBitWidth c) (getValue c)"

lemma wf_apint_APInt [simp]: "wf_apint (APInt w v) \<longleftrightarrow> 0 < w \<and> in_width w v"
  by (simp add: wf_apint_def)

text \<open>The signed reading of a constant (\<open>APInt::getSExtValue\<close> at any width).\<close>

definition getSigned :: "apint \<Rightarrow> int" where
  "getSigned c = signed_take_bit (getBitWidth c - 1) (getValue c)"

lemma getSigned_eq: "wf_apint c \<Longrightarrow> getSigned c = signed_val (getBitWidth c) (getValue c)"
  unfolding getSigned_def wf_apint_def by (rule signed_take_bit_eq_signed_val) simp_all

section \<open>Construction and tests\<close>

definition ConstantExpr__alloc :: "64 word \<Rightarrow> nat \<Rightarrow> apint" where
  "ConstantExpr__alloc v w = APInt w (take_bit w (uint v))"

definition ConstantExpr__create :: "64 word \<Rightarrow> nat \<Rightarrow> apint option" where
  "ConstantExpr__create v w = do {
     (if w \<le> 64 then do {
        t \<leftarrow> bits64_truncateToNBits v w;
        assert_that (v = t)
      } else Some ());
     Some (ConstantExpr__alloc v w)
   }"

definition getZExtValue :: "apint \<Rightarrow> nat \<Rightarrow> 64 word option" where
  "getZExtValue c bits = do {
     assert_that (getBitWidth c \<le> bits);
     Some (word_of_int (getValue c))
   }"

definition getLimitedValue :: "apint \<Rightarrow> 64 word \<Rightarrow> 64 word" where
  "getLimitedValue c Limit =
     (if uint Limit < getValue c then Limit else word_of_int (getValue c))"

definition ConstantExpr__isZero :: "apint \<Rightarrow> bool" where
  "ConstantExpr__isZero c \<longleftrightarrow> getValue c = 0"

definition ConstantExpr__isOne :: "apint \<Rightarrow> bool" where
  "ConstantExpr__isOne c \<longleftrightarrow> getLimitedValue c (- 1) = 1"

definition ConstantExpr__isTrue :: "apint \<Rightarrow> bool" where
  "ConstantExpr__isTrue c \<longleftrightarrow> getBitWidth c = 1 \<and> getValue c \<noteq> 0"

definition ConstantExpr__isFalse :: "apint \<Rightarrow> bool" where
  "ConstantExpr__isFalse c \<longleftrightarrow> getBitWidth c = 1 \<and> getValue c = 0"

definition ConstantExpr__isAllOnes :: "apint \<Rightarrow> bool" where
  "ConstantExpr__isAllOnes c \<longleftrightarrow> getValue c = mask (getBitWidth c)"

section \<open>Operations\<close>

definition ConstantExpr__Concat :: "apint \<Rightarrow> apint \<Rightarrow> apint" where
  "ConstantExpr__Concat l r =
     (let W = getBitWidth l + getBitWidth r;
          Tmp = take_bit W (getValue l);
          Tmp = take_bit W (push_bit (getBitWidth r) Tmp)
      in APInt W (Tmp OR take_bit W (getValue r)))"

definition ConstantExpr__Extract :: "apint \<Rightarrow> nat \<Rightarrow> nat \<Rightarrow> apint" where
  "ConstantExpr__Extract c off W =
     APInt W (take_bit W (take_bit (getBitWidth c) (drop_bit off (getSigned c))))"

definition ConstantExpr__ZExt :: "apint \<Rightarrow> nat \<Rightarrow> apint" where
  "ConstantExpr__ZExt c W = APInt W (take_bit W (getValue c))"

definition ConstantExpr__SExt :: "apint \<Rightarrow> nat \<Rightarrow> apint" where
  "ConstantExpr__SExt c W = APInt W (take_bit W (getSigned c))"

definition ConstantExpr__Add :: "apint \<Rightarrow> apint \<Rightarrow> apint" where
  "ConstantExpr__Add l r =
     APInt (getBitWidth l) (take_bit (getBitWidth l) (getValue l + getValue r))"

definition ConstantExpr__Neg :: "apint \<Rightarrow> apint" where
  "ConstantExpr__Neg c = APInt (getBitWidth c) (take_bit (getBitWidth c) (- getValue c))"

definition ConstantExpr__Sub :: "apint \<Rightarrow> apint \<Rightarrow> apint" where
  "ConstantExpr__Sub l r =
     APInt (getBitWidth l) (take_bit (getBitWidth l) (getValue l - getValue r))"

definition ConstantExpr__Mul :: "apint \<Rightarrow> apint \<Rightarrow> apint" where
  "ConstantExpr__Mul l r =
     APInt (getBitWidth l) (take_bit (getBitWidth l) (getValue l * getValue r))"

definition ConstantExpr__UDiv :: "apint \<Rightarrow> apint \<Rightarrow> apint option" where
  "ConstantExpr__UDiv l r = do {
     assert_that (getValue r \<noteq> 0);
     Some (APInt (getBitWidth l) (getValue l div getValue r))
   }"

definition ConstantExpr__SDiv :: "apint \<Rightarrow> apint \<Rightarrow> apint option" where
  "ConstantExpr__SDiv l r = do {
     assert_that (getValue r \<noteq> 0);
     Some (APInt (getBitWidth l) (take_bit (getBitWidth l) (getSigned l sdiv getSigned r)))
   }"

definition ConstantExpr__URem :: "apint \<Rightarrow> apint \<Rightarrow> apint option" where
  "ConstantExpr__URem l r = do {
     assert_that (getValue r \<noteq> 0);
     Some (APInt (getBitWidth l) (getValue l mod getValue r))
   }"

definition ConstantExpr__SRem :: "apint \<Rightarrow> apint \<Rightarrow> apint option" where
  "ConstantExpr__SRem l r = do {
     assert_that (getValue r \<noteq> 0);
     Some (APInt (getBitWidth l) (take_bit (getBitWidth l) (getSigned l smod getSigned r)))
   }"

definition ConstantExpr__And :: "apint \<Rightarrow> apint \<Rightarrow> apint" where
  "ConstantExpr__And l r = APInt (getBitWidth l) (getValue l AND getValue r)"

definition ConstantExpr__Or :: "apint \<Rightarrow> apint \<Rightarrow> apint" where
  "ConstantExpr__Or l r = APInt (getBitWidth l) (getValue l OR getValue r)"

definition ConstantExpr__Xor :: "apint \<Rightarrow> apint \<Rightarrow> apint" where
  "ConstantExpr__Xor l r = APInt (getBitWidth l) (getValue l XOR getValue r)"

text \<open>A shift amount of the width or more clears the value, or fills it with the sign.\<close>

definition shift_amount :: "apint \<Rightarrow> apint \<Rightarrow> nat" where
  "shift_amount l r = nat (min (getValue r) (int (getBitWidth l)))"

definition ConstantExpr__Shl :: "apint \<Rightarrow> apint \<Rightarrow> apint" where
  "ConstantExpr__Shl l r =
     APInt (getBitWidth l) (take_bit (getBitWidth l) (push_bit (shift_amount l r) (getValue l)))"

definition ConstantExpr__LShr :: "apint \<Rightarrow> apint \<Rightarrow> apint" where
  "ConstantExpr__LShr l r = APInt (getBitWidth l) (drop_bit (shift_amount l r) (getValue l))"

definition ConstantExpr__AShr :: "apint \<Rightarrow> apint \<Rightarrow> apint" where
  "ConstantExpr__AShr l r =
     APInt (getBitWidth l) (take_bit (getBitWidth l) (drop_bit (shift_amount l r) (getSigned l)))"

definition ConstantExpr__Not :: "apint \<Rightarrow> apint" where
  "ConstantExpr__Not c = APInt (getBitWidth c) (take_bit (getBitWidth c) (NOT (getValue c)))"

definition ConstantExpr__Eq :: "apint \<Rightarrow> apint \<Rightarrow> apint" where
  "ConstantExpr__Eq l r = ConstantExpr__alloc (of_bool (getValue l = getValue r)) 1"

definition ConstantExpr__Ne :: "apint \<Rightarrow> apint \<Rightarrow> apint" where
  "ConstantExpr__Ne l r = ConstantExpr__alloc (of_bool (getValue l \<noteq> getValue r)) 1"

definition ConstantExpr__Ult :: "apint \<Rightarrow> apint \<Rightarrow> apint" where
  "ConstantExpr__Ult l r = ConstantExpr__alloc (of_bool (getValue l < getValue r)) 1"

definition ConstantExpr__Ule :: "apint \<Rightarrow> apint \<Rightarrow> apint" where
  "ConstantExpr__Ule l r = ConstantExpr__alloc (of_bool (getValue l \<le> getValue r)) 1"

definition ConstantExpr__Ugt :: "apint \<Rightarrow> apint \<Rightarrow> apint" where
  "ConstantExpr__Ugt l r = ConstantExpr__alloc (of_bool (getValue r < getValue l)) 1"

definition ConstantExpr__Uge :: "apint \<Rightarrow> apint \<Rightarrow> apint" where
  "ConstantExpr__Uge l r = ConstantExpr__alloc (of_bool (getValue r \<le> getValue l)) 1"

definition ConstantExpr__Slt :: "apint \<Rightarrow> apint \<Rightarrow> apint" where
  "ConstantExpr__Slt l r = ConstantExpr__alloc (of_bool (getSigned l < getSigned r)) 1"

definition ConstantExpr__Sle :: "apint \<Rightarrow> apint \<Rightarrow> apint" where
  "ConstantExpr__Sle l r = ConstantExpr__alloc (of_bool (getSigned l \<le> getSigned r)) 1"

definition ConstantExpr__Sgt :: "apint \<Rightarrow> apint \<Rightarrow> apint" where
  "ConstantExpr__Sgt l r = ConstantExpr__alloc (of_bool (getSigned r < getSigned l)) 1"

definition ConstantExpr__Sge :: "apint \<Rightarrow> apint \<Rightarrow> apint" where
  "ConstantExpr__Sge l r = ConstantExpr__alloc (of_bool (getSigned r \<le> getSigned l)) 1"

section \<open>Memory images\<close>

text \<open>
  \<open>fromMemory\<close> and \<open>toMemory\<close> read and write the bytes of the host, which is
  little-endian. Memory is the list of bytes from the address on; a read past the
  list is \<open>None\<close>. An 80-bit value is read from two 64-bit words and written as ten
  bytes.
\<close>

fun bytes_of :: "nat \<Rightarrow> int \<Rightarrow> 8 word list" where
  "bytes_of 0 v = []"
| "bytes_of (Suc n) v = word_of_int (v mod 256) # bytes_of n (v div 256)"

fun of_bytes :: "8 word list \<Rightarrow> int" where
  "of_bytes [] = 0"
| "of_bytes (b # bs) = uint b + 256 * of_bytes bs"

definition read_mem :: "8 word list \<Rightarrow> nat \<Rightarrow> int option" where
  "read_mem m n = (if n \<le> length m then Some (of_bytes (take n m)) else None)"

definition write_mem :: "8 word list \<Rightarrow> 8 word list \<Rightarrow> 8 word list option" where
  "write_mem m bs = (if length bs \<le> length m then Some (bs @ drop (length bs) m) else None)"

definition fromMemory :: "8 word list \<Rightarrow> nat \<Rightarrow> apint option" where
  "fromMemory address width =
     (if width = 1 then do { v \<leftarrow> read_mem address 1; ConstantExpr__create (word_of_int v) width }
      else if width = 8 then do { v \<leftarrow> read_mem address 1; ConstantExpr__create (word_of_int v) width }
      else if width = 16 then do { v \<leftarrow> read_mem address 2; ConstantExpr__create (word_of_int v) width }
      else if width = 32 then do { v \<leftarrow> read_mem address 4; ConstantExpr__create (word_of_int v) width }
      else if width = 64 then do { v \<leftarrow> read_mem address 8; ConstantExpr__create (word_of_int v) width }
      else if width = 80 then do { v \<leftarrow> read_mem address 16; Some (APInt width (take_bit width v)) }
      else if width \<in> {128, 256, 512}
        then do { v \<leftarrow> read_mem address (8 * (width div 64)); Some (APInt width (take_bit width v)) }
      else None)"

definition toMemory :: "apint \<Rightarrow> 8 word list \<Rightarrow> 8 word list option" where
  "toMemory c address =
     (let width = getBitWidth c in
      if width = 1 then do { v \<leftarrow> getZExtValue c 1; write_mem address (bytes_of 1 (uint v)) }
      else if width = 8 then do { v \<leftarrow> getZExtValue c 8; write_mem address (bytes_of 1 (uint v)) }
      else if width = 16 then do { v \<leftarrow> getZExtValue c 16; write_mem address (bytes_of 2 (uint v)) }
      else if width = 32 then do { v \<leftarrow> getZExtValue c 32; write_mem address (bytes_of 4 (uint v)) }
      else if width = 64 then do { v \<leftarrow> getZExtValue c 64; write_mem address (bytes_of 8 (uint v)) }
      else if width = 80 then write_mem address (bytes_of 10 (getValue c))
      else if width \<in> {128, 256, 512} then write_mem address (bytes_of (width div 8) (getValue c))
      else None)"

section \<open>Basic facts\<close>

lemma APInt_collapse: "c = APInt w v \<longleftrightarrow> getBitWidth c = w \<and> getValue c = v"
  by (cases c) auto

lemma getBitWidth_ops [simp]:
  "getBitWidth (ConstantExpr__alloc x w) = w"
  "getBitWidth (ConstantExpr__Concat l r) = getBitWidth l + getBitWidth r"
  "getBitWidth (ConstantExpr__Extract l off w) = w"
  "getBitWidth (ConstantExpr__ZExt l w) = w"
  "getBitWidth (ConstantExpr__SExt l w) = w"
  "getBitWidth (ConstantExpr__Add l r) = getBitWidth l"
  "getBitWidth (ConstantExpr__Sub l r) = getBitWidth l"
  "getBitWidth (ConstantExpr__Mul l r) = getBitWidth l"
  "getBitWidth (ConstantExpr__Neg l) = getBitWidth l"
  "getBitWidth (ConstantExpr__And l r) = getBitWidth l"
  "getBitWidth (ConstantExpr__Or l r) = getBitWidth l"
  "getBitWidth (ConstantExpr__Xor l r) = getBitWidth l"
  "getBitWidth (ConstantExpr__Shl l r) = getBitWidth l"
  "getBitWidth (ConstantExpr__LShr l r) = getBitWidth l"
  "getBitWidth (ConstantExpr__AShr l r) = getBitWidth l"
  "getBitWidth (ConstantExpr__Not l) = getBitWidth l"
  by (simp_all add: ConstantExpr__alloc_def ConstantExpr__Concat_def ConstantExpr__Extract_def
      ConstantExpr__ZExt_def ConstantExpr__SExt_def ConstantExpr__Add_def ConstantExpr__Sub_def
      ConstantExpr__Mul_def ConstantExpr__Neg_def ConstantExpr__And_def ConstantExpr__Or_def
      ConstantExpr__Xor_def ConstantExpr__Shl_def ConstantExpr__LShr_def ConstantExpr__AShr_def
      ConstantExpr__Not_def Let_def)

lemma ConstantExpr__alloc_0 [simp]: "ConstantExpr__alloc 0 w = APInt w 0"
  by (simp add: ConstantExpr__alloc_def)

lemma ConstantExpr__alloc_1 [simp]: "0 < w \<Longrightarrow> ConstantExpr__alloc 1 w = APInt w 1"
  by (cases w) (simp_all add: ConstantExpr__alloc_def)

lemma ConstantExpr__alloc_of_bool: "0 < w \<Longrightarrow> ConstantExpr__alloc (of_bool b) w = APInt w (of_bool b)"
  by (cases b) simp_all

lemma ConstantExpr__create_eq:
  "0 < w \<Longrightarrow> ConstantExpr__create v w =
     (if w \<le> 64 \<and> v \<noteq> take_bit w v then None else Some (ConstantExpr__alloc v w))"
  by (simp add: ConstantExpr__create_def bits64_truncateToNBits_eq assert_that_bind)

lemma ConstantExpr__create_0 [simp]: "0 < w \<Longrightarrow> ConstantExpr__create 0 w = Some (APInt w 0)"
  by (simp add: ConstantExpr__create_eq)

lemma ConstantExpr__isOne_iff: "wf_apint c \<Longrightarrow> ConstantExpr__isOne c \<longleftrightarrow> getValue c = 1"
proof -
  assume c: "wf_apint c"
  have "(word_of_int (getValue c) :: 64 word) = 1 \<longleftrightarrow> getValue c = 1"
    if "\<not> uint (- 1 :: 64 word) < getValue c"
  proof -
    have "0 \<le> getValue c" "getValue c < 2 ^ 64"
      using c that by (auto simp: wf_apint_def in_width_def unsigned_minus_1_eq_mask mask_eq_exp_minus_1)
    then have "uint (word_of_int (getValue c) :: 64 word) = getValue c"
      by (simp add: uint_word_of_int_eq take_bit_int_eq_self)
    then show ?thesis by (simp add: word_uint_eq_iff)
  qed
  moreover have "\<not> uint (- 1 :: 64 word) < 1"
    by (simp add: unsigned_minus_1_eq_mask mask_eq_exp_minus_1)
  ultimately show ?thesis
    by (auto simp: ConstantExpr__isOne_def getLimitedValue_def)
qed

lemma ConstantExpr__Extract_value:
  assumes "wf_apint c" "off + W \<le> getBitWidth c"
  shows "getValue (ConstantExpr__Extract c off W) = bit_slice off W (getValue c)"
proof -
  have "take_bit W (take_bit (getBitWidth c) (drop_bit off (getSigned c)))
      = take_bit W (drop_bit off (take_bit (getBitWidth c) (getSigned c)))"
    using assms(2) by (intro bit_eqI) (auto simp: bit_simps)
  also have "take_bit (getBitWidth c) (getSigned c) = getValue c"
    using assms(1) by (simp add: getSigned_eq wf_apint_def take_bit_signed_val)
  finally show ?thesis
    by (simp add: ConstantExpr__Extract_def bit_slice_eq_take_drop)
qed

lemma ConstantExpr__Concat_value:
  assumes "wf_apint l" "wf_apint r"
  shows "getValue (ConstantExpr__Concat l r) = getValue l * 2 ^ getBitWidth r + getValue r"
proof -
  let ?W = "getBitWidth l + getBitWidth r"
  have l: "take_bit ?W (getValue l) = getValue l" and r: "take_bit ?W (getValue r) = getValue r"
    using assms in_width_mono [of "getBitWidth l" _ ?W] in_width_mono [of "getBitWidth r" _ ?W]
    by (simp_all add: wf_apint_def in_width_take_bit_eq)
  have "take_bit ?W (push_bit (getBitWidth r) (getValue l)) = push_bit (getBitWidth r) (getValue l)"
    using in_width_concat [of "getBitWidth l" "getValue l" "getBitWidth r" 0] assms
    by (simp add: wf_apint_def push_bit_eq_mult in_width_take_bit_eq)
  then show ?thesis
    using assms by (simp add: ConstantExpr__Concat_def Let_def l r push_bit_or_eq_add wf_apint_def)
qed

section \<open>Memory images: lemmas\<close>

lemma length_bytes_of [simp]: "length (bytes_of n v) = n"
  by (induction n arbitrary: v) auto

lemma of_bytes_of: "of_bytes (bytes_of n v) = v mod 2 ^ (8 * n)"
proof (induction n arbitrary: v)
  case 0
  then show ?case by simp
next
  case (Suc n)
  have "v mod 2 ^ (8 * Suc n) = v mod (256 * 2 ^ (8 * n))"
    by (simp add: power_add)
  also have "\<dots> = 256 * (v div 256 mod 2 ^ (8 * n)) + v mod 256"
    by (simp add: zmod_zmult2_eq)
  finally show ?case
    using Suc by (simp add: uint_word_of_int_eq take_bit_eq_mod)
qed

lemma of_bytes_append: "of_bytes (xs @ ys) = of_bytes xs + 2 ^ (8 * length xs) * of_bytes ys"
  by (induction xs) (auto simp: power_add algebra_simps)

lemma read_write_mem:
  "write_mem m bs = Some m' \<Longrightarrow> length bs = n \<Longrightarrow> read_mem m' n = Some (of_bytes bs)"
  by (auto simp: write_mem_def read_mem_def split: if_splits)

end
