(* ===== verification/Expr_Data.thy ===== *)
theory Expr_Data
  imports Const_Expr "HOL-Library.List_Lexorder" "HOL-Library.Char_ord"
begin

text \<open>
  The expression trees of \<open>include/klee/Expr/Expr.h\<close>: kinds, arrays, update lists,
  expressions, their widths and kids, and the hash and the structural comparison of
  \<open>lib/Expr/Expr.cpp\<close> and \<open>lib/Expr/Updates.cpp\<close>.

  The source shares expressions by reference counting and never changes one after its
  construction, so an expression is a tree here; the two short cuts of \<open>compare\<close> on
  equal pointers (\<open>this == &b\<close> and the set of pairs already found equal) answer what
  the comparison of the trees answers. An array is identified by its address.
\<close>

section \<open>Kinds\<close>

datatype bkind =
    Add | Sub | Mul | UDiv | SDiv | URem | SRem
  | And | Or | Xor | Shl | LShr | AShr
  | Eq | Ne | Ult | Ule | Ugt | Uge | Slt | Sle | Sgt | Sge

datatype kind =
    Constant | NotOptimized | Read | Select | Concat | Extract | ZExt | SExt | NotK
  | BinaryK bkind

text \<open>The value of the enumeration: \<open>Read\<close> is \<open>NotOptimized + 2\<close>.\<close>

fun bkind_value :: "bkind \<Rightarrow> nat" where
  "bkind_value Add = 10" | "bkind_value Sub = 11" | "bkind_value Mul = 12"
| "bkind_value UDiv = 13" | "bkind_value SDiv = 14" | "bkind_value URem = 15"
| "bkind_value SRem = 16" | "bkind_value And = 17" | "bkind_value Or = 18"
| "bkind_value Xor = 19" | "bkind_value Shl = 20" | "bkind_value LShr = 21"
| "bkind_value AShr = 22" | "bkind_value Eq = 23" | "bkind_value Ne = 24"
| "bkind_value Ult = 25" | "bkind_value Ule = 26" | "bkind_value Ugt = 27"
| "bkind_value Uge = 28" | "bkind_value Slt = 29" | "bkind_value Sle = 30"
| "bkind_value Sgt = 31" | "bkind_value Sge = 32"

fun kind_value :: "kind \<Rightarrow> nat" where
  "kind_value Constant = 0" | "kind_value NotOptimized = 1" | "kind_value Read = 3"
| "kind_value Select = 4" | "kind_value Concat = 5" | "kind_value Extract = 6"
| "kind_value ZExt = 7" | "kind_value SExt = 8" | "kind_value NotK = 9"
| "kind_value (BinaryK k) = bkind_value k"

text \<open>\<open>CmpKindFirst \<le> k \<and> k \<le> CmpKindLast\<close>.\<close>

definition is_cmp :: "bkind \<Rightarrow> bool" where
  "is_cmp k \<longleftrightarrow> bkind_value Eq \<le> bkind_value k \<and> bkind_value k \<le> bkind_value Sge"

lemma is_cmp_simps [simp]:
  "\<not> is_cmp Add" "\<not> is_cmp Sub" "\<not> is_cmp Mul" "\<not> is_cmp UDiv" "\<not> is_cmp SDiv"
  "\<not> is_cmp URem" "\<not> is_cmp SRem" "\<not> is_cmp And" "\<not> is_cmp Or" "\<not> is_cmp Xor"
  "\<not> is_cmp Shl" "\<not> is_cmp LShr" "\<not> is_cmp AShr" "is_cmp Eq" "is_cmp Ne" "is_cmp Ult"
  "is_cmp Ule" "is_cmp Ugt" "is_cmp Uge" "is_cmp Slt" "is_cmp Sle" "is_cmp Sgt" "is_cmp Sge"
  by (simp_all add: is_cmp_def)

lemma bkind_value_inj [simp]: "bkind_value a = bkind_value b \<longleftrightarrow> a = b"
  by (cases a; cases b) simp_all

lemma bkind_value_ge: "10 \<le> bkind_value k"
  by (cases k) simp_all

lemma bkind_value_neq [simp]: "n < 10 \<Longrightarrow> bkind_value k \<noteq> n" "n < 10 \<Longrightarrow> n \<noteq> bkind_value k"
  using bkind_value_ge [of k] by simp_all

lemma kind_value_inj [simp]: "kind_value a = kind_value b \<longleftrightarrow> a = b"
  by (cases a; cases b) simp_all

text \<open>The order of the enumeration, which decides comparisons of different kinds.\<close>

instantiation kind :: linorder
begin

definition less_eq_kind :: "kind \<Rightarrow> kind \<Rightarrow> bool" where
  "a \<le> b \<longleftrightarrow> kind_value a \<le> kind_value b"

definition less_kind :: "kind \<Rightarrow> kind \<Rightarrow> bool" where
  "a < b \<longleftrightarrow> kind_value a < kind_value b"

instance
  by standard (auto simp: less_eq_kind_def less_kind_def)

end

text \<open>The order of constants: by width, then by unsigned value.\<close>

instantiation apint :: linorder
begin

definition less_eq_apint :: "apint \<Rightarrow> apint \<Rightarrow> bool" where
  "a \<le> b \<longleftrightarrow> getBitWidth a < getBitWidth b
     \<or> getBitWidth a = getBitWidth b \<and> getValue a \<le> getValue b"

definition less_apint :: "apint \<Rightarrow> apint \<Rightarrow> bool" where
  "a < b \<longleftrightarrow> getBitWidth a < getBitWidth b
     \<or> getBitWidth a = getBitWidth b \<and> getValue a < getValue b"

instance
  by standard (auto simp: less_eq_apint_def less_apint_def intro: apint.expand)

end

section \<open>Arrays, update lists, expressions\<close>

record array =
  arr_addr :: nat
  arr_name :: string
  arr_size :: nat
  arr_domain :: nat
  arr_range :: nat
  constantValues :: "apint list"

definition isSymbolicArray :: "array \<Rightarrow> bool" where
  "isSymbolicArray a \<longleftrightarrow> constantValues a = []"

definition isConstantArray :: "array \<Rightarrow> bool" where
  "isConstantArray a \<longleftrightarrow> \<not> isSymbolicArray a"

text \<open>
  The constructor of \<open>Array\<close>. The size is given as 64 bits and kept in an
  \<open>unsigned\<close>, so it is truncated to 32 bits before it is checked.
\<close>

definition Array__Array ::
  "nat \<Rightarrow> string \<Rightarrow> 64 word \<Rightarrow> apint list \<Rightarrow> nat \<Rightarrow> nat \<Rightarrow> array option" where
  "Array__Array addr nm sz vals dm rng = do {
     let a = \<lparr>arr_addr = addr, arr_name = nm, arr_size = unat (ucast sz :: 32 word),
              arr_domain = dm, arr_range = rng, constantValues = vals\<rparr>;
     assert_that (isSymbolicArray a \<or> length (constantValues a) = arr_size a);
     assert_that (\<forall>c \<in> set vals. getBitWidth c = rng);
     Some a
   }"

datatype expr =
    ConstantExpr apint
  | NotOptimizedExpr expr
  | ReadExpr array updateNode expr
  | SelectExpr expr expr expr
  | ConcatExpr expr expr
  | ExtractExpr expr nat nat
  | ZExtExpr expr nat
  | SExtExpr expr nat
  | NotExpr expr
  | BinaryExpr bkind expr expr
and updateNode =
    NoUpdate
  | UpdateNode expr expr updateNode

text \<open>An \<open>UpdateList\<close>: its root and its most recent update.\<close>

type_synonym updateList = "array \<times> updateNode"

fun UpdateNode__getSize :: "updateNode \<Rightarrow> nat" where
  "UpdateNode__getSize NoUpdate = 0"
| "UpdateNode__getSize (UpdateNode i v next) = UpdateNode__getSize next + 1"

fun getKind :: "expr \<Rightarrow> kind" where
  "getKind (ConstantExpr _) = Constant"
| "getKind (NotOptimizedExpr _) = NotOptimized"
| "getKind (ReadExpr _ _ _) = Read"
| "getKind (SelectExpr _ _ _) = Select"
| "getKind (ConcatExpr _ _) = Concat"
| "getKind (ExtractExpr _ _ _) = Extract"
| "getKind (ZExtExpr _ _) = ZExt"
| "getKind (SExtExpr _ _) = SExt"
| "getKind (NotExpr _) = NotK"
| "getKind (BinaryExpr k _ _) = BinaryK k"

fun getWidth :: "expr \<Rightarrow> nat" where
  "getWidth (ConstantExpr c) = getBitWidth c"
| "getWidth (NotOptimizedExpr src) = getWidth src"
| "getWidth (ReadExpr root _ _) = arr_range root"
| "getWidth (SelectExpr _ t _) = getWidth t"
| "getWidth (ConcatExpr l r) = getWidth l + getWidth r"
| "getWidth (ExtractExpr _ _ w) = w"
| "getWidth (ZExtExpr _ w) = w"
| "getWidth (SExtExpr _ w) = w"
| "getWidth (NotExpr e) = getWidth e"
| "getWidth (BinaryExpr k l _) = (if is_cmp k then 1 else getWidth l)"

fun getKids :: "expr \<Rightarrow> expr list" where
  "getKids (ConstantExpr _) = []"
| "getKids (NotOptimizedExpr src) = [src]"
| "getKids (ReadExpr _ _ i) = [i]"
| "getKids (SelectExpr c t f) = [c, t, f]"
| "getKids (ConcatExpr l r) = [l, r]"
| "getKids (ExtractExpr e _ _) = [e]"
| "getKids (ZExtExpr e _) = [e]"
| "getKids (SExtExpr e _) = [e]"
| "getKids (NotExpr e) = [e]"
| "getKids (BinaryExpr _ l r) = [l, r]"

definition getNumKids :: "expr \<Rightarrow> nat" where
  "getNumKids e = length (getKids e)"

fun is_const :: "expr \<Rightarrow> bool" where
  "is_const (ConstantExpr _) = True"
| "is_const _ = False"

lemma is_const_iff: "is_const e \<longleftrightarrow> (\<exists>c. e = ConstantExpr c)"
  by (cases e) auto

fun Expr__isZero :: "expr \<Rightarrow> bool" where
  "Expr__isZero (ConstantExpr c) = ConstantExpr__isZero c"
| "Expr__isZero _ = False"

definition Expr__isTrue :: "expr \<Rightarrow> bool option" where
  "Expr__isTrue e = do {
     assert_that (getWidth e = 1);
     Some (case e of ConstantExpr c \<Rightarrow> ConstantExpr__isTrue c | _ \<Rightarrow> False)
   }"

definition Expr__isFalse :: "expr \<Rightarrow> bool option" where
  "Expr__isFalse e = do {
     assert_that (getWidth e = 1);
     Some (case e of ConstantExpr c \<Rightarrow> ConstantExpr__isFalse c | _ \<Rightarrow> False)
   }"

definition getMinBytesForWidth :: "nat \<Rightarrow> nat" where
  "getMinBytesForWidth w = (w + 7) div 8"

definition UpdateList__extend :: "updateList \<Rightarrow> expr \<Rightarrow> expr \<Rightarrow> updateList option" where
  "UpdateList__extend ul index value = do {
     assert_that (arr_domain (fst ul) = getWidth index);
     assert_that (arr_range (fst ul) = getWidth value);
     Some (fst ul, UpdateNode index value (snd ul))
   }"


section \<open>Hashes\<close>

text \<open>
  Hashes are 32-bit words and wrap. The hash of a constant wider than 64 bits is taken
  by a library function, the parameter \<open>hash_value\<close>. A \<open>char\<close> is signed on the
  host, so a name is folded with sign-extended characters.
\<close>

definition MAGIC_HASH_CONSTANT :: "32 word" where
  "MAGIC_HASH_CONSTANT = 39"

definition char_word :: "char \<Rightarrow> 32 word" where
  "char_word c = scast (of_nat (of_char c :: nat) :: 8 word)"

fun hash_name :: "32 word \<Rightarrow> string \<Rightarrow> 32 word" where
  "hash_name res [] = res"
| "hash_name res (c # cs) = hash_name (res * MAGIC_HASH_CONSTANT + char_word c) cs"

definition Array__computeHash :: "array \<Rightarrow> 32 word" where
  "Array__computeHash a =
     hash_name 0 (arr_name a) * MAGIC_HASH_CONSTANT + of_nat (arr_size a)"

definition ConstantExpr__computeHash :: "(apint \<Rightarrow> 64 word) \<Rightarrow> apint \<Rightarrow> 32 word" where
  "ConstantExpr__computeHash hash_value c =
     (let w = getBitWidth c in
      if w \<le> 64 then ucast (getLimitedValue c (- 1)) XOR (of_nat w * MAGIC_HASH_CONSTANT)
      else ucast (hash_value c) XOR (of_nat w * MAGIC_HASH_CONSTANT))"

text \<open>\<open>Expr::computeHash\<close>: the kids' hashes are shifted in one after the other.\<close>

fun hash_kids :: "32 word \<Rightarrow> 32 word list \<Rightarrow> 32 word" where
  "hash_kids res [] = res"
| "hash_kids res (h # hs) = hash_kids (push_bit 1 res XOR (h * MAGIC_HASH_CONSTANT)) hs"

definition Expr__computeHash :: "kind \<Rightarrow> 32 word list \<Rightarrow> 32 word" where
  "Expr__computeHash k hs = hash_kids (of_nat (kind_value k) * MAGIC_HASH_CONSTANT) hs"

fun hash :: "(apint \<Rightarrow> 64 word) \<Rightarrow> expr \<Rightarrow> 32 word"
and UpdateNode__computeHash :: "(apint \<Rightarrow> 64 word) \<Rightarrow> updateNode \<Rightarrow> 32 word" where
  "hash hv (ConstantExpr c) = ConstantExpr__computeHash hv c"
| "hash hv (NotOptimizedExpr e) = Expr__computeHash NotOptimized [hash hv e]"
| "hash hv (ReadExpr root us i) =
     hash hv i * MAGIC_HASH_CONSTANT
     XOR (hash_name 0 (arr_name root) XOR UpdateNode__computeHash hv us)"
| "hash hv (SelectExpr c t f) = Expr__computeHash Select [hash hv c, hash hv t, hash hv f]"
| "hash hv (ConcatExpr l r) = Expr__computeHash Concat [hash hv l, hash hv r]"
| "hash hv (ExtractExpr e off w) =
     of_nat off * MAGIC_HASH_CONSTANT XOR of_nat w * MAGIC_HASH_CONSTANT
     XOR hash hv e * MAGIC_HASH_CONSTANT"
| "hash hv (ZExtExpr e w) =
     of_nat w * MAGIC_HASH_CONSTANT XOR hash hv e * MAGIC_HASH_CONSTANT"
| "hash hv (SExtExpr e w) =
     of_nat w * MAGIC_HASH_CONSTANT XOR hash hv e * MAGIC_HASH_CONSTANT"
| "hash hv (NotExpr e) = hash hv e * MAGIC_HASH_CONSTANT * of_nat (kind_value NotK)"
| "hash hv (BinaryExpr k l r) = Expr__computeHash (BinaryK k) [hash hv l, hash hv r]"
| "UpdateNode__computeHash hv NoUpdate = 0"
| "UpdateNode__computeHash hv (UpdateNode i v next) =
     hash hv i XOR hash hv v XOR UpdateNode__computeHash hv next"

section \<open>Structural comparison\<close>

text \<open>Three-way comparison of attributes, and the first difference of two tests.\<close>

definition cmp :: "'a :: linorder \<Rightarrow> 'a \<Rightarrow> int" where
  "cmp a b = (if a \<noteq> b then (if a < b then - 1 else 1) else 0)"

definition and_then :: "int \<Rightarrow> int \<Rightarrow> int" where
  "and_then res rest = (if res \<noteq> 0 then res else rest)"

text \<open>
  \<open>UpdateList::compare\<close> looks at the names, the roots, the sizes and then the
  updates in step; \<open>Expr::compare\<close> at the kinds, the hashes, the contents
  (\<open>compareContents\<close>) and then the kids.
\<close>

function Expr__compare :: "(apint \<Rightarrow> 64 word) \<Rightarrow> expr \<Rightarrow> expr \<Rightarrow> int"
and compareContents :: "(apint \<Rightarrow> 64 word) \<Rightarrow> expr \<Rightarrow> expr \<Rightarrow> int"
and UpdateList__compare :: "(apint \<Rightarrow> 64 word) \<Rightarrow> updateNode \<Rightarrow> updateNode \<Rightarrow> int" where
  "Expr__compare hv a b =
     and_then (cmp (getKind a) (getKind b))
       (and_then (cmp (hash hv a) (hash hv b)) (compareContents hv a b))"
| "compareContents hv a b =
     (case (a, b) of
        (ConstantExpr c, ConstantExpr d) \<Rightarrow>
          and_then (cmp (getBitWidth c) (getBitWidth d)) (cmp (getValue c) (getValue d))
      | (NotOptimizedExpr e, NotOptimizedExpr e') \<Rightarrow> Expr__compare hv e e'
      | (ReadExpr root us i, ReadExpr root' us' i') \<Rightarrow>
          and_then (cmp (arr_name root) (arr_name root'))
            (and_then (cmp (arr_addr root) (arr_addr root'))
              (and_then (cmp (UpdateNode__getSize us) (UpdateNode__getSize us'))
                (and_then (UpdateList__compare hv us us') (Expr__compare hv i i'))))
      | (SelectExpr c t f, SelectExpr c' t' f') \<Rightarrow>
          and_then (Expr__compare hv c c')
            (and_then (Expr__compare hv t t') (Expr__compare hv f f'))
      | (ConcatExpr l r, ConcatExpr l' r') \<Rightarrow>
          and_then (cmp (getWidth l + getWidth r) (getWidth l' + getWidth r'))
            (and_then (Expr__compare hv l l') (Expr__compare hv r r'))
      | (ExtractExpr e off w, ExtractExpr e' off' w') \<Rightarrow>
          and_then (cmp off off') (and_then (cmp w w') (Expr__compare hv e e'))
      | (ZExtExpr e w, ZExtExpr e' w') \<Rightarrow> and_then (cmp w w') (Expr__compare hv e e')
      | (SExtExpr e w, SExtExpr e' w') \<Rightarrow> and_then (cmp w w') (Expr__compare hv e e')
      | (NotExpr e, NotExpr e') \<Rightarrow> Expr__compare hv e e'
      | (BinaryExpr k l r, BinaryExpr k' l' r') \<Rightarrow>
          and_then (Expr__compare hv l l') (Expr__compare hv r r')
      | _ \<Rightarrow> 0)"
| "UpdateList__compare hv an bn =
     (case (an, bn) of
        (UpdateNode i v next, UpdateNode i' v' next') \<Rightarrow>
          and_then (and_then (Expr__compare hv i i') (Expr__compare hv v v'))
            (UpdateList__compare hv next next')
      | _ \<Rightarrow> 0)"
  by pat_completeness auto
termination
  by (relation "measures [\<lambda>x. case x of
        Inl (hv, a, b) \<Rightarrow> size a
      | Inr (Inl (hv, a, b)) \<Rightarrow> size a
      | Inr (Inr (hv, an, bn)) \<Rightarrow> size an,
      \<lambda>x. case x of Inl _ \<Rightarrow> 1 | Inr _ \<Rightarrow> 0]") auto

declare Expr__compare.simps [simp del] compareContents.simps [simp del]
  UpdateList__compare.simps [simp del]

text \<open>Arrays read by an expression.\<close>

fun arrays :: "expr \<Rightarrow> array set" and arrays_upd :: "updateNode \<Rightarrow> array set" where
  "arrays (ConstantExpr _) = {}"
| "arrays (NotOptimizedExpr e) = arrays e"
| "arrays (ReadExpr root us i) = {root} \<union> arrays_upd us \<union> arrays i"
| "arrays (SelectExpr c t f) = arrays c \<union> arrays t \<union> arrays f"
| "arrays (ConcatExpr l r) = arrays l \<union> arrays r"
| "arrays (ExtractExpr e _ _) = arrays e"
| "arrays (ZExtExpr e _) = arrays e"
| "arrays (SExtExpr e _) = arrays e"
| "arrays (NotExpr e) = arrays e"
| "arrays (BinaryExpr _ l r) = arrays l \<union> arrays r"
| "arrays_upd NoUpdate = {}"
| "arrays_upd (UpdateNode i v next) = arrays i \<union> arrays v \<union> arrays_upd next"

lemma cmp_eq_0 [simp]: "cmp a b = 0 \<longleftrightarrow> a = b"
  by (simp add: cmp_def)

lemma cmp_refl [simp]: "cmp a a = 0"
  by simp

lemma cmp_antisym: "cmp b a = - cmp a b"
  by (auto simp: cmp_def)

lemma and_then_eq_0 [simp]: "and_then a b = 0 \<longleftrightarrow> a = 0 \<and> b = 0"
  by (simp add: and_then_def)

lemma and_then_0 [simp]: "and_then 0 b = b"
  by (simp add: and_then_def)

lemma and_then_minus: "and_then (- a) (- b) = - and_then a b"
  by (simp add: and_then_def)

lemma and_then_antisym: "b = - a \<Longrightarrow> b' = - a' \<Longrightarrow> and_then b b' = - and_then a a'"
  by (simp add: and_then_minus)

lemma getKind_cases:
  "getKind e = Constant \<longleftrightarrow> (\<exists>c. e = ConstantExpr c)"
  "getKind e = NotOptimized \<longleftrightarrow> (\<exists>s. e = NotOptimizedExpr s)"
  "getKind e = Read \<longleftrightarrow> (\<exists>a us i. e = ReadExpr a us i)"
  "getKind e = Select \<longleftrightarrow> (\<exists>c t f. e = SelectExpr c t f)"
  "getKind e = Concat \<longleftrightarrow> (\<exists>l r. e = ConcatExpr l r)"
  "getKind e = Extract \<longleftrightarrow> (\<exists>s off w. e = ExtractExpr s off w)"
  "getKind e = ZExt \<longleftrightarrow> (\<exists>s w. e = ZExtExpr s w)"
  "getKind e = SExt \<longleftrightarrow> (\<exists>s w. e = SExtExpr s w)"
  "getKind e = NotK \<longleftrightarrow> (\<exists>s. e = NotExpr s)"
  "getKind e = BinaryK k \<longleftrightarrow> (\<exists>l r. e = BinaryExpr k l r)"
  by (cases e; simp)+

lemma getKind_cases_sym:
  "Constant = getKind e \<longleftrightarrow> (\<exists>c. e = ConstantExpr c)"
  "NotOptimized = getKind e \<longleftrightarrow> (\<exists>s. e = NotOptimizedExpr s)"
  "Read = getKind e \<longleftrightarrow> (\<exists>a us i. e = ReadExpr a us i)"
  "Select = getKind e \<longleftrightarrow> (\<exists>c t f. e = SelectExpr c t f)"
  "Concat = getKind e \<longleftrightarrow> (\<exists>l r. e = ConcatExpr l r)"
  "Extract = getKind e \<longleftrightarrow> (\<exists>s off w. e = ExtractExpr s off w)"
  "ZExt = getKind e \<longleftrightarrow> (\<exists>s w. e = ZExtExpr s w)"
  "SExt = getKind e \<longleftrightarrow> (\<exists>s w. e = SExtExpr s w)"
  "NotK = getKind e \<longleftrightarrow> (\<exists>s. e = NotExpr s)"
  "BinaryK k = getKind e \<longleftrightarrow> (\<exists>l r. e = BinaryExpr k l r)"
  by (simp_all only: getKind_cases eq_commute [of _ "getKind e"])

text \<open>
  The transitivity that three results of one comparison satisfy; it is inherited by the
  lexicographic combination.
\<close>

definition cmp_trans :: "int \<Rightarrow> int \<Rightarrow> int \<Rightarrow> bool" where
  "cmp_trans ab bc ac \<longleftrightarrow> (ab \<le> 0 \<and> bc \<le> 0 \<longrightarrow> ac \<le> 0 \<and> (ac = 0 \<longleftrightarrow> ab = 0 \<and> bc = 0))"

lemma cmp_trans_cmp [simp, intro]: "cmp_trans (cmp a b) (cmp b c) (cmp a c)"
  by (auto simp: cmp_trans_def cmp_def)

lemma cmp_trans_0 [simp, intro]: "cmp_trans 0 0 0"
  by (simp add: cmp_trans_def)

lemma cmp_trans_and_then [intro]:
  "cmp_trans ab bc ac \<Longrightarrow> (ab = 0 \<Longrightarrow> bc = 0 \<Longrightarrow> cmp_trans ab' bc' ac') \<Longrightarrow>
   cmp_trans (and_then ab ab') (and_then bc bc') (and_then ac ac')"
  by (auto simp: cmp_trans_def and_then_def split: if_splits)

lemma Expr__compare_transI:
  assumes "getKind a = getKind b \<Longrightarrow> getKind b = getKind c \<Longrightarrow>
    cmp_trans (compareContents hv a b) (compareContents hv b c) (compareContents hv a c)"
  shows "cmp_trans (Expr__compare hv a b) (Expr__compare hv b c) (Expr__compare hv a c)"
  unfolding Expr__compare.simps using assms by (intro cmp_trans_and_then) auto

lemma compareContents_same:
  "compareContents hv (ConstantExpr c) (ConstantExpr d) =
     and_then (cmp (getBitWidth c) (getBitWidth d)) (cmp (getValue c) (getValue d))"
  "compareContents hv (NotOptimizedExpr e) (NotOptimizedExpr e') = Expr__compare hv e e'"
  "compareContents hv (ReadExpr root us i) (ReadExpr root' us' i') =
     and_then (cmp (arr_name root) (arr_name root'))
       (and_then (cmp (arr_addr root) (arr_addr root'))
         (and_then (cmp (UpdateNode__getSize us) (UpdateNode__getSize us'))
           (and_then (UpdateList__compare hv us us') (Expr__compare hv i i'))))"
  "compareContents hv (SelectExpr x t f) (SelectExpr x' t' f') =
     and_then (Expr__compare hv x x') (and_then (Expr__compare hv t t') (Expr__compare hv f f'))"
  "compareContents hv (ConcatExpr l r) (ConcatExpr l' r') =
     and_then (cmp (getWidth l + getWidth r) (getWidth l' + getWidth r'))
       (and_then (Expr__compare hv l l') (Expr__compare hv r r'))"
  "compareContents hv (ExtractExpr e off w) (ExtractExpr e' off' w') =
     and_then (cmp off off') (and_then (cmp w w') (Expr__compare hv e e'))"
  "compareContents hv (ZExtExpr e w) (ZExtExpr e' w') =
     and_then (cmp w w') (Expr__compare hv e e')"
  "compareContents hv (SExtExpr e w) (SExtExpr e' w') =
     and_then (cmp w w') (Expr__compare hv e e')"
  "compareContents hv (NotExpr e) (NotExpr e') = Expr__compare hv e e'"
  "compareContents hv (BinaryExpr k l r) (BinaryExpr k' l' r') =
     and_then (Expr__compare hv l l') (Expr__compare hv r r')"
  by (subst compareContents.simps, simp)+

lemma UpdateList__compare_nodes [simp]:
  "UpdateList__compare hv NoUpdate bn = 0"
  "UpdateList__compare hv an NoUpdate = 0"
  "UpdateList__compare hv (UpdateNode i v next) (UpdateNode i' v' next') =
     and_then (and_then (Expr__compare hv i i') (Expr__compare hv v v'))
       (UpdateList__compare hv next next')"
  by (subst UpdateList__compare.simps, simp split: updateNode.split)+

lemma Expr__compare_trans_aux:
  "cmp_trans (Expr__compare hv a b) (Expr__compare hv b c) (Expr__compare hv a c)"
  "UpdateNode__getSize us = UpdateNode__getSize us' \<Longrightarrow>
   UpdateNode__getSize us' = UpdateNode__getSize us'' \<Longrightarrow>
   cmp_trans (UpdateList__compare hv us us') (UpdateList__compare hv us' us'')
     (UpdateList__compare hv us us'')"
proof (induction a and us arbitrary: b c and us' us'' rule: expr.induct updateNode.induct)
  case NoUpdate
  then show ?case by (cases us'; cases us'') simp_all
next
  case (UpdateNode i v us)
  then show ?case
    by (cases us'; cases us'') (auto intro!: cmp_trans_and_then)
qed (rule Expr__compare_transI, (auto simp: getKind_cases getKind_cases_sym compareContents_same
      intro!: cmp_trans_and_then)[1])+

lemma Expr__compare_kindI:
  assumes "getKind a = getKind b \<Longrightarrow> compareContents hv b a = - compareContents hv a b"
  shows "Expr__compare hv b a = - Expr__compare hv a b"
proof (cases "getKind a = getKind b")
  case True
  with assms show ?thesis
    by (simp add: Expr__compare.simps cmp_antisym [of "hash hv b"] and_then_minus)
next
  case False
  then show ?thesis
    by (simp add: Expr__compare.simps and_then_def cmp_antisym [of "getKind b"])
qed

lemma Expr__compare_antisym_aux:
  "Expr__compare hv b a = - Expr__compare hv a b"
  "UpdateList__compare hv us' us = - UpdateList__compare hv us us'"
proof (induction a and us arbitrary: b and us' rule: expr.induct updateNode.induct)
  case NoUpdate
  then show ?case by simp
next
  case (UpdateNode i v us)
  then show ?case
    by (cases us') (simp_all add: and_then_minus)
qed (rule Expr__compare_kindI, (auto simp: getKind_cases getKind_cases_sym compareContents_same
      intro!: and_then_antisym intro: cmp_antisym)[1])+

text \<open>\<open>compare\<close> answers 0 exactly on equal trees, as long as an address names one array.\<close>

lemma Expr__compare_refl: "Expr__compare hv a a = 0"
  using Expr__compare_antisym_aux(1) [of hv a a] by simp

lemma Expr__compare_0D:
  "Expr__compare hv a b = 0 \<Longrightarrow> getKind a = getKind b \<and> compareContents hv a b = 0"
  by (simp add: Expr__compare.simps)

lemma Expr__compare_eq_aux:
  assumes inj: "inj_on arr_addr A"
  shows
  "arrays a \<union> arrays b \<subseteq> A \<Longrightarrow> Expr__compare hv a b = 0 \<Longrightarrow> a = b"
  "arrays_upd us \<union> arrays_upd us' \<subseteq> A \<Longrightarrow>
   UpdateNode__getSize us = UpdateNode__getSize us' \<Longrightarrow> UpdateList__compare hv us us' = 0 \<Longrightarrow> us = us'"
proof (induction a and us arbitrary: b and us' rule: expr.induct updateNode.induct)
  case NoUpdate
  then show ?case by (cases us') simp_all
next
  case (UpdateNode i v us)
  then show ?case by (cases us') auto
qed (drule Expr__compare_0D, (auto simp: getKind_cases_sym compareContents_same
      intro: apint.expand inj_onD [OF inj])[1])+

end
