(* ===== verification/Expr_Sem.thy ===== *)
theory Expr_Sem
  imports Expr_Data
begin

text \<open>
  What an expression means, stated independently of the code that builds it: well-formed
  expressions, their unsigned value under an assignment of the initial contents of
  arrays, and the judgement \<open>denotes\<close> in which the constructors are specified.
  Arithmetic is written with \<open>mod 2 ^ w\<close>, \<open>div\<close> and \<open>signed_val\<close>, not with
  the bit operations of the constant folding.
\<close>

section \<open>Bit-vector arithmetic\<close>

text \<open>
  Division by zero is undefined in the program: the executor checks for it before it
  builds a division. The value chosen here on a zero divisor is the one that the
  simplifications of the constructors agree with (on one bit a quotient is the dividend
  and a remainder is 0), so that soundness needs no side condition on divisors.
\<close>

definition div_zero :: "nat \<Rightarrow> int \<Rightarrow> int" where
  "div_zero w x = (if w = 1 then x else 0)"

fun bv_op :: "bkind \<Rightarrow> nat \<Rightarrow> int \<Rightarrow> int \<Rightarrow> int" where
  "bv_op Add w x y = (x + y) mod 2 ^ w"
| "bv_op Sub w x y = (x - y) mod 2 ^ w"
| "bv_op Mul w x y = (x * y) mod 2 ^ w"
| "bv_op UDiv w x y = (if y = 0 then div_zero w x else x div y)"
| "bv_op SDiv w x y =
     (if y = 0 then div_zero w x else (signed_val w x sdiv signed_val w y) mod 2 ^ w)"
| "bv_op URem w x y = (if y = 0 then 0 else x mod y)"
| "bv_op SRem w x y = (if y = 0 then 0 else (signed_val w x smod signed_val w y) mod 2 ^ w)"
| "bv_op And w x y = x AND y"
| "bv_op Or w x y = x OR y"
| "bv_op Xor w x y = x XOR y"
| "bv_op Shl w x y = (if y < int w then (x * 2 ^ nat y) mod 2 ^ w else 0)"
| "bv_op LShr w x y = (if y < int w then x div 2 ^ nat y else 0)"
| "bv_op AShr w x y =
     (if y < int w then (signed_val w x div 2 ^ nat y) mod 2 ^ w
      else if signed_val w x < 0 then 2 ^ w - 1 else 0)"
| "bv_op Eq w x y = of_bool (x = y)"
| "bv_op Ne w x y = of_bool (x \<noteq> y)"
| "bv_op Ult w x y = of_bool (x < y)"
| "bv_op Ule w x y = of_bool (x \<le> y)"
| "bv_op Ugt w x y = of_bool (y < x)"
| "bv_op Uge w x y = of_bool (y \<le> x)"
| "bv_op Slt w x y = of_bool (signed_val w x < signed_val w y)"
| "bv_op Sle w x y = of_bool (signed_val w x \<le> signed_val w y)"
| "bv_op Sgt w x y = of_bool (signed_val w y < signed_val w x)"
| "bv_op Sge w x y = of_bool (signed_val w y \<le> signed_val w x)"

definition result_width :: "bkind \<Rightarrow> nat \<Rightarrow> nat" where
  "result_width k w = (if is_cmp k then 1 else w)"

definition is_div :: "bkind \<Rightarrow> bool" where
  "is_div k \<longleftrightarrow> k \<in> {UDiv, SDiv, URem, SRem}"

lemma result_width_simps [simp]:
  "is_cmp k \<Longrightarrow> result_width k w = 1" "\<not> is_cmp k \<Longrightarrow> result_width k w = w"
  by (simp_all add: result_width_def)

lemma in_width_div_zero: "in_width w x \<Longrightarrow> in_width w (div_zero w x)"
  by (auto simp: div_zero_def)

lemma bv_op_in_width:
  assumes "0 < w" "in_width w x" "in_width w y"
  shows "in_width (result_width k w) (bv_op k w x y)"
proof (cases k)
  case LShr
  with assms show ?thesis by (simp add: in_width_div)
qed (use assms in \<open>simp_all add: in_width_div_zero in_width_div in_width_umod in_width_and in_width_or in_width_xor
     in_width_def [of w "2 ^ w - 1"] in_width_def [of w y]\<close>)

section \<open>Well-formed expressions\<close>

definition wf_array :: "array \<Rightarrow> bool" where
  "wf_array a \<longleftrightarrow>
     0 < arr_range a \<and> 0 < arr_domain a \<and> arr_domain a \<le> 64 \<and> arr_size a \<le> 2 ^ arr_domain a
     \<and> (constantValues a = [] \<or> length (constantValues a) = arr_size a)
     \<and> (\<forall>c \<in> set (constantValues a). wf_apint c \<and> getBitWidth c = arr_range a)"

fun wf :: "expr \<Rightarrow> bool" and wf_upd :: "array \<Rightarrow> updateNode \<Rightarrow> bool" where
  "wf (ConstantExpr c) \<longleftrightarrow> wf_apint c"
| "wf (NotOptimizedExpr e) \<longleftrightarrow> wf e"
| "wf (ReadExpr root us i) \<longleftrightarrow>
     wf_array root \<and> wf_upd root us \<and> wf i \<and> getWidth i = arr_domain root"
| "wf (SelectExpr c t f) \<longleftrightarrow> wf c \<and> wf t \<and> wf f \<and> getWidth c = 1 \<and> getWidth t = getWidth f"
| "wf (ConcatExpr l r) \<longleftrightarrow> wf l \<and> wf r"
| "wf (ExtractExpr e off w) \<longleftrightarrow> wf e \<and> 0 < w \<and> off + w \<le> getWidth e"
| "wf (ZExtExpr e w) \<longleftrightarrow> wf e \<and> getWidth e \<le> w"
| "wf (SExtExpr e w) \<longleftrightarrow> wf e \<and> getWidth e \<le> w"
| "wf (NotExpr e) \<longleftrightarrow> wf e"
| "wf (BinaryExpr k l r) \<longleftrightarrow> wf l \<and> wf r \<and> getWidth l = getWidth r"
| "wf_upd root NoUpdate \<longleftrightarrow> True"
| "wf_upd root (UpdateNode i v next) \<longleftrightarrow>
     wf i \<and> wf v \<and> getWidth i = arr_domain root \<and> getWidth v = arr_range root \<and> wf_upd root next"

section \<open>Values\<close>

type_synonym env = "array \<Rightarrow> int \<Rightarrow> int"

text \<open>
  The initial contents of an array: the constants, or what the environment says (also
  past the end of a constant array).
\<close>

definition init_val :: "env \<Rightarrow> array \<Rightarrow> int \<Rightarrow> int" where
  "init_val \<sigma> a j =
     (if isConstantArray a \<and> 0 \<le> j \<and> j < int (arr_size a) then getValue (constantValues a ! nat j)
      else \<sigma> a j mod 2 ^ arr_range a)"

fun den :: "env \<Rightarrow> expr \<Rightarrow> int"
and den_upd :: "env \<Rightarrow> array \<Rightarrow> updateNode \<Rightarrow> int \<Rightarrow> int" where
  "den \<sigma> (ConstantExpr c) = getValue c"
| "den \<sigma> (NotOptimizedExpr e) = den \<sigma> e"
| "den \<sigma> (ReadExpr root us i) = den_upd \<sigma> root us (den \<sigma> i)"
| "den \<sigma> (SelectExpr c t f) = (if den \<sigma> c \<noteq> 0 then den \<sigma> t else den \<sigma> f)"
| "den \<sigma> (ConcatExpr l r) = den \<sigma> l * 2 ^ getWidth r + den \<sigma> r"
| "den \<sigma> (ExtractExpr e off w) = bit_slice off w (den \<sigma> e)"
| "den \<sigma> (ZExtExpr e w) = den \<sigma> e"
| "den \<sigma> (SExtExpr e w) = signed_val (getWidth e) (den \<sigma> e) mod 2 ^ w"
| "den \<sigma> (NotExpr e) = 2 ^ getWidth e - 1 - den \<sigma> e"
| "den \<sigma> (BinaryExpr k l r) = bv_op k (getWidth l) (den \<sigma> l) (den \<sigma> r)"
| "den_upd \<sigma> root NoUpdate j = init_val \<sigma> root j"
| "den_upd \<sigma> root (UpdateNode i v next) j =
     (if den \<sigma> i = j then den \<sigma> v else den_upd \<sigma> root next j)"

text \<open>Reads of constant arrays stay inside the array.\<close>

fun inb :: "env \<Rightarrow> expr \<Rightarrow> bool" and inb_upd :: "env \<Rightarrow> updateNode \<Rightarrow> bool" where
  "inb \<sigma> (ConstantExpr c) \<longleftrightarrow> True"
| "inb \<sigma> (NotOptimizedExpr e) \<longleftrightarrow> inb \<sigma> e"
| "inb \<sigma> (ReadExpr root us i) \<longleftrightarrow>
     inb \<sigma> i \<and> inb_upd \<sigma> us \<and> (isConstantArray root \<longrightarrow> den \<sigma> i < int (arr_size root))"
| "inb \<sigma> (SelectExpr c t f) \<longleftrightarrow> inb \<sigma> c \<and> inb \<sigma> t \<and> inb \<sigma> f"
| "inb \<sigma> (ConcatExpr l r) \<longleftrightarrow> inb \<sigma> l \<and> inb \<sigma> r"
| "inb \<sigma> (ExtractExpr e off w) \<longleftrightarrow> inb \<sigma> e"
| "inb \<sigma> (ZExtExpr e w) \<longleftrightarrow> inb \<sigma> e"
| "inb \<sigma> (SExtExpr e w) \<longleftrightarrow> inb \<sigma> e"
| "inb \<sigma> (NotExpr e) \<longleftrightarrow> inb \<sigma> e"
| "inb \<sigma> (BinaryExpr k l r) \<longleftrightarrow> inb \<sigma> l \<and> inb \<sigma> r"
| "inb_upd \<sigma> NoUpdate \<longleftrightarrow> True"
| "inb_upd \<sigma> (UpdateNode i v next) \<longleftrightarrow> inb \<sigma> i \<and> inb \<sigma> v \<and> inb_upd \<sigma> next"

lemma wf_array_nth:
  assumes "wf_array a" "isConstantArray a" "n < arr_size a"
  shows "wf_apint (constantValues a ! n)" "getBitWidth (constantValues a ! n) = arr_range a"
  using assms by (auto simp: wf_array_def isConstantArray_def isSymbolicArray_def)

lemma in_width_init_val: "wf_array a \<Longrightarrow> in_width (arr_range a) (init_val \<sigma> a j)"
  using wf_array_nth [of a "nat j"] by (auto simp: init_val_def wf_apint_def)

lemma wf_width_den:
  "wf e \<Longrightarrow> 0 < getWidth e \<and> in_width (getWidth e) (den \<sigma> e)"
  "wf_array root \<Longrightarrow> wf_upd root us \<Longrightarrow> in_width (arr_range root) (den_upd \<sigma> root us j)"
proof (induction e and us arbitrary: and root j rule: expr.induct updateNode.induct)
  case (ReadExpr x y z)
  then show ?case by (simp add: wf_array_def)
next
  case (NotExpr e)
  then show ?case by (auto simp: in_width_def)
next
  case (ConcatExpr l r)
  then show ?case using in_width_concat by simp
next
  case (ZExtExpr e w)
  then show ?case using in_width_mono [of "getWidth e" "den \<sigma> e" w] by auto
next
  case (BinaryExpr k l r)
  then show ?case using bv_op_in_width [of "getWidth l" "den \<sigma> l" "den \<sigma> r" k]
    by (auto simp: result_width_def split: if_splits)
qed (auto simp: wf_apint_def in_width_init_val)

lemma wf_getWidth_pos: "wf e \<Longrightarrow> 0 < getWidth e"
  using wf_width_den(1) by blast

lemma in_width_den: "wf e \<Longrightarrow> in_width (getWidth e) (den \<sigma> e)"
  using wf_width_den(1) by blast


section \<open>Constant folding computes bit-vector arithmetic\<close>

text \<open>The constant operation a binary constructor folds with.\<close>

fun ConstantExpr__op :: "bkind \<Rightarrow> apint \<Rightarrow> apint \<Rightarrow> apint option" where
  "ConstantExpr__op Add l r = Some (ConstantExpr__Add l r)"
| "ConstantExpr__op Sub l r = Some (ConstantExpr__Sub l r)"
| "ConstantExpr__op Mul l r = Some (ConstantExpr__Mul l r)"
| "ConstantExpr__op UDiv l r = ConstantExpr__UDiv l r"
| "ConstantExpr__op SDiv l r = ConstantExpr__SDiv l r"
| "ConstantExpr__op URem l r = ConstantExpr__URem l r"
| "ConstantExpr__op SRem l r = ConstantExpr__SRem l r"
| "ConstantExpr__op And l r = Some (ConstantExpr__And l r)"
| "ConstantExpr__op Or l r = Some (ConstantExpr__Or l r)"
| "ConstantExpr__op Xor l r = Some (ConstantExpr__Xor l r)"
| "ConstantExpr__op Shl l r = Some (ConstantExpr__Shl l r)"
| "ConstantExpr__op LShr l r = Some (ConstantExpr__LShr l r)"
| "ConstantExpr__op AShr l r = Some (ConstantExpr__AShr l r)"
| "ConstantExpr__op Eq l r = Some (ConstantExpr__Eq l r)"
| "ConstantExpr__op Ne l r = Some (ConstantExpr__Ne l r)"
| "ConstantExpr__op Ult l r = Some (ConstantExpr__Ult l r)"
| "ConstantExpr__op Ule l r = Some (ConstantExpr__Ule l r)"
| "ConstantExpr__op Ugt l r = Some (ConstantExpr__Ugt l r)"
| "ConstantExpr__op Uge l r = Some (ConstantExpr__Uge l r)"
| "ConstantExpr__op Slt l r = Some (ConstantExpr__Slt l r)"
| "ConstantExpr__op Sle l r = Some (ConstantExpr__Sle l r)"
| "ConstantExpr__op Sgt l r = Some (ConstantExpr__Sgt l r)"
| "ConstantExpr__op Sge l r = Some (ConstantExpr__Sge l r)"

lemmas ConstantExpr__op_defs =
  ConstantExpr__Add_def ConstantExpr__Sub_def ConstantExpr__Mul_def ConstantExpr__UDiv_def
  ConstantExpr__SDiv_def ConstantExpr__URem_def ConstantExpr__SRem_def ConstantExpr__And_def
  ConstantExpr__Or_def ConstantExpr__Xor_def ConstantExpr__Shl_def ConstantExpr__LShr_def
  ConstantExpr__AShr_def ConstantExpr__Eq_def ConstantExpr__Ne_def ConstantExpr__Ult_def
  ConstantExpr__Ule_def ConstantExpr__Ugt_def ConstantExpr__Uge_def ConstantExpr__Slt_def
  ConstantExpr__Sle_def ConstantExpr__Sgt_def ConstantExpr__Sge_def

lemma Shl_value:
  assumes "in_width w x" "in_width w y"
  shows "take_bit w (push_bit (nat (min y (int w))) x) = bv_op Shl w x y"
proof (cases "y < int w")
  case True
  then show ?thesis by (simp add: min_def take_bit_eq_mod push_bit_eq_mult)
next
  case False
  then have "nat (min y (int w)) = w" by simp
  with False show ?thesis by (simp add: take_bit_eq_mod push_bit_eq_mult)
qed

lemma LShr_value:
  assumes "in_width w x" "in_width w y"
  shows "drop_bit (nat (min y (int w))) x = bv_op LShr w x y"
proof (cases "y < int w")
  case True
  then show ?thesis by (simp add: min_def drop_bit_eq_div)
next
  case False
  then have "nat (min y (int w)) = w" by simp
  with False assms show ?thesis by (simp add: drop_bit_eq_div in_width_def)
qed

lemma AShr_value:
  assumes "0 < w" "in_width w x" "in_width w y"
  shows "take_bit w (drop_bit (nat (min y (int w))) (signed_val w x)) = bv_op AShr w x y"
proof (cases "y < int w")
  case True
  then show ?thesis by (simp add: min_def take_bit_eq_mod drop_bit_eq_div)
next
  case False
  then have n: "nat (min y (int w)) = w" by simp
  have b: "- (2 ^ w) \<le> signed_val w x" "signed_val w x < 2 ^ w"
    using assms(2) by (auto simp: signed_val_def in_width_def)
  have "signed_val w x div 2 ^ w = (if signed_val w x < 0 then - 1 else 0)"
  proof (cases "signed_val w x < 0")
    case True
    with b have "signed_val w x div 2 ^ w = - 1"
      by (intro int_div_pos_eq [where r = "signed_val w x + 2 ^ w"]) auto
    with True show ?thesis by simp
  next
    case False
    with b show ?thesis by simp
  qed
  with False n show ?thesis
    by (auto simp: take_bit_eq_mod drop_bit_eq_div zmod_minus1)
qed

lemma ConstantExpr__op_sound:
  assumes "wf_apint l" "wf_apint r" "getBitWidth l = w" "getBitWidth r = w"
    and "is_div k \<Longrightarrow> getValue r \<noteq> 0"
  shows "ConstantExpr__op k l r =
    Some (APInt (result_width k w) (bv_op k w (getValue l) (getValue r)))"
  using assms
  by (cases k)
    (simp_all add: ConstantExpr__op_defs shift_amount_def ConstantExpr__alloc_of_bool
      getSigned_eq take_bit_eq_mod [symmetric] is_div_def wf_apint_def
      Shl_value LShr_value AShr_value del: bv_op.simps(11-13))

section \<open>The judgement on constructors\<close>

text \<open>
  \<open>good cao A w e\<close>: a well-formed expression of width \<open>w\<close>, which stays in bounds on
  the environments of \<open>A\<close> when constant arrays are rewritten (\<open>cao\<close>).
  \<open>denotes cao A w f e\<close>: it moreover has the value \<open>f \<sigma>\<close> on them.
  \<open>yields cao A w f m\<close>: the computation \<open>m\<close> passes its assertions and returns such
  an expression.
\<close>

definition good :: "bool \<Rightarrow> (env \<Rightarrow> bool) \<Rightarrow> nat \<Rightarrow> expr \<Rightarrow> bool" where
  "good cao A w e \<longleftrightarrow> wf e \<and> getWidth e = w \<and> (cao \<longrightarrow> (\<forall>\<sigma>. A \<sigma> \<longrightarrow> inb \<sigma> e))"

definition denotes :: "bool \<Rightarrow> (env \<Rightarrow> bool) \<Rightarrow> nat \<Rightarrow> (env \<Rightarrow> int) \<Rightarrow> expr \<Rightarrow> bool" where
  "denotes cao A w f e \<longleftrightarrow> good cao A w e \<and> (\<forall>\<sigma>. A \<sigma> \<longrightarrow> den \<sigma> e = f \<sigma>)"

definition yields :: "bool \<Rightarrow> (env \<Rightarrow> bool) \<Rightarrow> nat \<Rightarrow> (env \<Rightarrow> int) \<Rightarrow> expr option \<Rightarrow> bool" where
  "yields cao A w f m \<longleftrightarrow> (\<exists>e. m = Some e \<and> denotes cao A w f e)"

lemma yields_Some [simp]: "yields cao A w f (Some e) \<longleftrightarrow> denotes cao A w f e"
  by (simp add: yields_def)

lemma yields_None [simp]: "\<not> yields cao A w f None"
  by (simp add: yields_def)

lemma yields_bind:
  assumes "yields cao A w f m" "\<And>e. denotes cao A w f e \<Longrightarrow> yields cao A w' g (k e)"
  shows "yields cao A w' g (m \<bind> k)"
  using assms by (auto simp: yields_def)

lemma yields_cong:
  assumes "yields cao A w f m" "\<And>\<sigma>. A \<sigma> \<Longrightarrow> f \<sigma> = g \<sigma>"
  shows "yields cao A w g m"
  using assms by (auto simp: yields_def denotes_def)

lemma denotes_cong:
  assumes "denotes cao A w f e" "\<And>\<sigma>. A \<sigma> \<Longrightarrow> f \<sigma> = g \<sigma>"
  shows "denotes cao A w g e"
  using assms by (auto simp: denotes_def)

lemma denotes_good: "denotes cao A w f e \<Longrightarrow> good cao A w e"
  by (simp add: denotes_def)

lemma denotes_den: "denotes cao A w f e \<Longrightarrow> A \<sigma> \<Longrightarrow> den \<sigma> e = f \<sigma>"
  by (simp add: denotes_def)

lemma denotes_self: "good cao A w e \<Longrightarrow> denotes cao A w (\<lambda>\<sigma>. den \<sigma> e) e"
  by (simp add: denotes_def)

lemma good_pos: "good cao A w e \<Longrightarrow> 0 < w"
  using wf_getWidth_pos by (auto simp: good_def)

lemma good_in_width: "good cao A w e \<Longrightarrow> in_width w (den \<sigma> e)"
  using in_width_den by (auto simp: good_def)

lemma good_width: "good cao A w e \<Longrightarrow> getWidth e = w"
  by (simp add: good_def)

lemma good_Const [simp]: "good cao A w (ConstantExpr c) \<longleftrightarrow> wf_apint c \<and> getBitWidth c = w"
  by (auto simp: good_def)

lemma denotes_Const:
  "denotes cao A w f (ConstantExpr c)"
  if "wf_apint c" "getBitWidth c = w" "\<And>\<sigma>. A \<sigma> \<Longrightarrow> getValue c = f \<sigma>"
  using that by (simp add: denotes_def)

lemma good_Binary [simp]:
  "good cao A w (BinaryExpr k l r) \<longleftrightarrow>
     (\<exists>v. good cao A v l \<and> good cao A v r \<and> w = result_width k v)"
  by (auto simp: good_def result_width_def)

lemma good_not_cmp:
  "\<not> is_cmp k \<Longrightarrow> good cao A w (BinaryExpr k l r) \<longleftrightarrow> good cao A w l \<and> good cao A w r"
  by auto

lemma denotes_Binary:
  "good cao A v l \<Longrightarrow> good cao A v r \<Longrightarrow> w = result_width k v \<Longrightarrow>
   denotes cao A w (\<lambda>\<sigma>. bv_op k v (den \<sigma> l) (den \<sigma> r)) (BinaryExpr k l r)"
  by (auto simp: denotes_def good_width)

lemma wf_apint_in_width: "wf_apint c \<Longrightarrow> in_width (getBitWidth c) (getValue c)"
  by (simp add: wf_apint_def)

lemma wf_apint_pos: "wf_apint c \<Longrightarrow> 0 < getBitWidth c"
  by (simp add: wf_apint_def)

end
