(* ===== verification/Expr_Create.thy ===== *)
theory Expr_Create
  imports Expr_Sem
begin

text \<open>
  The constructors of expressions in \<open>lib/Expr/Expr.cpp\<close>: \<open>X::create\<close> folds
  constants and rewrites to the canonical form, \<open>X::alloc\<close> is the bare constructor of
  the datatype. A name \<open>X__f\<close> stands for the method \<open>X::f\<close>; the file-local helpers
  keep their names (\<open>AddExpr_createPartialR\<close>). A failed assertion is \<open>None\<close>. The
  command line flag \<open>ConstArrayOpt\<close> is the parameter \<open>cao\<close>. Two expressions are
  equal (\<open>==\<close>) when they are structurally equal, which is what \<open>compare\<close> decides.
\<close>

section \<open>The macros of the binary constructors\<close>

text \<open>
  \<open>BCREATE_R\<close> (and \<open>CMPCREATE_T\<close>, which differs in naming the partial functions)
  dispatch on constant operands; \<open>BCREATE\<close> and \<open>CMPCREATE\<close> only fold.
\<close>

definition BCREATE_R ::
  "bkind \<Rightarrow> (apint \<Rightarrow> expr \<Rightarrow> expr option) \<Rightarrow> (expr \<Rightarrow> apint \<Rightarrow> expr option)
   \<Rightarrow> (expr \<Rightarrow> expr \<Rightarrow> expr option) \<Rightarrow> expr \<Rightarrow> expr \<Rightarrow> expr option" where
  "BCREATE_R k partialR partialL create l r = do {
     assert_that (getWidth l = getWidth r);
     (case l of
        ConstantExpr cl \<Rightarrow>
          (case r of
             ConstantExpr cr \<Rightarrow> map_option ConstantExpr (ConstantExpr__op k cl cr)
           | _ \<Rightarrow> partialR cl r)
      | _ \<Rightarrow>
          (case r of
             ConstantExpr cr \<Rightarrow> partialL l cr
           | _ \<Rightarrow> create l r))
   }"

definition BCREATE ::
  "bkind \<Rightarrow> (expr \<Rightarrow> expr \<Rightarrow> expr option) \<Rightarrow> expr \<Rightarrow> expr \<Rightarrow> expr option" where
  "BCREATE k create l r = do {
     assert_that (getWidth l = getWidth r);
     (case (l, r) of
        (ConstantExpr cl, ConstantExpr cr) \<Rightarrow> map_option ConstantExpr (ConstantExpr__op k cl cr)
      | _ \<Rightarrow> create l r)
   }"

lemma BCREATE_R_cong [fundef_cong]:
  assumes "k = k'" "l = l'" "r = r'"
    and "\<And>cl x. l' = ConstantExpr cl \<Longrightarrow> x = r' \<Longrightarrow> \<not> is_const x \<Longrightarrow> partialR cl x = partialR' cl x"
    and "\<And>x cr. x = l' \<Longrightarrow> \<not> is_const x \<Longrightarrow> r' = ConstantExpr cr \<Longrightarrow> partialL x cr = partialL' x cr"
    and "\<And>x y. x = l' \<Longrightarrow> y = r' \<Longrightarrow> \<not> is_const x \<Longrightarrow> \<not> is_const y \<Longrightarrow> create x y = create' x y"
  shows "BCREATE_R k partialR partialL create l r = BCREATE_R k' partialR' partialL' create' l' r'"
  using assms by (cases l'; cases r') (simp_all add: BCREATE_R_def)

section \<open>And, Or\<close>

definition AndExpr_createPartial :: "expr \<Rightarrow> apint \<Rightarrow> expr" where
  "AndExpr_createPartial l cr =
     (if ConstantExpr__isAllOnes cr then l
      else if ConstantExpr__isZero cr then ConstantExpr cr
      else BinaryExpr And l (ConstantExpr cr))"

definition AndExpr_createPartialR :: "apint \<Rightarrow> expr \<Rightarrow> expr" where
  "AndExpr_createPartialR cl r = AndExpr_createPartial r cl"

definition AndExpr_create :: "expr \<Rightarrow> expr \<Rightarrow> expr" where
  "AndExpr_create l r = BinaryExpr And l r"

definition AndExpr__create :: "expr \<Rightarrow> expr \<Rightarrow> expr option" where
  "AndExpr__create l r = BCREATE_R And
     (\<lambda>cl r. Some (AndExpr_createPartialR cl r)) (\<lambda>l cr. Some (AndExpr_createPartial l cr))
     (\<lambda>l r. Some (AndExpr_create l r)) l r"

definition OrExpr_createPartial :: "expr \<Rightarrow> apint \<Rightarrow> expr" where
  "OrExpr_createPartial l cr =
     (if ConstantExpr__isAllOnes cr then ConstantExpr cr
      else if ConstantExpr__isZero cr then l
      else BinaryExpr Or l (ConstantExpr cr))"

definition OrExpr_createPartialR :: "apint \<Rightarrow> expr \<Rightarrow> expr" where
  "OrExpr_createPartialR cl r = OrExpr_createPartial r cl"

definition OrExpr_create :: "expr \<Rightarrow> expr \<Rightarrow> expr" where
  "OrExpr_create l r = BinaryExpr Or l r"

definition OrExpr__create :: "expr \<Rightarrow> expr \<Rightarrow> expr option" where
  "OrExpr__create l r = BCREATE_R Or
     (\<lambda>cl r. Some (OrExpr_createPartialR cl r)) (\<lambda>l cr. Some (OrExpr_createPartial l cr))
     (\<lambda>l r. Some (OrExpr_create l r)) l r"

section \<open>Eq\<close>

definition EqExpr_create :: "expr \<Rightarrow> expr \<Rightarrow> expr" where
  "EqExpr_create l r =
     (if l = r then ConstantExpr (ConstantExpr__alloc 1 1) else BinaryExpr Eq l r)"

text \<open>
  \<open>TryConstArrayOpt\<close> turns \<open>cl == read\<close> of a constant array into a disjunction of
  equalities on the index; \<open>mayBe i\<close> is \<open>EqExpr::create(index, i)\<close>. The constant
  values are visited in the order of the index \<open>i\<close>.
\<close>

fun TryConstArrayOpt_loop ::
  "(nat \<Rightarrow> expr option) \<Rightarrow> apint \<Rightarrow> expr \<Rightarrow> apint list \<Rightarrow> nat \<Rightarrow> nat \<Rightarrow> expr \<Rightarrow> expr option" where
  "TryConstArrayOpt_loop mayBe cl rd [] i numMatches res = Some res"
| "TryConstArrayOpt_loop mayBe cl rd (v # vs) i numMatches res =
     (if cl = v then
        if numMatches + 1 > 100 then Some (EqExpr_create (ConstantExpr cl) rd)
        else do {
          m \<leftarrow> mayBe i;
          res' \<leftarrow> OrExpr__create res m;
          TryConstArrayOpt_loop mayBe cl rd vs (i + 1) (numMatches + 1) res'
        }
      else TryConstArrayOpt_loop mayBe cl rd vs (i + 1) numMatches res)"

definition TryConstArrayOpt ::
  "(nat \<Rightarrow> expr option) \<Rightarrow> apint \<Rightarrow> array \<Rightarrow> updateNode \<Rightarrow> expr \<Rightarrow> expr option" where
  "TryConstArrayOpt mayBe cl root us index =
     (let rd = ReadExpr root us index in
      if isSymbolicArray root \<or> UpdateNode__getSize us \<noteq> 0
      then Some (EqExpr_create (ConstantExpr cl) rd)
      else TryConstArrayOpt_loop mayBe cl rd (constantValues root) 0 0
             (ConstantExpr (ConstantExpr__alloc 0 1)))"

text \<open>
  In the cases \<open>c0 = c1 + b\<close> and \<open>c0 = c1 - b\<close> the subtraction is
  \<open>SubExpr::create\<close> of two constants, which asserts equal widths and folds.
\<close>

function EqExpr__create :: "bool \<Rightarrow> expr \<Rightarrow> expr \<Rightarrow> expr option"
and EqExpr_createPartial :: "bool \<Rightarrow> expr \<Rightarrow> apint \<Rightarrow> expr option"
and EqExpr_createPartialR :: "bool \<Rightarrow> apint \<Rightarrow> expr \<Rightarrow> expr option"
and createIsZero :: "bool \<Rightarrow> expr \<Rightarrow> expr option" where
  "EqExpr__create cao l r = BCREATE_R Eq
     (\<lambda>cl r. EqExpr_createPartialR cao cl r) (\<lambda>l cr. EqExpr_createPartial cao l cr)
     (\<lambda>l r. Some (EqExpr_create l r)) l r"
| "EqExpr_createPartial cao l cr = EqExpr_createPartialR cao cr l"
| "EqExpr_createPartialR cao cl r =
     (let width = getBitWidth cl in
      if width = 1 then
        if ConstantExpr__isTrue cl then Some r
        else (case r of
            BinaryExpr k a b \<Rightarrow>
              if k = Eq then
                (case a of
                   ConstantExpr CE \<Rightarrow>
                     if getBitWidth CE = 1 \<and> ConstantExpr__isFalse CE then Some b
                     else Some (EqExpr_create (ConstantExpr cl) r)
                 | _ \<Rightarrow> Some (EqExpr_create (ConstantExpr cl) r))
              else if k = Or then do {
                x \<leftarrow> createIsZero cao a;
                y \<leftarrow> createIsZero cao b;
                AndExpr__create x y
              }
              else Some (EqExpr_create (ConstantExpr cl) r)
          | _ \<Rightarrow> Some (EqExpr_create (ConstantExpr cl) r))
      else (case r of
          SExtExpr src w \<Rightarrow>
            (let fromBits = getWidth src; trunc = ConstantExpr__ZExt cl fromBits in
             if ConstantExpr__SExt trunc width = cl
             then EqExpr__create cao src (ConstantExpr trunc)
             else map_option ConstantExpr (ConstantExpr__create 0 1))
        | ZExtExpr src w \<Rightarrow>
            (let fromBits = getWidth src; trunc = ConstantExpr__ZExt cl fromBits in
             if ConstantExpr__ZExt trunc width = cl
             then EqExpr__create cao src (ConstantExpr trunc)
             else map_option ConstantExpr (ConstantExpr__create 0 1))
        | BinaryExpr k a b \<Rightarrow>
            if k = Add then
              (case a of
                 ConstantExpr c1 \<Rightarrow> do {
                   assert_that (getBitWidth cl = getBitWidth c1);
                   EqExpr_createPartialR cao (ConstantExpr__Sub cl c1) b
                 }
               | _ \<Rightarrow> Some (EqExpr_create (ConstantExpr cl) r))
            else if k = Sub then
              (case a of
                 ConstantExpr c1 \<Rightarrow> do {
                   assert_that (getBitWidth c1 = getBitWidth cl);
                   EqExpr_createPartialR cao (ConstantExpr__Sub c1 cl) b
                 }
               | _ \<Rightarrow> Some (EqExpr_create (ConstantExpr cl) r))
            else Some (EqExpr_create (ConstantExpr cl) r)
        | ReadExpr root us index \<Rightarrow>
            if cao then
              TryConstArrayOpt
                (\<lambda>i. EqExpr__create cao index
                        (ConstantExpr (ConstantExpr__alloc (of_nat i) (getWidth index))))
                cl root us index
            else Some (EqExpr_create (ConstantExpr cl) r)
        | _ \<Rightarrow> Some (EqExpr_create (ConstantExpr cl) r)))"
| "createIsZero cao e = do {
     z \<leftarrow> ConstantExpr__create 0 (getWidth e);
     EqExpr__create cao e (ConstantExpr z)
   }"
  by pat_completeness auto
termination
  by (relation "measures [\<lambda>x. case x of
        Inl (Inl (cao, l, r)) \<Rightarrow> size l + size r
      | Inl (Inr (cao, l, cr)) \<Rightarrow> size l
      | Inr (Inl (cao, cl, r)) \<Rightarrow> size r
      | Inr (Inr (cao, e)) \<Rightarrow> size e,
      \<lambda>x. case x of Inl (Inl _) \<Rightarrow> 3 | Inl (Inr _) \<Rightarrow> 2 | Inr (Inl _) \<Rightarrow> 1 | Inr (Inr _) \<Rightarrow> 4]")
    (auto simp: is_const_iff)

declare EqExpr__create.simps [simp del] EqExpr_createPartial.simps [simp del]
  EqExpr_createPartialR.simps [simp del] createIsZero.simps [simp del]


definition createImplies :: "bool \<Rightarrow> expr \<Rightarrow> expr \<Rightarrow> expr option" where
  "createImplies cao hyp conc = do {
     z \<leftarrow> createIsZero cao hyp;
     OrExpr__create z conc
   }"

section \<open>Xor, Mul\<close>

definition XorExpr_createPartialR :: "bool \<Rightarrow> apint \<Rightarrow> expr \<Rightarrow> expr option" where
  "XorExpr_createPartialR cao cl r =
     (if ConstantExpr__isZero cl then Some r
      else if getBitWidth cl = 1 then do {
        z \<leftarrow> ConstantExpr__create 0 1;
        EqExpr_createPartial cao r z
      }
      else Some (BinaryExpr Xor (ConstantExpr cl) r))"

definition XorExpr_createPartial :: "bool \<Rightarrow> expr \<Rightarrow> apint \<Rightarrow> expr option" where
  "XorExpr_createPartial cao l cr = XorExpr_createPartialR cao cr l"

definition XorExpr_create :: "expr \<Rightarrow> expr \<Rightarrow> expr" where
  "XorExpr_create l r = BinaryExpr Xor l r"

definition XorExpr__create :: "bool \<Rightarrow> expr \<Rightarrow> expr \<Rightarrow> expr option" where
  "XorExpr__create cao l r = BCREATE_R Xor
     (XorExpr_createPartialR cao) (XorExpr_createPartial cao) (\<lambda>l r. Some (XorExpr_create l r)) l r"

definition MulExpr_createPartialR :: "apint \<Rightarrow> expr \<Rightarrow> expr" where
  "MulExpr_createPartialR cl r =
     (if getBitWidth cl = 1 then AndExpr_createPartialR cl r
      else if ConstantExpr__isOne cl then r
      else if ConstantExpr__isZero cl then ConstantExpr cl
      else BinaryExpr Mul (ConstantExpr cl) r)"

definition MulExpr_createPartial :: "expr \<Rightarrow> apint \<Rightarrow> expr" where
  "MulExpr_createPartial l cr = MulExpr_createPartialR cr l"

definition MulExpr_create :: "expr \<Rightarrow> expr \<Rightarrow> expr" where
  "MulExpr_create l r =
     (if getWidth l = 1 then BinaryExpr And l r else BinaryExpr Mul l r)"

definition MulExpr__create :: "expr \<Rightarrow> expr \<Rightarrow> expr option" where
  "MulExpr__create l r = BCREATE_R Mul
     (\<lambda>cl r. Some (MulExpr_createPartialR cl r)) (\<lambda>l cr. Some (MulExpr_createPartial l cr))
     (\<lambda>l r. Some (MulExpr_create l r)) l r"

section \<open>Add, Sub\<close>

text \<open>
  Sums and differences are reassociated so that a constant comes to the left. Where the
  source calls \<open>AddExpr::create\<close> or \<open>SubExpr::create\<close> on two expressions it knows
  to be constants (\<open>cl\<close> and a left kid tested with \<open>isa<ConstantExpr>\<close>), the call
  asserts equal widths and folds; this is written out.
\<close>

text \<open>The test \<open>e->getKind() == k && isa<ConstantExpr>(e->getKid(0))\<close>, with the two kids.\<close>

fun const_left :: "bkind \<Rightarrow> expr \<Rightarrow> (apint \<times> expr) option" where
  "const_left k (BinaryExpr k' (ConstantExpr c) b) = (if k' = k then Some (c, b) else None)"
| "const_left k _ = None"

lemma const_left_eq_Some: "const_left k e = Some (c, b) \<longleftrightarrow> e = BinaryExpr k (ConstantExpr c) b"
  by (cases "(k, e)" rule: const_left.cases) auto

lemma size_const_left: "const_left k e = Some (c, b) \<Longrightarrow> size b < size e"
  by (simp add: const_left_eq_Some)

function
    AddExpr__create :: "bool \<Rightarrow> expr \<Rightarrow> expr \<Rightarrow> expr option"
and AddExpr_createPartialR :: "bool \<Rightarrow> apint \<Rightarrow> expr \<Rightarrow> expr option"
and AddExpr_createPartial :: "bool \<Rightarrow> expr \<Rightarrow> apint \<Rightarrow> expr option"
and AddExpr_create :: "bool \<Rightarrow> expr \<Rightarrow> expr \<Rightarrow> expr option"
and SubExpr__create :: "bool \<Rightarrow> expr \<Rightarrow> expr \<Rightarrow> expr option"
and SubExpr_createPartialR :: "bool \<Rightarrow> apint \<Rightarrow> expr \<Rightarrow> expr option"
and SubExpr_createPartial :: "bool \<Rightarrow> expr \<Rightarrow> apint \<Rightarrow> expr option"
and SubExpr_create :: "bool \<Rightarrow> expr \<Rightarrow> expr \<Rightarrow> expr option" where
  "AddExpr__create cao l r = BCREATE_R Add
     (\<lambda>cl r. AddExpr_createPartialR cao cl r) (\<lambda>l cr. AddExpr_createPartial cao l cr)
     (\<lambda>l r. AddExpr_create cao l r) l r"
| "AddExpr_createPartialR cao cl r =
     (if getBitWidth cl = 1 then XorExpr_createPartialR cao cl r
      else if ConstantExpr__isZero cl then Some r
      else case const_left Add r of
        Some (k, c) \<Rightarrow> do {
          assert_that (getBitWidth cl = getBitWidth k);
          AddExpr__create cao (ConstantExpr (ConstantExpr__Add cl k)) c
        }
      | None \<Rightarrow> case const_left Sub r of
        Some (k, c) \<Rightarrow> do {
          assert_that (getBitWidth cl = getBitWidth k);
          SubExpr__create cao (ConstantExpr (ConstantExpr__Add cl k)) c
        }
      | None \<Rightarrow> Some (BinaryExpr Add (ConstantExpr cl) r))"
| "AddExpr_createPartial cao l cr = AddExpr_createPartialR cao cr l"
| "AddExpr_create cao l r =
     (if getWidth l = 1 then Some (XorExpr_create l r)
      else case const_left Add l of
        Some (k, a) \<Rightarrow> do {
          x \<leftarrow> AddExpr__create cao a r;
          AddExpr__create cao (ConstantExpr k) x
        }
      | None \<Rightarrow> case const_left Sub l of
        Some (k, a) \<Rightarrow> do {
          x \<leftarrow> SubExpr__create cao r a;
          AddExpr__create cao (ConstantExpr k) x
        }
      | None \<Rightarrow> case const_left Add r of
        Some (k, b) \<Rightarrow> do {
          x \<leftarrow> AddExpr__create cao l b;
          AddExpr__create cao (ConstantExpr k) x
        }
      | None \<Rightarrow> case const_left Sub r of
        Some (k, b) \<Rightarrow> do {
          x \<leftarrow> SubExpr__create cao l b;
          AddExpr__create cao (ConstantExpr k) x
        }
      | None \<Rightarrow> Some (BinaryExpr Add l r))"
| "SubExpr__create cao l r = BCREATE_R Sub
     (\<lambda>cl r. SubExpr_createPartialR cao cl r) (\<lambda>l cr. SubExpr_createPartial cao l cr)
     (\<lambda>l r. SubExpr_create cao l r) l r"
| "SubExpr_createPartialR cao cl r =
     (if getBitWidth cl = 1 then XorExpr_createPartialR cao cl r
      else case const_left Add r of
        Some (k, c) \<Rightarrow> do {
          assert_that (getBitWidth cl = getBitWidth k);
          SubExpr__create cao (ConstantExpr (ConstantExpr__Sub cl k)) c
        }
      | None \<Rightarrow> case const_left Sub r of
        Some (k, c) \<Rightarrow> do {
          assert_that (getBitWidth cl = getBitWidth k);
          AddExpr__create cao (ConstantExpr (ConstantExpr__Sub cl k)) c
        }
      | None \<Rightarrow> Some (BinaryExpr Sub (ConstantExpr cl) r))"
| "SubExpr_createPartial cao l cr =
     AddExpr_createPartial cao l (ConstantExpr__Sub (ConstantExpr__alloc 0 (getBitWidth cr)) cr)"
| "SubExpr_create cao l r =
     (if getWidth l = 1 then Some (XorExpr_create l r)
      else if l = r then Some (ConstantExpr (ConstantExpr__alloc 0 (getWidth l)))
      else case const_left Add l of
        Some (k, a) \<Rightarrow> do {
          x \<leftarrow> SubExpr__create cao a r;
          AddExpr__create cao (ConstantExpr k) x
        }
      | None \<Rightarrow> case const_left Sub l of
        Some (k, a) \<Rightarrow> do {
          x \<leftarrow> AddExpr__create cao a r;
          SubExpr__create cao (ConstantExpr k) x
        }
      | None \<Rightarrow> case const_left Add r of
        Some (k, b) \<Rightarrow> do {
          x \<leftarrow> SubExpr__create cao l b;
          SubExpr__create cao x (ConstantExpr k)
        }
      | None \<Rightarrow> case const_left Sub r of
        Some (k, b) \<Rightarrow> do {
          x \<leftarrow> AddExpr__create cao l b;
          SubExpr__create cao x (ConstantExpr k)
        }
      | None \<Rightarrow> Some (BinaryExpr Sub l r))"
  by pat_completeness auto

termination
  by (relation "measures [
      \<lambda>x. case x of
        Inl (Inl (Inl (cao, l, r))) \<Rightarrow> of_bool (\<not> is_const l \<and> \<not> is_const r)
      | Inl (Inl (Inr _)) \<Rightarrow> 0
      | Inl (Inr (Inl _)) \<Rightarrow> 0
      | Inl (Inr (Inr _)) \<Rightarrow> 1
      | Inr (Inl (Inl (cao, l, r))) \<Rightarrow> of_bool (\<not> is_const l \<and> \<not> is_const r)
      | Inr (Inl (Inr _)) \<Rightarrow> 0
      | Inr (Inr (Inl _)) \<Rightarrow> 0
      | Inr (Inr (Inr _)) \<Rightarrow> 1,
      \<lambda>x. case x of
        Inl (Inl (Inl (cao, l, r))) \<Rightarrow> size l + size r
      | Inl (Inl (Inr (cao, cl, r))) \<Rightarrow> size r
      | Inl (Inr (Inl (cao, l, cr))) \<Rightarrow> size l
      | Inl (Inr (Inr (cao, l, r))) \<Rightarrow> size l + size r
      | Inr (Inl (Inl (cao, l, r))) \<Rightarrow> size l + size r
      | Inr (Inl (Inr (cao, cl, r))) \<Rightarrow> size r
      | Inr (Inr (Inl (cao, l, cr))) \<Rightarrow> size l
      | Inr (Inr (Inr (cao, l, r))) \<Rightarrow> size l + size r,
      \<lambda>x. case x of
        Inl (Inl (Inl _)) \<Rightarrow> 3
      | Inl (Inl (Inr _)) \<Rightarrow> 0
      | Inl (Inr (Inl _)) \<Rightarrow> 1
      | Inl (Inr (Inr _)) \<Rightarrow> 2
      | Inr (Inl (Inl _)) \<Rightarrow> 3
      | Inr (Inl (Inr _)) \<Rightarrow> 0
      | Inr (Inr (Inl _)) \<Rightarrow> 2
      | Inr (Inr (Inr _)) \<Rightarrow> 2]")
    (auto simp: const_left_eq_Some)

declare AddExpr__create.simps [simp del] AddExpr_createPartialR.simps [simp del]
  AddExpr_createPartial.simps [simp del] AddExpr_create.simps [simp del]
  SubExpr__create.simps [simp del] SubExpr_createPartialR.simps [simp del]
  SubExpr_createPartial.simps [simp del] SubExpr_create.simps [simp del]

section \<open>Division, remainder, shifts\<close>

definition UDivExpr_create :: "expr \<Rightarrow> expr \<Rightarrow> expr" where
  "UDivExpr_create l r = (if getWidth l = 1 then l else BinaryExpr UDiv l r)"

definition SDivExpr_create :: "expr \<Rightarrow> expr \<Rightarrow> expr" where
  "SDivExpr_create l r = (if getWidth l = 1 then l else BinaryExpr SDiv l r)"

definition URemExpr_create :: "expr \<Rightarrow> expr \<Rightarrow> expr option" where
  "URemExpr_create l r =
     (if getWidth l = 1 then map_option ConstantExpr (ConstantExpr__create 0 1)
      else Some (BinaryExpr URem l r))"

definition SRemExpr_create :: "expr \<Rightarrow> expr \<Rightarrow> expr option" where
  "SRemExpr_create l r =
     (if getWidth l = 1 then map_option ConstantExpr (ConstantExpr__create 0 1)
      else Some (BinaryExpr SRem l r))"

definition ShlExpr_create :: "bool \<Rightarrow> expr \<Rightarrow> expr \<Rightarrow> expr option" where
  "ShlExpr_create cao l r =
     (if getWidth l = 1 then do {
        z \<leftarrow> createIsZero cao r;
        AndExpr__create l z
      }
      else Some (BinaryExpr Shl l r))"

definition LShrExpr_create :: "bool \<Rightarrow> expr \<Rightarrow> expr \<Rightarrow> expr option" where
  "LShrExpr_create cao l r =
     (if getWidth l = 1 then do {
        z \<leftarrow> createIsZero cao r;
        AndExpr__create l z
      }
      else Some (BinaryExpr LShr l r))"

definition AShrExpr_create :: "expr \<Rightarrow> expr \<Rightarrow> expr" where
  "AShrExpr_create l r = (if getWidth l = 1 then l else BinaryExpr AShr l r)"

definition UDivExpr__create :: "expr \<Rightarrow> expr \<Rightarrow> expr option" where
  "UDivExpr__create = BCREATE UDiv (\<lambda>l r. Some (UDivExpr_create l r))"

definition SDivExpr__create :: "expr \<Rightarrow> expr \<Rightarrow> expr option" where
  "SDivExpr__create = BCREATE SDiv (\<lambda>l r. Some (SDivExpr_create l r))"

definition URemExpr__create :: "expr \<Rightarrow> expr \<Rightarrow> expr option" where
  "URemExpr__create = BCREATE URem URemExpr_create"

definition SRemExpr__create :: "expr \<Rightarrow> expr \<Rightarrow> expr option" where
  "SRemExpr__create = BCREATE SRem SRemExpr_create"

definition ShlExpr__create :: "bool \<Rightarrow> expr \<Rightarrow> expr \<Rightarrow> expr option" where
  "ShlExpr__create cao = BCREATE Shl (ShlExpr_create cao)"

definition LShrExpr__create :: "bool \<Rightarrow> expr \<Rightarrow> expr \<Rightarrow> expr option" where
  "LShrExpr__create cao = BCREATE LShr (LShrExpr_create cao)"

definition AShrExpr__create :: "expr \<Rightarrow> expr \<Rightarrow> expr option" where
  "AShrExpr__create = BCREATE AShr (\<lambda>l r. Some (AShrExpr_create l r))"

section \<open>Comparisons\<close>

definition NeExpr__create :: "bool \<Rightarrow> expr \<Rightarrow> expr \<Rightarrow> expr option" where
  "NeExpr__create cao l r = do {
     z \<leftarrow> ConstantExpr__create 0 1;
     e \<leftarrow> EqExpr__create cao l r;
     EqExpr__create cao (ConstantExpr z) e
   }"

definition UltExpr_create :: "bool \<Rightarrow> expr \<Rightarrow> expr \<Rightarrow> expr option" where
  "UltExpr_create cao l r =
     (if getWidth l = 1 then do {
        z \<leftarrow> createIsZero cao l;
        AndExpr__create z r
      }
      else Some (BinaryExpr Ult l r))"

definition UleExpr_create :: "bool \<Rightarrow> expr \<Rightarrow> expr \<Rightarrow> expr option" where
  "UleExpr_create cao l r =
     (if getWidth l = 1 then do {
        z \<leftarrow> createIsZero cao l;
        OrExpr__create z r
      }
      else Some (BinaryExpr Ule l r))"

definition SltExpr_create :: "bool \<Rightarrow> expr \<Rightarrow> expr \<Rightarrow> expr option" where
  "SltExpr_create cao l r =
     (if getWidth l = 1 then do {
        z \<leftarrow> createIsZero cao r;
        AndExpr__create l z
      }
      else Some (BinaryExpr Slt l r))"

definition SleExpr_create :: "bool \<Rightarrow> expr \<Rightarrow> expr \<Rightarrow> expr option" where
  "SleExpr_create cao l r =
     (if getWidth l = 1 then do {
        z \<leftarrow> createIsZero cao r;
        OrExpr__create l z
      }
      else Some (BinaryExpr Sle l r))"

definition UltExpr__create :: "bool \<Rightarrow> expr \<Rightarrow> expr \<Rightarrow> expr option" where
  "UltExpr__create cao = BCREATE Ult (UltExpr_create cao)"

definition UleExpr__create :: "bool \<Rightarrow> expr \<Rightarrow> expr \<Rightarrow> expr option" where
  "UleExpr__create cao = BCREATE Ule (UleExpr_create cao)"

definition SltExpr__create :: "bool \<Rightarrow> expr \<Rightarrow> expr \<Rightarrow> expr option" where
  "SltExpr__create cao = BCREATE Slt (SltExpr_create cao)"

definition SleExpr__create :: "bool \<Rightarrow> expr \<Rightarrow> expr \<Rightarrow> expr option" where
  "SleExpr__create cao = BCREATE Sle (SleExpr_create cao)"

definition UgtExpr__create :: "bool \<Rightarrow> expr \<Rightarrow> expr \<Rightarrow> expr option" where
  "UgtExpr__create cao l r = UltExpr__create cao r l"

definition UgeExpr__create :: "bool \<Rightarrow> expr \<Rightarrow> expr \<Rightarrow> expr option" where
  "UgeExpr__create cao l r = UleExpr__create cao r l"

definition SgtExpr__create :: "bool \<Rightarrow> expr \<Rightarrow> expr \<Rightarrow> expr option" where
  "SgtExpr__create cao l r = SltExpr__create cao r l"

definition SgeExpr__create :: "bool \<Rightarrow> expr \<Rightarrow> expr \<Rightarrow> expr option" where
  "SgeExpr__create cao l r = SleExpr__create cao r l"

end
