(* ===== verification/Expr_Shape.thy ===== *)
theory Expr_Shape
  imports Expr_Create
begin

text \<open>
  The remaining constructors of \<open>lib/Expr/Expr.cpp\<close>: those that change the width
  (\<open>Concat\<close>, \<open>Extract\<close>, \<open>ZExt\<close>, \<open>SExt\<close>), \<open>Not\<close>, \<open>Select\<close>, \<open>Read\<close>, the
  reads of a whole array (\<open>createTempRead\<close>) and the dispatch on a kind
  (\<open>createFromKind\<close>, \<open>rebuild\<close>). Widths and offsets are natural numbers.
\<close>

section \<open>Extract and Concat\<close>

text \<open>
  \<open>ExtractExpr::create\<close> pushes an extraction into a concatenation and
  \<open>ConcatExpr::create\<close> merges two adjacent extractions, so they call each other. The
  width \<open>w - ce->getKid(1)->getWidth() + off\<close> is written so that the subtraction of
  natural numbers is exact; in this branch \<open>off + w\<close> exceeds the width of the right
  kid.
\<close>

function ExtractExpr__create :: "expr \<Rightarrow> nat \<Rightarrow> nat \<Rightarrow> expr option"
and ConcatExpr__create :: "expr \<Rightarrow> expr \<Rightarrow> expr option" where
  "ExtractExpr__create expr off w = do {
     assert_that (w > 0 \<and> off + w \<le> getWidth expr);
     if w = getWidth expr then Some expr
     else (case expr of
         ConstantExpr CE \<Rightarrow> Some (ConstantExpr (ConstantExpr__Extract CE off w))
       | ConcatExpr left right \<Rightarrow>
           if off \<ge> getWidth right
           then ExtractExpr__create left (off - getWidth right) w
           else if off + w \<le> getWidth right
           then ExtractExpr__create right off w
           else do {
             x \<leftarrow> ExtractExpr__create left 0 (w + off - getWidth right);
             y \<leftarrow> ExtractExpr__create right off (getWidth right - off);
             ConcatExpr__create x y
           }
       | _ \<Rightarrow> Some (ExtractExpr expr off w))
   }"
| "ConcatExpr__create l r =
     (case l of
        ConstantExpr lCE \<Rightarrow>
          (case r of
             ConstantExpr rCE \<Rightarrow> Some (ConstantExpr (ConstantExpr__Concat lCE rCE))
           | _ \<Rightarrow> Some (ConcatExpr l r))
      | ExtractExpr e1 off1 w1 \<Rightarrow>
          (case r of
             ExtractExpr e2 off2 w2 \<Rightarrow>
               if e1 = e2 \<and> off2 + w2 = off1
               then ExtractExpr__create e1 off2 (getWidth l + getWidth r)
               else Some (ConcatExpr l r)
           | _ \<Rightarrow> Some (ConcatExpr l r))
      | _ \<Rightarrow> Some (ConcatExpr l r))"
  by pat_completeness auto

fun inner_size :: "expr \<Rightarrow> nat" where
  "inner_size (ExtractExpr e off w) = size e"
| "inner_size e = 0"

lemma inner_size_le: "inner_size e \<le> size e"
  by (cases e) auto

lemma Extract_Concat_inner_size:
  "ExtractExpr__create_ConcatExpr__create_dom (Inl (e, off, w)) \<Longrightarrow>
     ExtractExpr__create e off w = Some x \<Longrightarrow> inner_size x \<le> size e"
  "ExtractExpr__create_ConcatExpr__create_dom (Inr (l, r)) \<Longrightarrow>
     ConcatExpr__create l r = Some y \<Longrightarrow> inner_size y \<le> inner_size l"
proof (induction e off w and l r arbitrary: x and y
    rule: ExtractExpr__create_ConcatExpr__create.pinduct)
  case (1 e off w)
  show ?case
  proof (cases "w = getWidth e")
    case True
    with "1.prems" "1.hyps" show ?thesis
      by (auto simp: ExtractExpr__create.psimps assert_that_bind inner_size_le split: if_splits)
  next
    case False
    with 1 show ?thesis
      by (auto simp: ExtractExpr__create.psimps assert_that_bind bind_eq_Some_conv le_SucI
          split: if_splits expr.splits) (fastforce simp: le_SucI trans_le_add1)+
  qed
next
  case (2 l r)
  then show ?case
    by (auto simp: ConcatExpr__create.psimps split: if_splits expr.splits)
qed

termination ExtractExpr__create
proof (relation "measure (\<lambda>x. case x of Inl (e, off, w) \<Rightarrow> 2 * size e | Inr (l, r) \<Rightarrow> 2 * inner_size l + 1)",
    goal_cases)
  case (6 e off w u left right x y)
  then have "inner_size x \<le> size left"
    by (blast intro: Extract_Concat_inner_size(1))
  with 6 show ?case by simp
next
  case 7
  then show ?case by simp
qed simp_all

declare ExtractExpr__create.simps [simp del] ConcatExpr__create.simps [simp del]

text \<open>\<open>createN\<close>, \<open>create4\<close> and \<open>create8\<close>: chains unbalanced to the right.\<close>

fun createN_loop :: "expr list \<Rightarrow> expr \<Rightarrow> expr option" where
  "createN_loop [] r = Some r"
| "createN_loop (kid # kids) r = do {
     r' \<leftarrow> ConcatExpr__create kid r;
     createN_loop kids r'
   }"

text \<open>
  The loop of \<open>createN\<close> goes from the kid \<open>n_kids - 3\<close> down to the kid \<open>0\<close>.
\<close>

definition ConcatExpr__createN :: "expr list \<Rightarrow> expr option" where
  "ConcatExpr__createN kids =
     (let n_kids = length kids in do {
        assert_that (n_kids > 0);
        if n_kids = 1 then Some (kids ! 0)
        else do {
          r \<leftarrow> ConcatExpr__create (kids ! (n_kids - 2)) (kids ! (n_kids - 1));
          createN_loop (rev (take (n_kids - 2) kids)) r
        }
      })"

definition ConcatExpr__create4 :: "expr \<Rightarrow> expr \<Rightarrow> expr \<Rightarrow> expr \<Rightarrow> expr option" where
  "ConcatExpr__create4 kid1 kid2 kid3 kid4 = do {
     a \<leftarrow> ConcatExpr__create kid3 kid4;
     b \<leftarrow> ConcatExpr__create kid2 a;
     ConcatExpr__create kid1 b
   }"

definition ConcatExpr__create8 ::
  "expr \<Rightarrow> expr \<Rightarrow> expr \<Rightarrow> expr \<Rightarrow> expr \<Rightarrow> expr \<Rightarrow> expr \<Rightarrow> expr \<Rightarrow> expr option" where
  "ConcatExpr__create8 kid1 kid2 kid3 kid4 kid5 kid6 kid7 kid8 = do {
     a \<leftarrow> ConcatExpr__create4 kid5 kid6 kid7 kid8;
     b \<leftarrow> ConcatExpr__create kid4 a;
     c \<leftarrow> ConcatExpr__create kid3 b;
     d \<leftarrow> ConcatExpr__create kid2 c;
     ConcatExpr__create kid1 d
   }"

section \<open>Not, ZExt, SExt, Select, NotOptimized\<close>

definition NotExpr__create :: "expr \<Rightarrow> expr" where
  "NotExpr__create e =
     (case e of ConstantExpr CE \<Rightarrow> ConstantExpr (ConstantExpr__Not CE) | _ \<Rightarrow> NotExpr e)"

definition ZExtExpr__create :: "expr \<Rightarrow> nat \<Rightarrow> expr option" where
  "ZExtExpr__create e w =
     (let kBits = getWidth e in
      if w = kBits then Some e
      else if w < kBits then ExtractExpr__create e 0 w
      else (case e of
          ConstantExpr CE \<Rightarrow> Some (ConstantExpr (ConstantExpr__ZExt CE w))
        | _ \<Rightarrow> Some (ZExtExpr e w)))"

definition SExtExpr__create :: "expr \<Rightarrow> nat \<Rightarrow> expr option" where
  "SExtExpr__create e w =
     (let kBits = getWidth e in
      if w = kBits then Some e
      else if w < kBits then ExtractExpr__create e 0 w
      else (case e of
          ConstantExpr CE \<Rightarrow> Some (ConstantExpr (ConstantExpr__SExt CE w))
        | _ \<Rightarrow> Some (SExtExpr e w)))"

definition SelectExpr__create :: "bool \<Rightarrow> expr \<Rightarrow> expr \<Rightarrow> expr \<Rightarrow> expr option" where
  "SelectExpr__create cao c t f = do {
     let kt = getWidth t;
     assert_that (getWidth c = 1);
     assert_that (kt = getWidth f);
     (case c of
        ConstantExpr CE \<Rightarrow> Some (if ConstantExpr__isTrue CE then t else f)
      | _ \<Rightarrow>
          if t = f then Some t
          else if kt = 1 then
            (case t of
               ConstantExpr CE \<Rightarrow>
                 if ConstantExpr__isTrue CE then OrExpr__create c f
                 else do {
                   z \<leftarrow> createIsZero cao c;
                   AndExpr__create z f
                 }
             | _ \<Rightarrow>
                 (case f of
                    ConstantExpr CE \<Rightarrow>
                      if ConstantExpr__isTrue CE then do {
                        z \<leftarrow> createIsZero cao c;
                        OrExpr__create z t
                      }
                      else AndExpr__create c t
                  | _ \<Rightarrow> Some (SelectExpr c t f)))
          else Some (SelectExpr c t f))
   }"

definition NotOptimizedExpr__create :: "expr \<Rightarrow> expr" where
  "NotOptimizedExpr__create src = NotOptimizedExpr src"

section \<open>Read\<close>

text \<open>
  The scan of \<open>ReadExpr::create\<close> over the update list, from the most recent update: it
  ends with the value of the update that is certainly read (\<open>Inl\<close>), or with the flag
  \<open>updateListHasSymbolicWrites\<close> and the node \<open>un\<close> it stopped at (\<open>Inr\<close>).
\<close>

fun ReadExpr__create_scan ::
  "bool \<Rightarrow> expr \<Rightarrow> updateNode \<Rightarrow> (expr + bool \<times> updateNode) option" where
  "ReadExpr__create_scan cao index NoUpdate = Some (Inr (False, NoUpdate))"
| "ReadExpr__create_scan cao index (UpdateNode i v next) = do {
     cond \<leftarrow> EqExpr__create cao index i;
     (case cond of
        ConstantExpr CE \<Rightarrow>
          if ConstantExpr__isTrue CE then Some (Inl v)
          else ReadExpr__create_scan cao index next
      | _ \<Rightarrow> Some (Inr (True, UpdateNode i v next)))
   }"

definition ReadExpr__create :: "bool \<Rightarrow> updateList \<Rightarrow> expr \<Rightarrow> expr option" where
  "ReadExpr__create cao ul index = do {
     res \<leftarrow> ReadExpr__create_scan cao index (snd ul);
     (case res of
        Inl v \<Rightarrow> Some v
      | Inr (updateListHasSymbolicWrites, un) \<Rightarrow>
          (case index of
             ConstantExpr CE \<Rightarrow> do {
               concreteIndex \<leftarrow> getZExtValue CE 64;
               if unat concreteIndex < arr_size (fst ul)
               then if isConstantArray (fst ul) \<and> \<not> updateListHasSymbolicWrites
                 then Some (ConstantExpr (constantValues (fst ul) ! unat concreteIndex))
                 else Some (ReadExpr (fst ul) un index)
               else Some (ReadExpr (fst ul) (snd ul) index)
             }
           | _ \<Rightarrow> Some (ReadExpr (fst ul) (snd ul) index)))
   }"

text \<open>\<open>createTempRead\<close>: a little-endian read of the given width at offset 0.\<close>

definition createTempRead :: "bool \<Rightarrow> array \<Rightarrow> nat \<Rightarrow> expr option" where
  "createTempRead cao arr w =
     (let rd = (\<lambda>i. ReadExpr__create cao (arr, NoUpdate) (ConstantExpr (ConstantExpr__alloc i 32))) in
      if w = 1 then do { a \<leftarrow> rd 0; ZExtExpr__create a 1 }
      else if w = 8 then rd 0
      else if w = 16 then do { a \<leftarrow> rd 1; b \<leftarrow> rd 0; ConcatExpr__create a b }
      else if w = 32 then do {
        a \<leftarrow> rd 3; b \<leftarrow> rd 2; c \<leftarrow> rd 1; d \<leftarrow> rd 0;
        ConcatExpr__create4 a b c d
      }
      else if w = 64 then do {
        a \<leftarrow> rd 7; b \<leftarrow> rd 6; c \<leftarrow> rd 5; d \<leftarrow> rd 4; e \<leftarrow> rd 3; f \<leftarrow> rd 2; g \<leftarrow> rd 1; h \<leftarrow> rd 0;
        ConcatExpr__create8 a b c d e f g h
      }
      else None)"

section \<open>Dispatch on the kind\<close>

fun BinaryExpr__create :: "bool \<Rightarrow> bkind \<Rightarrow> expr \<Rightarrow> expr \<Rightarrow> expr option" where
  "BinaryExpr__create cao Add l r = AddExpr__create cao l r"
| "BinaryExpr__create cao Sub l r = SubExpr__create cao l r"
| "BinaryExpr__create cao Mul l r = MulExpr__create l r"
| "BinaryExpr__create cao UDiv l r = UDivExpr__create l r"
| "BinaryExpr__create cao SDiv l r = SDivExpr__create l r"
| "BinaryExpr__create cao URem l r = URemExpr__create l r"
| "BinaryExpr__create cao SRem l r = SRemExpr__create l r"
| "BinaryExpr__create cao And l r = AndExpr__create l r"
| "BinaryExpr__create cao Or l r = OrExpr__create l r"
| "BinaryExpr__create cao Xor l r = XorExpr__create cao l r"
| "BinaryExpr__create cao Shl l r = ShlExpr__create cao l r"
| "BinaryExpr__create cao LShr l r = LShrExpr__create cao l r"
| "BinaryExpr__create cao AShr l r = AShrExpr__create l r"
| "BinaryExpr__create cao Eq l r = EqExpr__create cao l r"
| "BinaryExpr__create cao Ne l r = NeExpr__create cao l r"
| "BinaryExpr__create cao Ult l r = UltExpr__create cao l r"
| "BinaryExpr__create cao Ule l r = UleExpr__create cao l r"
| "BinaryExpr__create cao Ugt l r = UgtExpr__create cao l r"
| "BinaryExpr__create cao Uge l r = UgeExpr__create cao l r"
| "BinaryExpr__create cao Slt l r = SltExpr__create cao l r"
| "BinaryExpr__create cao Sle l r = SleExpr__create cao l r"
| "BinaryExpr__create cao Sgt l r = SgtExpr__create cao l r"
| "BinaryExpr__create cao Sge l r = SgeExpr__create cao l r"

text \<open>\<open>Expr::CreateArg\<close>: an expression, or a width; a width of 0 marks an expression.\<close>

record createArg =
  arg_expr :: "expr option"
  arg_width :: nat

definition CreateArg__isWidth :: "createArg \<Rightarrow> bool" where
  "CreateArg__isWidth a \<longleftrightarrow> arg_width a \<noteq> 0"

definition CreateArg__isExpr :: "createArg \<Rightarrow> bool" where
  "CreateArg__isExpr a \<longleftrightarrow> \<not> CreateArg__isWidth a"

definition createFromKind :: "bool \<Rightarrow> kind \<Rightarrow> createArg list \<Rightarrow> expr option" where
  "createFromKind cao k args =
     (case k of
        NotOptimized \<Rightarrow> do {
          assert_that (length args = 1 \<and> CreateArg__isExpr (args ! 0));
          map_option NotOptimizedExpr__create (arg_expr (args ! 0))
        }
      | Select \<Rightarrow> do {
          assert_that (length args = 3 \<and> CreateArg__isExpr (args ! 0)
            \<and> CreateArg__isExpr (args ! 1) \<and> CreateArg__isExpr (args ! 2));
          c \<leftarrow> arg_expr (args ! 0); t \<leftarrow> arg_expr (args ! 1); f \<leftarrow> arg_expr (args ! 2);
          SelectExpr__create cao c t f
        }
      | Concat \<Rightarrow> do {
          assert_that (length args = 2 \<and> CreateArg__isExpr (args ! 0) \<and> CreateArg__isExpr (args ! 1));
          l \<leftarrow> arg_expr (args ! 0); r \<leftarrow> arg_expr (args ! 1);
          ConcatExpr__create l r
        }
      | ZExt \<Rightarrow> do {
          assert_that (length args = 2 \<and> CreateArg__isExpr (args ! 0) \<and> CreateArg__isWidth (args ! 1));
          e \<leftarrow> arg_expr (args ! 0);
          ZExtExpr__create e (arg_width (args ! 1))
        }
      | SExt \<Rightarrow> do {
          assert_that (length args = 2 \<and> CreateArg__isExpr (args ! 0) \<and> CreateArg__isWidth (args ! 1));
          e \<leftarrow> arg_expr (args ! 0);
          SExtExpr__create e (arg_width (args ! 1))
        }
      | BinaryK b \<Rightarrow> do {
          assert_that (length args = 2 \<and> CreateArg__isExpr (args ! 0) \<and> CreateArg__isExpr (args ! 1));
          l \<leftarrow> arg_expr (args ! 0); r \<leftarrow> arg_expr (args ! 1);
          BinaryExpr__create cao b l r
        }
      | _ \<Rightarrow> None)"

text \<open>
  \<open>rebuild\<close> makes a copy of an expression with other kids; the array of kids has
  \<open>getNumKids()\<close> elements. On a constant it asserts false.
\<close>

fun rebuild :: "bool \<Rightarrow> expr \<Rightarrow> expr list \<Rightarrow> expr option" where
  "rebuild cao (ConstantExpr _) kids = None"
| "rebuild cao (NotOptimizedExpr _) kids = Some (NotOptimizedExpr__create (kids ! 0))"
| "rebuild cao (ReadExpr root us _) kids = ReadExpr__create cao (root, us) (kids ! 0)"
| "rebuild cao (SelectExpr _ _ _) kids = SelectExpr__create cao (kids ! 0) (kids ! 1) (kids ! 2)"
| "rebuild cao (ConcatExpr _ _) kids = ConcatExpr__create (kids ! 0) (kids ! 1)"
| "rebuild cao (ExtractExpr _ off w) kids = ExtractExpr__create (kids ! 0) off w"
| "rebuild cao (ZExtExpr _ w) kids = ZExtExpr__create (kids ! 0) w"
| "rebuild cao (SExtExpr _ w) kids = SExtExpr__create (kids ! 0) w"
| "rebuild cao (NotExpr _) kids = Some (NotExpr__create (kids ! 0))"
| "rebuild cao (BinaryExpr k _ _) kids = BinaryExpr__create cao k (kids ! 0) (kids ! 1)"

end
