(* ===== verification/Expr_Create_Sound.thy ===== *)
theory Expr_Create_Sound
  imports Expr_Shape
begin

text \<open>
  Every constructor of \<open>Expr_Create\<close> passes its assertions on well-formed operands of
  matching widths and returns a well-formed expression that denotes the operation.
\<close>

section \<open>The macros\<close>

lemma fold_yields:
  assumes "good cao A w (ConstantExpr cl)" "good cao A w (ConstantExpr cr)"
    and "is_div k \<Longrightarrow> getValue cr \<noteq> 0"
  shows "yields cao A (result_width k w) (\<lambda>\<sigma>. bv_op k w (getValue cl) (getValue cr))
    (map_option ConstantExpr (ConstantExpr__op k cl cr))"
proof -
  have "in_width (result_width k w) (bv_op k w (getValue cl) (getValue cr))"
    using assms(1,2) by (intro bv_op_in_width) (auto simp: wf_apint_def)
  moreover have "0 < result_width k w"
    using assms(1) by (auto simp: result_width_def wf_apint_def)
  ultimately show ?thesis
    using assms by (simp add: ConstantExpr__op_sound denotes_Const)
qed

lemma BCREATE_R_cases:
  assumes "getWidth l = getWidth r"
  shows "l = ConstantExpr cl \<Longrightarrow> r = ConstantExpr cr \<Longrightarrow>
      BCREATE_R k pR pL c l r = map_option ConstantExpr (ConstantExpr__op k cl cr)"
    and "l = ConstantExpr cl \<Longrightarrow> \<not> is_const r \<Longrightarrow> BCREATE_R k pR pL c l r = pR cl r"
    and "\<not> is_const l \<Longrightarrow> r = ConstantExpr cr \<Longrightarrow> BCREATE_R k pR pL c l r = pL l cr"
    and "\<not> is_const l \<Longrightarrow> \<not> is_const r \<Longrightarrow> BCREATE_R k pR pL c l r = c l r"
  using assms by (auto simp: BCREATE_R_def assert_that_bind split: expr.splits)

lemma BCREATE_cases:
  assumes "getWidth l = getWidth r"
  shows "l = ConstantExpr cl \<Longrightarrow> r = ConstantExpr cr \<Longrightarrow>
      BCREATE k c l r = map_option ConstantExpr (ConstantExpr__op k cl cr)"
    and "\<not> (is_const l \<and> is_const r) \<Longrightarrow> BCREATE k c l r = c l r"
  using assms by (auto simp: BCREATE_def assert_that_bind split: expr.splits)

lemma BCREATE_R_yields:
  assumes gl: "good cao A w l" and gr: "good cao A w r" and k: "\<not> is_div k" and v: "v = result_width k w"
    and pR: "\<And>cl. l = ConstantExpr cl \<Longrightarrow> \<not> is_const r \<Longrightarrow> wf_apint cl \<Longrightarrow> getBitWidth cl = w \<Longrightarrow>
        yields cao A v (\<lambda>\<sigma>. bv_op k w (getValue cl) (den \<sigma> r)) (partialR cl r)"
    and pL: "\<And>cr. r = ConstantExpr cr \<Longrightarrow> \<not> is_const l \<Longrightarrow> wf_apint cr \<Longrightarrow> getBitWidth cr = w \<Longrightarrow>
        yields cao A v (\<lambda>\<sigma>. bv_op k w (den \<sigma> l) (getValue cr)) (partialL l cr)"
    and c: "\<not> is_const l \<Longrightarrow> \<not> is_const r \<Longrightarrow>
        yields cao A v (\<lambda>\<sigma>. bv_op k w (den \<sigma> l) (den \<sigma> r)) (create l r)"
  shows "yields cao A v (\<lambda>\<sigma>. bv_op k w (den \<sigma> l) (den \<sigma> r)) (BCREATE_R k partialR partialL create l r)"
proof -
  have eq: "getWidth l = getWidth r" using gl gr by (simp add: good_width)
  consider cl cr where "l = ConstantExpr cl" "r = ConstantExpr cr"
    | cl where "l = ConstantExpr cl" "\<not> is_const r"
    | cr where "\<not> is_const l" "r = ConstantExpr cr"
    | "\<not> is_const l" "\<not> is_const r"
    by (metis is_const_iff)
  then show ?thesis
  proof cases
    case 1
    with gl gr k show ?thesis
      using fold_yields [of cao A w cl cr k]
        BCREATE_R_cases(1) [OF eq 1, of k partialR partialL create] by (simp add: v)
  next
    case (2 cl)
    with gl pR show ?thesis
      using BCREATE_R_cases(2) [OF eq 2, of k partialR partialL create] by simp
  next
    case (3 cr)
    with gr pL show ?thesis
      using BCREATE_R_cases(3) [OF eq 3, of k partialR partialL create] by simp
  next
    case 4
    with c show ?thesis
      using BCREATE_R_cases(4) [OF eq 4, of k partialR partialL create] by simp
  qed
qed

lemma BCREATE_yields:
  assumes gl: "good cao A w l" and gr: "good cao A w r"
    and k: "is_div k \<Longrightarrow> \<forall>cr. r = ConstantExpr cr \<longrightarrow> getValue cr \<noteq> 0" and v: "v = result_width k w"
    and c: "yields cao A v (\<lambda>\<sigma>. bv_op k w (den \<sigma> l) (den \<sigma> r)) (create l r)"
  shows "yields cao A v (\<lambda>\<sigma>. bv_op k w (den \<sigma> l) (den \<sigma> r)) (BCREATE k create l r)"
proof -
  have eq: "getWidth l = getWidth r" using gl gr by (simp add: good_width)
  consider cl cr where "l = ConstantExpr cl" "r = ConstantExpr cr" | "\<not> (is_const l \<and> is_const r)"
    by (auto simp: is_const_iff)
  then show ?thesis
  proof cases
    case 1
    with gl gr k show ?thesis
      using fold_yields [of cao A w cl cr k] BCREATE_cases(1) [OF eq 1, of k create] by (simp add: v)
  next
    case 2
    with c show ?thesis by (simp add: BCREATE_cases(2) [OF eq 2])
  qed
qed

section \<open>And, Or\<close>

lemma in_width_and_mask [simp]: "in_width w x \<Longrightarrow> x AND (2 ^ w - 1) = x"
  by (simp add: mask_eq_exp_minus_1 [symmetric] take_bit_eq_mask [symmetric] in_width_take_bit_eq)

lemma in_width_or_mask [simp]: "in_width w x \<Longrightarrow> x OR (2 ^ w - 1) = 2 ^ w - 1"
  by (rule bit_eqI) (auto simp: mask_eq_exp_minus_1 [symmetric] bit_simps dest: in_width_bit)

lemma ConstantExpr__isAllOnes_iff: "ConstantExpr__isAllOnes c \<longleftrightarrow> getValue c = 2 ^ getBitWidth c - 1"
  by (simp add: ConstantExpr__isAllOnes_def mask_eq_exp_minus_1)

lemma AndExpr_createPartial_denotes:
  assumes "good cao A w l" "wf_apint cr" "getBitWidth cr = w"
  shows "denotes cao A w (\<lambda>\<sigma>. den \<sigma> l AND getValue cr) (AndExpr_createPartial l cr)"
  using assms good_in_width [OF assms(1)]
  by (auto simp: AndExpr_createPartial_def ConstantExpr__isAllOnes_iff ConstantExpr__isZero_def
      denotes_def)

lemma OrExpr_createPartial_denotes:
  assumes "good cao A w l" "wf_apint cr" "getBitWidth cr = w"
  shows "denotes cao A w (\<lambda>\<sigma>. den \<sigma> l OR getValue cr) (OrExpr_createPartial l cr)"
  using assms good_in_width [OF assms(1)]
  by (auto simp: OrExpr_createPartial_def ConstantExpr__isAllOnes_iff ConstantExpr__isZero_def
      denotes_def)

lemma AndExpr__create_yields:
  assumes "good cao A w l" "good cao A w r"
  shows "yields cao A w (\<lambda>\<sigma>. bv_op And w (den \<sigma> l) (den \<sigma> r)) (AndExpr__create l r)"
  unfolding AndExpr__create_def using assms denotes_Binary [OF assms, of w And]
  by (intro BCREATE_R_yields)
    (simp_all add: AndExpr_createPartial_denotes AndExpr_createPartialR_def AndExpr_create_def
      and.commute [of "getValue _"] is_div_def)

lemma OrExpr__create_yields:
  assumes "good cao A w l" "good cao A w r"
  shows "yields cao A w (\<lambda>\<sigma>. bv_op Or w (den \<sigma> l) (den \<sigma> r)) (OrExpr__create l r)"
  unfolding OrExpr__create_def using assms denotes_Binary [OF assms, of w Or]
  by (intro BCREATE_R_yields)
    (simp_all add: OrExpr_createPartial_denotes OrExpr_createPartialR_def OrExpr_create_def
      or.commute [of "getValue _"] is_div_def)

section \<open>Eq\<close>

lemma EqExpr_create_denotes:
  assumes "good cao A w l" "good cao A w r"
  shows "denotes cao A 1 (\<lambda>\<sigma>. bv_op Eq w (den \<sigma> l) (den \<sigma> r)) (EqExpr_create l r)"
  using assms denotes_Binary [OF assms, of 1 Eq]
  by (auto simp: EqExpr_create_def intro: denotes_Const)

text \<open>Boolean connectives on expressions of width 1 that denote truth values.\<close>

lemma and_bool_yields:
  assumes "denotes cao A 1 (\<lambda>\<sigma>. of_bool (P \<sigma>)) x" "denotes cao A 1 (\<lambda>\<sigma>. of_bool (Q \<sigma>)) y"
  shows "yields cao A 1 (\<lambda>\<sigma>. of_bool (P \<sigma> \<and> Q \<sigma>)) (AndExpr__create x y)"
  by (rule yields_cong [OF AndExpr__create_yields [OF denotes_good denotes_good], OF assms])
    (simp add: denotes_den [OF assms(1)] denotes_den [OF assms(2)])

lemma or_bool_yields:
  assumes "denotes cao A 1 (\<lambda>\<sigma>. of_bool (P \<sigma>)) x" "denotes cao A 1 (\<lambda>\<sigma>. of_bool (Q \<sigma>)) y"
  shows "yields cao A 1 (\<lambda>\<sigma>. of_bool (P \<sigma> \<or> Q \<sigma>)) (OrExpr__create x y)"
  by (rule yields_cong [OF OrExpr__create_yields [OF denotes_good denotes_good], OF assms])
    (simp add: denotes_den [OF assms(1)] denotes_den [OF assms(2)])

lemma TryConstArrayOpt_loop_yields:
  assumes "\<And>j. i \<le> j \<Longrightarrow> j < i + length vs \<Longrightarrow>
        yields cao A 1 (\<lambda>\<sigma>. of_bool (den \<sigma> index = int j)) (mayBe j)"
    and "denotes cao A 1 (\<lambda>\<sigma>. of_bool (R \<sigma>)) res"
    and "good cao A w rd" "good cao A w (ConstantExpr cl)"
    and "\<And>\<sigma>. A \<sigma> \<Longrightarrow> getValue cl = den \<sigma> rd \<longleftrightarrow>
        R \<sigma> \<or> (\<exists>j < length vs. vs ! j = cl \<and> den \<sigma> index = int (i + j))"
  shows "yields cao A 1 (\<lambda>\<sigma>. of_bool (getValue cl = den \<sigma> rd))
    (TryConstArrayOpt_loop mayBe cl rd vs i n res)"
  using assms
proof (induction vs arbitrary: i n R res)
  case Nil
  then show ?case by (auto intro: denotes_cong)
next
  case (Cons v vs)
  have split: "(\<exists>j < length (v # vs). (v # vs) ! j = cl \<and> den \<sigma> index = int (i + j)) \<longleftrightarrow>
      v = cl \<and> den \<sigma> index = int i \<or> (\<exists>j < length vs. vs ! j = cl \<and> den \<sigma> index = int (i + 1 + j))" for \<sigma>
    by (auto simp: less_Suc_eq_0_disj)
  show ?case
  proof (cases "cl = v")
    case True
    show ?thesis
    proof (cases "n + 1 > 100")
      case True
      with \<open>cl = v\<close> Cons.prems(3,4) show ?thesis
        using EqExpr_create_denotes [OF Cons.prems(4,3)] by simp
    next
      case False
      have "yields cao A 1 (\<lambda>\<sigma>. of_bool (R \<sigma> \<or> den \<sigma> index = int i)) (OrExpr__create res m)"
        if "denotes cao A 1 (\<lambda>\<sigma>. of_bool (den \<sigma> index = int i)) m" for m
        by (rule or_bool_yields [OF Cons.prems(2) that])
      moreover have "yields cao A 1 (\<lambda>\<sigma>. of_bool (getValue cl = den \<sigma> rd))
          (TryConstArrayOpt_loop mayBe cl rd vs (i + 1) (n + 1) res')"
        if "denotes cao A 1 (\<lambda>\<sigma>. of_bool (R \<sigma> \<or> den \<sigma> index = int i)) res'" for res'
        using Cons.prems(1,3,4) that Cons.prems(5) split \<open>cl = v\<close>
        by (intro Cons.IH [where R = "\<lambda>\<sigma>. R \<sigma> \<or> den \<sigma> index = int i"]) auto
      ultimately show ?thesis
        using \<open>cl = v\<close> False Cons.prems(1) [of i]
        by (auto intro!: yields_bind)
    qed
  next
    case False
    then have "yields cao A 1 (\<lambda>\<sigma>. of_bool (getValue cl = den \<sigma> rd))
        (TryConstArrayOpt_loop mayBe cl rd vs (i + 1) n res)"
      using Cons.prems split by (intro Cons.IH [where R = R]) auto
    with False show ?thesis by simp
  qed
qed

lemma good_Read:
  "good cao A w (ReadExpr root us i) \<longleftrightarrow> w = arr_range root \<and> wf_array root \<and> wf_upd root us
     \<and> good cao A (arr_domain root) i
     \<and> (cao \<longrightarrow> (\<forall>\<sigma>. A \<sigma> \<longrightarrow> inb_upd \<sigma> us \<and> (isConstantArray root \<longrightarrow> den \<sigma> i < int (arr_size root))))"
  by (auto simp: good_def)

lemma TryConstArrayOpt_yields:
  assumes g: "good True A w (ReadExpr root us index)" and cl: "wf_apint cl" "getBitWidth cl = w"
    and mayBe: "\<And>j. j < arr_size root \<Longrightarrow> yields True A 1 (\<lambda>\<sigma>. of_bool (den \<sigma> index = int j)) (mayBe j)"
  shows "yields True A 1 (\<lambda>\<sigma>. bv_op Eq w (getValue cl) (den \<sigma> (ReadExpr root us index)))
    (TryConstArrayOpt mayBe cl root us index)"
proof (cases "isSymbolicArray root \<or> UpdateNode__getSize us \<noteq> 0")
  case True
  then show ?thesis
    using EqExpr_create_denotes [of True A w "ConstantExpr cl", OF _ g] cl by (simp add: TryConstArrayOpt_def)
next
  case False
  then have us: "us = NoUpdate" by (cases us) auto
  have const: "isConstantArray root" using False by (simp add: isConstantArray_def)
  have len: "length (constantValues root) = arr_size root"
    using const g by (auto simp: good_Read wf_array_def isConstantArray_def isSymbolicArray_def)
  have val: "getValue cl = den \<sigma> (ReadExpr root us index) \<longleftrightarrow>
      (\<exists>j < length (constantValues root). constantValues root ! j = cl \<and> den \<sigma> index = int (0 + j))"
    if "A \<sigma>" for \<sigma>
  proof -
    have ix: "0 \<le> den \<sigma> index" "den \<sigma> index < int (arr_size root)"
      using g that const good_in_width [of True A "arr_domain root" index \<sigma>]
      by (auto simp: good_Read in_width_def)
    then have "getBitWidth (constantValues root ! nat (den \<sigma> index)) = w"
      using g const by (intro wf_array_nth(2) [of root, THEN trans]) (auto simp: good_Read)
    with ix const cl show ?thesis
      by (auto simp: us init_val_def len intro!: exI [of _ "nat (den \<sigma> index)"] apint.expand)
  qed
  have "yields True A 1 (\<lambda>\<sigma>. of_bool (getValue cl = den \<sigma> (ReadExpr root us index)))
      (TryConstArrayOpt_loop mayBe cl (ReadExpr root us index) (constantValues root) 0 0
        (ConstantExpr (ConstantExpr__alloc 0 1)))"
    using g cl mayBe val len
    by (intro TryConstArrayOpt_loop_yields [where R = "\<lambda>_. False" and w = w]) (auto intro: denotes_Const)
  with False show ?thesis by (simp add: TryConstArrayOpt_def)
qed

lemma APInt_eq_iff: "APInt w v = c \<longleftrightarrow> getBitWidth c = w \<and> v = getValue c"
  by (cases c) auto

lemma good_cast:
  "good cao A w (ZExtExpr e v) \<longleftrightarrow> w = v \<and> (\<exists>u. u \<le> v \<and> good cao A u e)"
  "good cao A w (SExtExpr e v) \<longleftrightarrow> w = v \<and> (\<exists>u. u \<le> v \<and> good cao A u e)"
  by (auto simp: good_def)

lemma false_yields:
  "(\<And>\<sigma>. A \<sigma> \<Longrightarrow> f \<sigma> = 0) \<Longrightarrow> yields cao A 1 f (map_option ConstantExpr (ConstantExpr__create 0 1))"
  by (auto intro: denotes_Const)

lemma denotes_zero [simp]: "0 < w \<Longrightarrow> denotes cao A w (\<lambda>\<sigma>. 0) (ConstantExpr (APInt w 0))"
  by (rule denotes_Const) simp_all

lemma sext_eq_iff:
  assumes "in_width u x" "u \<le> w"
  shows "c = signed_val u x mod 2 ^ w \<longleftrightarrow> x = take_bit u c \<and> signed_val u (take_bit u c) mod 2 ^ w = c"
proof -
  have "take_bit u (signed_val u x mod 2 ^ w) = x"
    using assms by (simp add: take_bit_signed_val min_def flip: take_bit_eq_mod)
  then show ?thesis by auto
qed

lemma eq_SExt_yields:
  assumes g: "good cao A w (SExtExpr src v)" and cl: "wf_apint cl" "getBitWidth cl = w"
    and t: "trunc = ConstantExpr__ZExt cl (getWidth src)"
    and m: "ConstantExpr__SExt trunc w = cl \<Longrightarrow> yields cao A 1 (\<lambda>\<sigma>. of_bool (den \<sigma> src = getValue trunc)) m"
  shows "yields cao A 1 (\<lambda>\<sigma>. bv_op Eq w (getValue cl) (den \<sigma> (SExtExpr src v)))
    (if ConstantExpr__SExt trunc w = cl then m else map_option ConstantExpr (ConstantExpr__create 0 1))"
proof -
  from g obtain u where u: "v = w" "u \<le> w" "good cao A u src" by (auto simp: good_cast)
  have S: "ConstantExpr__SExt trunc w = cl \<longleftrightarrow> signed_val u (getValue trunc) mod 2 ^ w = getValue cl"
    using cl u good_pos [OF u(3)]
    by (auto simp: ConstantExpr__SExt_def t ConstantExpr__ZExt_def good_width [OF u(3)] getSigned_eq
        take_bit_eq_mod APInt_eq_iff wf_apint_def)
  have V: "getValue trunc = take_bit u (getValue cl)"
    by (simp add: t ConstantExpr__ZExt_def good_width [OF u(3)])
  have *: "getValue cl = den \<sigma> (SExtExpr src v) \<longleftrightarrow>
      den \<sigma> src = getValue trunc \<and> ConstantExpr__SExt trunc w = cl" for \<sigma>
    using sext_eq_iff [OF good_in_width [OF u(3), of \<sigma>] u(2), of "getValue cl"]
    by (simp add: u(1) good_width [OF u(3)] S V)
  show ?thesis
    using * m by (auto intro: yields_cong intro!: false_yields)
qed

lemma eq_ZExt_yields:
  assumes g: "good cao A w (ZExtExpr src v)" and cl: "wf_apint cl" "getBitWidth cl = w"
    and t: "trunc = ConstantExpr__ZExt cl (getWidth src)"
    and m: "ConstantExpr__ZExt trunc w = cl \<Longrightarrow> yields cao A 1 (\<lambda>\<sigma>. of_bool (den \<sigma> src = getValue trunc)) m"
  shows "yields cao A 1 (\<lambda>\<sigma>. bv_op Eq w (getValue cl) (den \<sigma> (ZExtExpr src v)))
    (if ConstantExpr__ZExt trunc w = cl then m else map_option ConstantExpr (ConstantExpr__create 0 1))"
proof -
  from g obtain u where u: "v = w" "u \<le> w" "good cao A u src" by (auto simp: good_cast)
  have S: "ConstantExpr__ZExt trunc w = cl \<longleftrightarrow> take_bit u (getValue cl) = getValue cl"
    using cl u by (simp add: ConstantExpr__ZExt_def t good_width [OF u(3)] min_def APInt_eq_iff)
  have V: "getValue trunc = take_bit u (getValue cl)"
    by (simp add: t ConstantExpr__ZExt_def good_width [OF u(3)])
  have *: "getValue cl = den \<sigma> (ZExtExpr src v) \<longleftrightarrow>
      den \<sigma> src = getValue trunc \<and> ConstantExpr__ZExt trunc w = cl" for \<sigma>
    using in_width_take_bit_eq [OF good_in_width [OF u(3), of \<sigma>]]
    by (auto simp: S V)
  show ?thesis
    using * m by (auto intro: yields_cong intro!: false_yields)
qed

lemma eq_add_iff:
  assumes "in_width w (c :: int)" "in_width w b"
  shows "c = (k + b) mod 2 ^ w \<longleftrightarrow> (c - k) mod 2 ^ w = b"
    and "c = (k - b) mod 2 ^ w \<longleftrightarrow> (k - c) mod 2 ^ w = b"
  using assms by (auto simp: in_width_def mod_simps)

lemma eq_Or_zero_iff: "in_width w x \<Longrightarrow> in_width w y \<Longrightarrow> x OR y = 0 \<longleftrightarrow> x = 0 \<and> (y :: int) = 0"
  by (simp add: or_eq_0_iff)

lemma ConstantExpr__isTrue_iff:
  "wf_apint c \<Longrightarrow> getBitWidth c = Suc 0 \<Longrightarrow> ConstantExpr__isTrue c \<longleftrightarrow> getValue c = 1"
  "wf_apint c \<Longrightarrow> getBitWidth c = Suc 0 \<Longrightarrow> \<not> ConstantExpr__isTrue c \<longleftrightarrow> getValue c = 0"
  "wf_apint c \<Longrightarrow> getBitWidth c = Suc 0 \<Longrightarrow> ConstantExpr__isFalse c \<longleftrightarrow> getValue c = 0"
  by (auto simp: ConstantExpr__isTrue_def ConstantExpr__isFalse_def wf_apint_def in_width_Suc_0)

text \<open>The comparison of a constant of width 1 with an expression.\<close>

lemma eq_bool_yields:
  assumes g: "good cao A 1 r" and cl: "wf_apint cl" "getBitWidth cl = 1"
    and OrIH: "\<And>a b. r = BinaryExpr Or a b \<Longrightarrow> good cao A 1 a \<Longrightarrow> good cao A 1 b \<Longrightarrow> \<not> ConstantExpr__isTrue cl \<Longrightarrow>
       yields cao A 1 (\<lambda>\<sigma>. of_bool (den \<sigma> a = 0)) (createIsZero cao a) \<and>
       yields cao A 1 (\<lambda>\<sigma>. of_bool (den \<sigma> b = 0)) (createIsZero cao b)"
  shows "yields cao A 1 (\<lambda>\<sigma>. bv_op Eq 1 (getValue cl) (den \<sigma> r)) (EqExpr_createPartialR cao cl r)"
proof -
  have r01: "den \<sigma> r = 0 \<or> den \<sigma> r = 1" for \<sigma>
    using good_in_width [OF g, of \<sigma>] by (simp add: in_width_Suc_0)
  show ?thesis
  proof (cases "ConstantExpr__isTrue cl")
    case True
    then have "denotes cao A 1 (\<lambda>\<sigma>. bv_op Eq 1 (getValue cl) (den \<sigma> r)) r"
      using cl r01 g by (auto simp: ConstantExpr__isTrue_iff denotes_def)
    with True cl show ?thesis by (simp add: EqExpr_createPartialR.simps)
  next
    case False
    with cl have v: "getValue cl = 0" by (metis ConstantExpr__isTrue_iff(2) One_nat_def)
    have def: "denotes cao A 1 (\<lambda>\<sigma>. of_bool (0 = den \<sigma> r)) (EqExpr_create (ConstantExpr cl) r)"
      using EqExpr_create_denotes [of cao A 1 "ConstantExpr cl" r] g cl v by simp
    consider (Eq) CE b where "r = BinaryExpr Eq (ConstantExpr CE) b" "getBitWidth CE = 1" "ConstantExpr__isFalse CE"
      | (Or) a b where "r = BinaryExpr Or a b"
      | (other) "\<nexists>CE b. r = BinaryExpr Eq (ConstantExpr CE) b \<and> getBitWidth CE = 1 \<and> ConstantExpr__isFalse CE"
          "\<nexists>a b. r = BinaryExpr Or a b"
      by blast
    then show ?thesis
    proof cases
      case Eq
      then have gb: "good cao A 1 b" "wf_apint CE" using g by auto
      then have "denotes cao A 1 (\<lambda>\<sigma>. of_bool (0 = den \<sigma> r)) b"
        using Eq good_in_width [OF gb(1)]
        by (auto simp: denotes_def ConstantExpr__isTrue_iff in_width_Suc_0)
      with Eq False cl v show ?thesis by (simp add: EqExpr_createPartialR.simps)
    next
      case Or
      then have "good cao A 1 a" "good cao A 1 b" using g by auto
      with OrIH [OF Or] False have z: "yields cao A 1 (\<lambda>\<sigma>. of_bool (den \<sigma> a = 0)) (createIsZero cao a)"
          "yields cao A 1 (\<lambda>\<sigma>. of_bool (den \<sigma> b = 0)) (createIsZero cao b)" by auto
      have "yields cao A 1 (\<lambda>\<sigma>. of_bool (den \<sigma> a = 0 \<and> den \<sigma> b = 0))
          (createIsZero cao a \<bind> (\<lambda>x. createIsZero cao b \<bind> AndExpr__create x))"
        by (rule yields_bind [OF z(1)], rule yields_bind [OF z(2)], rule and_bool_yields)
      then have "yields cao A 1 (\<lambda>\<sigma>. of_bool (0 = den \<sigma> r))
          (createIsZero cao a \<bind> (\<lambda>x. createIsZero cao b \<bind> AndExpr__create x))"
        by (rule yields_cong) (use Or in \<open>simp add: or_eq_0_iff eq_commute [of 0]\<close>)
      with Or False cl v show ?thesis by (simp add: EqExpr_createPartialR.simps)
    next
      case other
      with False cl have "EqExpr_createPartialR cao cl r = Some (EqExpr_create (ConstantExpr cl) r)"
        by (auto simp: EqExpr_createPartialR.simps split: expr.splits)
      with def v show ?thesis by simp
    qed
  qed
qed

text \<open>The comparison of a wider constant with an expression.\<close>

lemma eq_wide_yields:
  assumes g: "good cao A w r" and cl: "wf_apint cl" "getBitWidth cl = w" and w: "w \<noteq> 1"
    and S: "\<And>src v trunc. r = SExtExpr src v \<Longrightarrow> trunc = ConstantExpr__ZExt cl (getWidth src) \<Longrightarrow>
       ConstantExpr__SExt trunc w = cl \<Longrightarrow> good cao A (getWidth src) src \<Longrightarrow>
       yields cao A 1 (\<lambda>\<sigma>. of_bool (den \<sigma> src = getValue trunc)) (EqExpr__create cao src (ConstantExpr trunc))"
    and Z: "\<And>src v trunc. r = ZExtExpr src v \<Longrightarrow> trunc = ConstantExpr__ZExt cl (getWidth src) \<Longrightarrow>
       ConstantExpr__ZExt trunc w = cl \<Longrightarrow> good cao A (getWidth src) src \<Longrightarrow>
       yields cao A 1 (\<lambda>\<sigma>. of_bool (den \<sigma> src = getValue trunc)) (EqExpr__create cao src (ConstantExpr trunc))"
    and A: "\<And>c1 b. r = BinaryExpr Add (ConstantExpr c1) b \<Longrightarrow> good cao A w b \<Longrightarrow> wf_apint c1 \<Longrightarrow> getBitWidth c1 = w \<Longrightarrow>
       yields cao A 1 (\<lambda>\<sigma>. of_bool (getValue (ConstantExpr__Sub cl c1) = den \<sigma> b))
         (EqExpr_createPartialR cao (ConstantExpr__Sub cl c1) b)"
    and B: "\<And>c1 b. r = BinaryExpr Sub (ConstantExpr c1) b \<Longrightarrow> good cao A w b \<Longrightarrow> wf_apint c1 \<Longrightarrow> getBitWidth c1 = w \<Longrightarrow>
       yields cao A 1 (\<lambda>\<sigma>. of_bool (getValue (ConstantExpr__Sub c1 cl) = den \<sigma> b))
         (EqExpr_createPartialR cao (ConstantExpr__Sub c1 cl) b)"
    and R: "\<And>root us index j. r = ReadExpr root us index \<Longrightarrow> cao \<Longrightarrow> good cao A (arr_domain root) index \<Longrightarrow>
       wf_array root \<Longrightarrow> j < arr_size root \<Longrightarrow>
       yields cao A 1 (\<lambda>\<sigma>. of_bool (den \<sigma> index = int j))
         (EqExpr__create cao index (ConstantExpr (ConstantExpr__alloc (of_nat j) (getWidth index))))"
  shows "yields cao A 1 (\<lambda>\<sigma>. bv_op Eq w (getValue cl) (den \<sigma> r)) (EqExpr_createPartialR cao cl r)"
proof -
  have def: "denotes cao A 1 (\<lambda>\<sigma>. bv_op Eq w (getValue cl) (den \<sigma> r)) (EqExpr_create (ConstantExpr cl) r)"
    using EqExpr_create_denotes [of cao A w "ConstantExpr cl" r] g cl by simp
  consider (S) src v where "r = SExtExpr src v" | (Z) src v where "r = ZExtExpr src v"
    | (A) c1 b where "r = BinaryExpr Add (ConstantExpr c1) b"
    | (B) c1 b where "r = BinaryExpr Sub (ConstantExpr c1) b"
    | (R) root us index where "r = ReadExpr root us index" cao
    | (other) "\<nexists>src v. r = SExtExpr src v" "\<nexists>src v. r = ZExtExpr src v"
        "\<nexists>c1 b. r = BinaryExpr Add (ConstantExpr c1) b" "\<nexists>c1 b. r = BinaryExpr Sub (ConstantExpr c1) b"
        "\<nexists>root us index. r = ReadExpr root us index \<and> cao"
    by blast
  then show ?thesis
  proof cases
    case (S src v)
    moreover have "good cao A (getWidth src) src" using g S by (auto simp: good_def)
    ultimately show ?thesis
      using eq_SExt_yields [OF g [unfolded S] cl refl assms(5) [OF S refl]] w cl
      by (simp add: EqExpr_createPartialR.simps [of cao cl "SExtExpr src v"] Let_def)
  next
    case (Z src v)
    moreover have "good cao A (getWidth src) src" using g Z by (auto simp: good_def)
    ultimately show ?thesis
      using eq_ZExt_yields [OF g [unfolded Z] cl refl assms(6) [OF Z refl]] w cl
      by (simp add: EqExpr_createPartialR.simps [of cao cl "ZExtExpr src v"] Let_def)
  next
    case (A c1 b)
    then have *: "good cao A w b" "wf_apint c1" "getBitWidth c1 = w" using g by auto
    have "getValue (ConstantExpr__Sub cl c1) = den \<sigma> b \<longleftrightarrow> getValue cl = den \<sigma> r" for \<sigma>
      using eq_add_iff(1) [of w "getValue cl" "den \<sigma> b" "getValue c1"] good_in_width [OF *(1)] cl *
      by (simp add: A ConstantExpr__Sub_def take_bit_eq_mod wf_apint_def)
    then show ?thesis
      using assms(7) [OF A *] w cl *
      by (simp add: EqExpr_createPartialR.simps [of cao cl "BinaryExpr Add (ConstantExpr c1) b"] A)
  next
    case (B c1 b)
    then have *: "good cao A w b" "wf_apint c1" "getBitWidth c1 = w" using g by auto
    have "getValue (ConstantExpr__Sub c1 cl) = den \<sigma> b \<longleftrightarrow> getValue cl = den \<sigma> r" for \<sigma>
      using eq_add_iff(2) [of w "getValue cl" "den \<sigma> b" "getValue c1"] good_in_width [OF *(1)] cl *
      by (simp add: B ConstantExpr__Sub_def take_bit_eq_mod wf_apint_def)
    then show ?thesis
      using assms(8) [OF B *] w cl *
      by (simp add: EqExpr_createPartialR.simps [of cao cl "BinaryExpr Sub (ConstantExpr c1) b"] B)
  next
    case (R root us index)
    let ?mayBe = "\<lambda>j. EqExpr__create cao index (ConstantExpr (ConstantExpr__alloc (of_nat j) (getWidth index)))"
    have "yields cao A 1 (\<lambda>\<sigma>. of_bool (den \<sigma> index = int j)) (?mayBe j)" if "j < arr_size root" for j
      using g R that by (intro assms(9) [OF R(1)]) (auto simp: good_Read)
    then show ?thesis
      using TryConstArrayOpt_yields [of A w root us index cl ?mayBe] R g w cl
      by (simp add: EqExpr_createPartialR.simps [of True cl "ReadExpr root us index"])
  next
    case other
    with w cl have "EqExpr_createPartialR cao cl r = Some (EqExpr_create (ConstantExpr cl) r)"
      by (auto simp: EqExpr_createPartialR.simps split: expr.splits)
    with def show ?thesis by simp
  qed
qed

lemma wf_apint_ops:
  "wf_apint c \<Longrightarrow> 0 < w \<Longrightarrow> wf_apint (ConstantExpr__ZExt c w)"
  "wf_apint c \<Longrightarrow> 0 < w \<Longrightarrow> wf_apint (ConstantExpr__SExt c w)"
  "wf_apint c \<Longrightarrow> wf_apint (ConstantExpr__Add c d)"
  "wf_apint c \<Longrightarrow> wf_apint (ConstantExpr__Sub c d)"
  "0 < w \<Longrightarrow> wf_apint (ConstantExpr__alloc x w)"
  by (auto simp: ConstantExpr__ZExt_def ConstantExpr__SExt_def ConstantExpr__Add_def
      ConstantExpr__Sub_def ConstantExpr__alloc_def wf_apint_pos)

lemma getValue_alloc_index:
  assumes "n < 2 ^ w" "w \<le> 64"
  shows "getValue (ConstantExpr__alloc (of_nat n) w) = int n"
proof -
  have "(2 :: nat) ^ w \<le> 2 ^ 64" using assms(2) by (intro power_increasing) auto
  with assms(1) have "n < 2 ^ 64" by linarith
  moreover have "int n < 2 ^ w" using assms(1) by (metis of_nat_less_iff of_nat_numeral of_nat_power)
  ultimately show ?thesis
    by (simp add: ConstantExpr__alloc_def take_bit_eq_mod unsigned_of_nat)
qed

lemma Eq_yields:
  "good cao A w l \<Longrightarrow> good cao A w r \<Longrightarrow>
     yields cao A 1 (\<lambda>\<sigma>. bv_op Eq w (den \<sigma> l) (den \<sigma> r)) (EqExpr__create cao l r)"
  "good cao A w l \<Longrightarrow> wf_apint cr \<Longrightarrow> getBitWidth cr = w \<Longrightarrow>
     yields cao A 1 (\<lambda>\<sigma>. bv_op Eq w (den \<sigma> l) (getValue cr)) (EqExpr_createPartial cao l cr)"
  "good cao A w r \<Longrightarrow> wf_apint cl \<Longrightarrow> getBitWidth cl = w \<Longrightarrow>
     yields cao A 1 (\<lambda>\<sigma>. bv_op Eq w (getValue cl) (den \<sigma> r)) (EqExpr_createPartialR cao cl r)"
  "good cao A w e \<Longrightarrow> yields cao A 1 (\<lambda>\<sigma>. of_bool (den \<sigma> e = 0)) (createIsZero cao e)"
proof (induction cao l r and cao l cr and cao cl r and cao e arbitrary: w and w and w and w
    rule: EqExpr__create_EqExpr_createPartial_EqExpr_createPartialR_createIsZero.induct)
  case (1 cao l r)
  then show ?case
    unfolding EqExpr__create.simps
    by (intro BCREATE_R_yields) (auto simp: is_div_def EqExpr_create_denotes [simplified])
next
  case (2 cao l cr)
  then show ?case by (simp add: EqExpr_createPartial.simps eq_commute)
next
  case (3 cao cl r)
  show ?case
  proof (cases "w = 1")
    case True
    have "yields cao A 1 (\<lambda>\<sigma>. bv_op Eq 1 (getValue cl) (den \<sigma> r)) (EqExpr_createPartialR cao cl r)"
    proof (rule eq_bool_yields, goal_cases)
      case (4 a b)
      then have a: "yields cao A 1 (\<lambda>\<sigma>. of_bool (den \<sigma> a = 0)) (createIsZero cao a)"
        using "3.IH"(1) [OF refl _ _ 4(1)] "3.prems" True by simp
      then obtain x where "createIsZero cao a = Some x" by (auto simp: yields_def)
      with a 4 show ?case using "3.IH"(2) [OF refl _ _ 4(1)] "3.prems" True by simp
    qed (use "3.prems" True in simp_all)
    with True show ?thesis by simp
  next
    case False
    show ?thesis
    proof (rule eq_wide_yields [OF "3.prems" False], goal_cases)
      case (1 src v trunc)
      then have "good cao A (getWidth src) (ConstantExpr trunc)"
        using "3.prems" good_pos [OF 1(4)] by (simp add: wf_apint_ops)
      then show ?case using "3.IH"(5) [OF refl _ 1(1) refl 1(2)] 1 "3.prems" False by fastforce
    next
      case (2 src v trunc)
      then have "good cao A (getWidth src) (ConstantExpr trunc)"
        using "3.prems" good_pos [OF 2(4)] by (simp add: wf_apint_ops)
      then show ?case using "3.IH"(4) [OF refl _ 2(1) refl 2(2)] 2 "3.prems" False by fastforce
    next
      case (3 c1 b)
      then show ?case using "3.IH"(6) "3.prems" False by (simp add: wf_apint_ops)
    next
      case (4 c1 b)
      then show ?case using "3.IH"(7) "3.prems" False by (simp add: wf_apint_ops)
    next
      case (5 root us index j)
      then have "j < 2 ^ arr_domain root" "arr_domain root \<le> 64" by (auto simp: wf_array_def)
      then show ?case
        using "3.IH"(3) [OF refl _ 5(1,2), of "arr_domain root" j] "3.prems" False 5
        by (simp add: wf_apint_ops good_pos good_width getValue_alloc_index)
    qed
  qed
next
  case (4 cao e)
  have "0 < w" using 4(2) by (rule good_pos)
  with 4(1) [of "APInt w 0" w] 4(2) show ?case by (simp add: createIsZero.simps good_width)
qed

section \<open>Xor, Mul\<close>

lemma xor_1_eq: "in_width (Suc 0) x \<Longrightarrow> 1 XOR x = of_bool (x = (0 :: int))"
  by (auto simp: in_width_Suc_0)

lemma XorExpr_createPartialR_yields:
  assumes "good cao A w r" "wf_apint cl" "getBitWidth cl = w"
  shows "yields cao A w (\<lambda>\<sigma>. bv_op Xor w (getValue cl) (den \<sigma> r)) (XorExpr_createPartialR cao cl r)"
proof -
  consider (zero) "getValue cl = 0" | (one) "w = 1" "getValue cl \<noteq> 0" | (other) "getValue cl \<noteq> 0" "w \<noteq> 1"
    by blast
  then show ?thesis
  proof cases
    case zero
    with assms show ?thesis by (simp add: XorExpr_createPartialR_def ConstantExpr__isZero_def denotes_def)
  next
    case one
    then have "getValue cl = 1" using assms(2,3) by (simp add: wf_apint_def in_width_Suc_0)
    with one assms have "yields cao A 1 (\<lambda>\<sigma>. bv_op Xor 1 (getValue cl) (den \<sigma> r))
        (EqExpr_createPartial cao r (APInt (Suc 0) 0))"
      using good_in_width [OF assms(1)]
      by (intro yields_cong [OF Eq_yields(2) [of cao A 1 r]]) (auto simp: xor_1_eq)
    with one assms show ?thesis
      by (simp add: XorExpr_createPartialR_def ConstantExpr__isZero_def)
  next
    case other
    with assms denotes_Binary [of cao A w "ConstantExpr cl" r w Xor] show ?thesis
      by (simp add: XorExpr_createPartialR_def ConstantExpr__isZero_def)
  qed
qed

lemma XorExpr__create_yields:
  assumes "good cao A w l" "good cao A w r"
  shows "yields cao A w (\<lambda>\<sigma>. bv_op Xor w (den \<sigma> l) (den \<sigma> r)) (XorExpr__create cao l r)"
  unfolding XorExpr__create_def XorExpr_createPartial_def XorExpr_create_def
  using assms denotes_Binary [OF assms, of w Xor] XorExpr_createPartialR_yields
  by (intro BCREATE_R_yields) (simp_all add: is_div_def xor.commute [of "den _ _" "getValue _"])

lemma mul_1_eq: "in_width (Suc 0) x \<Longrightarrow> in_width (Suc 0) y \<Longrightarrow> x AND y = x * y mod (2 :: int)"
  by (auto simp: in_width_Suc_0)

lemma MulExpr_createPartialR_denotes:
  assumes "good cao A w r" "wf_apint cl" "getBitWidth cl = w"
  shows "denotes cao A w (\<lambda>\<sigma>. bv_op Mul w (getValue cl) (den \<sigma> r)) (MulExpr_createPartialR cl r)"
proof (cases "w = 1")
  case True
  then show ?thesis
    using assms AndExpr_createPartial_denotes [OF assms] good_in_width [OF assms(1)] wf_apint_in_width [OF assms(2)]
    by (auto simp: MulExpr_createPartialR_def AndExpr_createPartialR_def mul_1_eq mult.commute
        intro: denotes_cong)
next
  case False
  then show ?thesis
    using assms good_in_width [OF assms(1)] denotes_Binary [of cao A w "ConstantExpr cl" r w Mul]
    by (auto simp: MulExpr_createPartialR_def ConstantExpr__isOne_iff ConstantExpr__isZero_def
        denotes_def in_width_def)
qed

lemma MulExpr__create_yields:
  assumes "good cao A w l" "good cao A w r"
  shows "yields cao A w (\<lambda>\<sigma>. bv_op Mul w (den \<sigma> l) (den \<sigma> r)) (MulExpr__create l r)"
proof -
  have "denotes cao A w (\<lambda>\<sigma>. bv_op Mul w (den \<sigma> l) (den \<sigma> r)) (MulExpr_create l r)"
    using assms good_in_width [OF assms(1)] good_in_width [OF assms(2)]
    by (auto simp: MulExpr_create_def good_width denotes_def mul_1_eq)
  with assms MulExpr_createPartialR_denotes show ?thesis
    unfolding MulExpr__create_def MulExpr_createPartial_def
    by (intro BCREATE_R_yields) (simp_all add: is_div_def mult.commute [of "den _ _" "getValue _"])
qed

section \<open>Add, Sub\<close>

lemma good_const_left:
  assumes "const_left k e = Some (c, b)" "good cao A w e" "\<not> is_cmp k"
  shows "wf_apint c" "getBitWidth c = w" "good cao A w b"
    "den \<sigma> e = bv_op k w (getValue c) (den \<sigma> b)"
  using assms by (auto simp: const_left_eq_Some)

lemma add_xor_1:
  "in_width (Suc 0) x \<Longrightarrow> in_width (Suc 0) y \<Longrightarrow> (x + y) mod 2 = x XOR (y :: int)"
  "in_width (Suc 0) x \<Longrightarrow> in_width (Suc 0) y \<Longrightarrow> (x - y) mod 2 = x XOR (y :: int)"
  by (auto simp: in_width_Suc_0)

lemma XorExpr_create_denotes:
  assumes "good cao A 1 l" "good cao A 1 r" "k = Add \<or> k = Sub"
  shows "denotes cao A 1 (\<lambda>\<sigma>. bv_op k 1 (den \<sigma> l) (den \<sigma> r)) (XorExpr_create l r)"
  using assms good_in_width [OF assms(1)] good_in_width [OF assms(2)]
  by (auto simp: XorExpr_create_def denotes_def add_xor_1)

lemma XorExpr_createPartialR_yields':
  assumes "good cao A 1 r" "wf_apint cl" "getBitWidth cl = 1" "k = Add \<or> k = Sub"
  shows "yields cao A 1 (\<lambda>\<sigma>. bv_op k 1 (getValue cl) (den \<sigma> r)) (XorExpr_createPartialR cao cl r)"
  using assms(4) wf_apint_in_width [OF assms(2)] assms(3) good_in_width [OF assms(1)]
  by (intro yields_cong [OF XorExpr_createPartialR_yields [OF assms(1-3)]]) (auto simp: add_xor_1)

text \<open>The steps that move a constant to the front, as computations in sequence.\<close>

lemma reassoc_left:
  assumes "yields cao A w f m"
    and "\<And>e. m = Some e \<Longrightarrow> good cao A w e \<Longrightarrow>
        yields cao A w (\<lambda>\<sigma>. bv_op k w (den \<sigma> (ConstantExpr c)) (den \<sigma> e)) (n e)"
    and "\<And>\<sigma>. A \<sigma> \<Longrightarrow> bv_op k w (getValue c) (f \<sigma>) = g \<sigma>"
  shows "yields cao A w g (m \<bind> n)"
  using assms by (fastforce simp: yields_def denotes_def)

lemma reassoc_right:
  assumes "yields cao A w f m"
    and "\<And>e. m = Some e \<Longrightarrow> good cao A w e \<Longrightarrow>
        yields cao A w (\<lambda>\<sigma>. bv_op k w (den \<sigma> e) (den \<sigma> (ConstantExpr c))) (n e)"
    and "\<And>\<sigma>. A \<sigma> \<Longrightarrow> bv_op k w (f \<sigma>) (getValue c) = g \<sigma>"
  shows "yields cao A w g (m \<bind> n)"
  using assms by (fastforce simp: yields_def denotes_def)

lemma const_left_cases:
  obtains (al) k a where "const_left Add l = Some (k, a)"
  | (sl) k a where "const_left Add l = None" "const_left Sub l = Some (k, a)"
  | (ar) k b where "const_left Add l = None" "const_left Sub l = None" "const_left Add r = Some (k, b)"
  | (sr) k b where "const_left Add l = None" "const_left Sub l = None" "const_left Add r = None"
      "const_left Sub r = Some (k, b)"
  | (none) "const_left Add l = None" "const_left Sub l = None" "const_left Add r = None"
      "const_left Sub r = None"
  by (metis option.exhaust surj_pair)

definition binary_ok :: "(env \<Rightarrow> bool) \<Rightarrow> bkind \<Rightarrow> (bool \<Rightarrow> expr \<Rightarrow> expr \<Rightarrow> expr option) \<Rightarrow> bool \<Rightarrow> expr \<Rightarrow> expr \<Rightarrow> bool" where
  "binary_ok A k f cao l r \<longleftrightarrow> (\<forall>w. good cao A w l \<longrightarrow> good cao A w r \<longrightarrow>
     yields cao A w (\<lambda>\<sigma>. bv_op k w (den \<sigma> l) (den \<sigma> r)) (f cao l r))"

definition partialR_ok :: "(env \<Rightarrow> bool) \<Rightarrow> bkind \<Rightarrow> (bool \<Rightarrow> apint \<Rightarrow> expr \<Rightarrow> expr option) \<Rightarrow> bool \<Rightarrow> apint \<Rightarrow> expr \<Rightarrow> bool" where
  "partialR_ok A k f cao cl r \<longleftrightarrow> (\<forall>w. good cao A w r \<longrightarrow> wf_apint cl \<longrightarrow> getBitWidth cl = w \<longrightarrow>
     yields cao A w (\<lambda>\<sigma>. bv_op k w (getValue cl) (den \<sigma> r)) (f cao cl r))"

definition partialL_ok :: "(env \<Rightarrow> bool) \<Rightarrow> bkind \<Rightarrow> (bool \<Rightarrow> expr \<Rightarrow> apint \<Rightarrow> expr option) \<Rightarrow> bool \<Rightarrow> expr \<Rightarrow> apint \<Rightarrow> bool" where
  "partialL_ok A k f cao l cr \<longleftrightarrow> (\<forall>w. good cao A w l \<longrightarrow> wf_apint cr \<longrightarrow> getBitWidth cr = w \<longrightarrow>
     yields cao A w (\<lambda>\<sigma>. bv_op k w (den \<sigma> l) (getValue cr)) (f cao l cr))"

lemma binary_okI:
  "(\<And>w. good cao A w l \<Longrightarrow> good cao A w r \<Longrightarrow>
     yields cao A w (\<lambda>\<sigma>. bv_op k w (den \<sigma> l) (den \<sigma> r)) (f cao l r)) \<Longrightarrow> binary_ok A k f cao l r"
  by (simp add: binary_ok_def)

lemma binary_okD:
  "binary_ok A k f cao l r \<Longrightarrow> good cao A w l \<Longrightarrow> good cao A w r \<Longrightarrow>
     yields cao A w (\<lambda>\<sigma>. bv_op k w (den \<sigma> l) (den \<sigma> r)) (f cao l r)"
  by (simp add: binary_ok_def)

lemma partialR_okI:
  "(\<And>w. good cao A w r \<Longrightarrow> wf_apint cl \<Longrightarrow> getBitWidth cl = w \<Longrightarrow>
     yields cao A w (\<lambda>\<sigma>. bv_op k w (getValue cl) (den \<sigma> r)) (f cao cl r)) \<Longrightarrow> partialR_ok A k f cao cl r"
  by (simp add: partialR_ok_def)

lemma BCREATE_R_ok:
  assumes "\<And>cl x. l = ConstantExpr cl \<Longrightarrow> x = r \<Longrightarrow> \<not> is_const x \<Longrightarrow> partialR_ok A k pR cao cl x"
    and "\<And>x cr. x = l \<Longrightarrow> \<not> is_const x \<Longrightarrow> r = ConstantExpr cr \<Longrightarrow> partialL_ok A k pL cao x cr"
    and "\<And>x y. x = l \<Longrightarrow> y = r \<Longrightarrow> \<not> is_const x \<Longrightarrow> \<not> is_const y \<Longrightarrow> binary_ok A k c cao x y"
    and "\<not> is_div k" "\<not> is_cmp k"
    and "f cao l r = BCREATE_R k (\<lambda>cl r. pR cao cl r) (\<lambda>l cr. pL cao l cr) (\<lambda>l r. c cao l r) l r"
  shows "binary_ok A k f cao l r"
  unfolding binary_ok_def assms(6)
  using assms(1-5) by (intro allI impI BCREATE_R_yields) (auto simp: partialR_ok_def partialL_ok_def binary_ok_def)

lemma Add_Sub_ok:
  "binary_ok A Add AddExpr__create cao l r"
  "partialR_ok A Add AddExpr_createPartialR cao cl r"
  "partialL_ok A Add AddExpr_createPartial cao l cr"
  "binary_ok A Add AddExpr_create cao l r"
  "binary_ok A Sub SubExpr__create cao l r"
  "partialR_ok A Sub SubExpr_createPartialR cao cl r"
  "partialL_ok A Sub SubExpr_createPartial cao l cr"
  "binary_ok A Sub SubExpr_create cao l r"
proof (induction cao l r and cao cl r and cao l cr and cao l r and cao l r and cao cl r and cao l cr and cao l r
    rule: AddExpr__create_AddExpr_createPartialR_AddExpr_createPartial_AddExpr_create_SubExpr__create_SubExpr_createPartialR_SubExpr_createPartial_SubExpr_create.induct)
  case (1 cao l r)
  then show ?case
    by (intro BCREATE_R_ok [OF _ _ _ _ _ AddExpr__create.simps]) (simp_all add: is_div_def)
next
  case (2 cao cl r)
  show ?case
  proof (rule partialR_okI)
    fix w assume g: "good cao A w r" "wf_apint cl" "getBitWidth cl = w"
    show "yields cao A w (\<lambda>\<sigma>. bv_op Add w (getValue cl) (den \<sigma> r)) (AddExpr_createPartialR cao cl r)"
    proof (cases "w = 1 \<or> ConstantExpr__isZero cl")
      case True
      with g show ?thesis
        using XorExpr_createPartialR_yields' [of cao A r cl Add] good_in_width [OF g(1)]
        by (auto simp: AddExpr_createPartialR.simps ConstantExpr__isZero_def denotes_def in_width_def)
    next
      case False
      then have nz: "getBitWidth cl \<noteq> 1" "\<not> ConstantExpr__isZero cl" using g by auto
      show ?thesis
      proof (cases rule: const_left_cases [where l = r and r = r])
        case (al k c)
        note c = good_const_left [OF al g(1), simplified]
        have "binary_ok A Add AddExpr__create cao (ConstantExpr (ConstantExpr__Add cl k)) c"
          by (rule "2.IH"(2) [OF nz al refl]) (use c g in simp)
        from binary_okD [OF this, of w] c g al nz good_pos [OF g(1)] show ?thesis
          by (simp add: AddExpr_createPartialR.simps wf_apint_ops ConstantExpr__Add_def take_bit_eq_mod mod_simps algebra_simps)
      next
        case (sl k c)
        note c = good_const_left [OF sl(2) g(1), simplified]
        have "binary_ok A Sub SubExpr__create cao (ConstantExpr (ConstantExpr__Add cl k)) c"
          by (rule "2.IH"(1) [OF nz sl refl]) (use c g in simp)
        from binary_okD [OF this, of w] c g sl nz good_pos [OF g(1)] show ?thesis
          by (simp add: AddExpr_createPartialR.simps wf_apint_ops ConstantExpr__Add_def take_bit_eq_mod mod_simps algebra_simps)
      next
        case (ar k b)
        then show ?thesis by simp
      next
        case (sr k b)
        then show ?thesis by simp
      next
        case none
        with nz g denotes_Binary [of cao A w "ConstantExpr cl" r w Add] show ?thesis
          by (simp add: AddExpr_createPartialR.simps)
      qed
    qed
  qed
next
  case (3 cao l cr)
  then show ?case by (simp add: AddExpr_createPartial.simps add.commute partialR_ok_def partialL_ok_def)
next
  case (4 cao l r)
  show ?case
  proof (rule binary_okI)
    fix w assume g: "good cao A w l" "good cao A w r"
    show "yields cao A w (\<lambda>\<sigma>. bv_op Add w (den \<sigma> l) (den \<sigma> r)) (AddExpr_create cao l r)"
    proof (cases "w = 1")
      case True
      with g XorExpr_create_denotes [of cao A l r Add] show ?thesis
        by (simp add: AddExpr_create.simps good_width)
    next
      case False
      then have l1: "getWidth l \<noteq> 1" using g by (simp add: good_width)
      show ?thesis
      proof (cases rule: const_left_cases [where l = l and r = r])
        case (al k a)
        note c = good_const_left [OF al g(1), simplified]
        have "yields cao A w (\<lambda>\<sigma>. bv_op Add w (den \<sigma> l) (den \<sigma> r)) (AddExpr__create cao a r \<bind> AddExpr__create cao (ConstantExpr k))"
          by (rule reassoc_left [OF binary_okD [OF "4.IH"(7) [OF l1 al refl]] binary_okD [OF "4.IH"(8) [OF l1 al refl]]])
            (simp_all add: c g mod_simps algebra_simps)
        with al l1 show ?thesis by (simp add: AddExpr_create.simps)
      next
        case (sl k a)
        note c = good_const_left [OF sl(2) g(1), simplified]
        have "yields cao A w (\<lambda>\<sigma>. bv_op Add w (den \<sigma> l) (den \<sigma> r)) (SubExpr__create cao r a \<bind> AddExpr__create cao (ConstantExpr k))"
          by (rule reassoc_left [OF binary_okD [OF "4.IH"(5) [OF l1 sl refl]] binary_okD [OF "4.IH"(6) [OF l1 sl refl]]])
            (simp_all add: c g mod_simps algebra_simps)
        with sl l1 show ?thesis by (simp add: AddExpr_create.simps)
      next
        case (ar k b)
        note c = good_const_left [OF ar(3) g(2), simplified]
        have "yields cao A w (\<lambda>\<sigma>. bv_op Add w (den \<sigma> l) (den \<sigma> r)) (AddExpr__create cao l b \<bind> AddExpr__create cao (ConstantExpr k))"
          by (rule reassoc_left [OF binary_okD [OF "4.IH"(3) [OF l1 ar refl]] binary_okD [OF "4.IH"(4) [OF l1 ar refl]]])
            (simp_all add: c g mod_simps algebra_simps)
        with ar l1 show ?thesis by (simp add: AddExpr_create.simps)
      next
        case (sr k b)
        note c = good_const_left [OF sr(4) g(2), simplified]
        have "yields cao A w (\<lambda>\<sigma>. bv_op Add w (den \<sigma> l) (den \<sigma> r)) (SubExpr__create cao l b \<bind> AddExpr__create cao (ConstantExpr k))"
          by (rule reassoc_left [OF binary_okD [OF "4.IH"(1) [OF l1 sr refl]] binary_okD [OF "4.IH"(2) [OF l1 sr refl]]])
            (simp_all add: c g mod_simps algebra_simps)
        with sr l1 show ?thesis by (simp add: AddExpr_create.simps)
      next
        case none
        with l1 g denotes_Binary [of cao A w l r w Add] show ?thesis
          by (simp add: AddExpr_create.simps)
      qed
    qed
  qed
next
  case (5 cao l r)
  then show ?case
    by (intro BCREATE_R_ok [OF _ _ _ _ _ SubExpr__create.simps]) (simp_all add: is_div_def)
next
  case (6 cao cl r)
  show ?case
  proof (rule partialR_okI)
    fix w assume g: "good cao A w r" "wf_apint cl" "getBitWidth cl = w"
    show "yields cao A w (\<lambda>\<sigma>. bv_op Sub w (getValue cl) (den \<sigma> r)) (SubExpr_createPartialR cao cl r)"
    proof (cases "w = 1")
      case True
      with g XorExpr_createPartialR_yields' [of cao A r cl Sub] show ?thesis
        by (simp add: SubExpr_createPartialR.simps)
    next
      case False
      then have nz: "getBitWidth cl \<noteq> 1" using g by auto
      show ?thesis
      proof (cases rule: const_left_cases [where l = r and r = r])
        case (al k c)
        note c = good_const_left [OF al g(1), simplified]
        have "binary_ok A Sub SubExpr__create cao (ConstantExpr (ConstantExpr__Sub cl k)) c"
          by (rule "6.IH"(2) [OF nz al refl]) (use c g in simp)
        from binary_okD [OF this, of w] c g al nz good_pos [OF g(1)] show ?thesis
          by (simp add: SubExpr_createPartialR.simps wf_apint_ops ConstantExpr__Sub_def take_bit_eq_mod mod_simps algebra_simps)
      next
        case (sl k c)
        note c = good_const_left [OF sl(2) g(1), simplified]
        have "binary_ok A Add AddExpr__create cao (ConstantExpr (ConstantExpr__Sub cl k)) c"
          by (rule "6.IH"(1) [OF nz sl refl]) (use c g in simp)
        from binary_okD [OF this, of w] c g sl nz good_pos [OF g(1)] show ?thesis
          by (simp add: SubExpr_createPartialR.simps wf_apint_ops ConstantExpr__Sub_def take_bit_eq_mod mod_simps algebra_simps)
      next
        case (ar k b)
        then show ?thesis by simp
      next
        case (sr k b)
        then show ?thesis by simp
      next
        case none
        with nz g denotes_Binary [of cao A w "ConstantExpr cl" r w Sub] show ?thesis
          by (simp add: SubExpr_createPartialR.simps)
      qed
    qed
  qed
next
  case (7 cao l cr)
  have "getValue (ConstantExpr__Sub (APInt (getBitWidth cr) 0) cr) = (- getValue cr) mod 2 ^ getBitWidth cr"
    by (simp add: ConstantExpr__Sub_def take_bit_eq_mod)
  with 7 show ?case
    by (auto simp: partialL_ok_def SubExpr_createPartial.simps wf_apint_ops wf_apint_pos mod_simps)
next
  case (8 cao l r)
  show ?case
  proof (rule binary_okI)
    fix w assume g: "good cao A w l" "good cao A w r"
    show "yields cao A w (\<lambda>\<sigma>. bv_op Sub w (den \<sigma> l) (den \<sigma> r)) (SubExpr_create cao l r)"
    proof (cases "w = 1 \<or> l = r")
      case True
      with g XorExpr_create_denotes [of cao A l r Sub] good_pos [OF g(1)] show ?thesis
        by (auto simp: SubExpr_create.simps good_width)
    next
      case False
      then have l1: "getWidth l \<noteq> 1" and ne: "l \<noteq> r" using g by (auto simp: good_width)
      show ?thesis
      proof (cases rule: const_left_cases [where l = l and r = r])
        case (al k a)
        note c = good_const_left [OF al g(1), simplified]
        have "yields cao A w (\<lambda>\<sigma>. bv_op Sub w (den \<sigma> l) (den \<sigma> r)) (SubExpr__create cao a r \<bind> AddExpr__create cao (ConstantExpr k))"
          by (rule reassoc_left [OF binary_okD [OF "8.IH"(7) [OF l1 ne al refl]] binary_okD [OF "8.IH"(8) [OF l1 ne al refl]]])
            (simp_all add: c g mod_simps algebra_simps)
        with al l1 ne show ?thesis by (simp add: SubExpr_create.simps)
      next
        case (sl k a)
        note c = good_const_left [OF sl(2) g(1), simplified]
        have "yields cao A w (\<lambda>\<sigma>. bv_op Sub w (den \<sigma> l) (den \<sigma> r)) (AddExpr__create cao a r \<bind> SubExpr__create cao (ConstantExpr k))"
          by (rule reassoc_left [OF binary_okD [OF "8.IH"(5) [OF l1 ne sl refl]] binary_okD [OF "8.IH"(6) [OF l1 ne sl refl]]])
            (simp_all add: c g mod_simps algebra_simps)
        with sl l1 ne show ?thesis by (simp add: SubExpr_create.simps)
      next
        case (ar k b)
        note c = good_const_left [OF ar(3) g(2), simplified]
        have "yields cao A w (\<lambda>\<sigma>. bv_op Sub w (den \<sigma> l) (den \<sigma> r)) (SubExpr__create cao l b \<bind> (\<lambda>x. SubExpr__create cao x (ConstantExpr k)))"
          by (rule reassoc_right [OF binary_okD [OF "8.IH"(3) [OF l1 ne ar refl]] binary_okD [OF "8.IH"(4) [OF l1 ne ar refl]]])
            (simp_all add: c g mod_simps algebra_simps)
        with ar l1 ne show ?thesis by (simp add: SubExpr_create.simps)
      next
        case (sr k b)
        note c = good_const_left [OF sr(4) g(2), simplified]
        have "yields cao A w (\<lambda>\<sigma>. bv_op Sub w (den \<sigma> l) (den \<sigma> r)) (AddExpr__create cao l b \<bind> (\<lambda>x. SubExpr__create cao x (ConstantExpr k)))"
          by (rule reassoc_right [OF binary_okD [OF "8.IH"(1) [OF l1 ne sr refl]] binary_okD [OF "8.IH"(2) [OF l1 ne sr refl]]])
            (simp_all add: c g mod_simps algebra_simps)
        with sr l1 ne show ?thesis by (simp add: SubExpr_create.simps)
      next
        case none
        with l1 ne g denotes_Binary [of cao A w l r w Sub] show ?thesis
          by (simp add: SubExpr_create.simps)
      qed
    qed
  qed
qed

section \<open>Division, remainder, shifts\<close>

lemmas AddExpr__create_yields = binary_okD [OF Add_Sub_ok(1)]
lemmas SubExpr__create_yields = binary_okD [OF Add_Sub_ok(5)]
lemmas EqExpr__create_yields = Eq_yields(1)
lemmas createIsZero_yields = Eq_yields(4)

text \<open>
  On one bit the constructors of division return the dividend and those of a remainder
  return 0, whatever the divisor (it \<open>must be 1\<close>).
\<close>

lemma bool_div:
  assumes "in_width (Suc 0) x" "in_width (Suc 0) y"
  shows "bv_op UDiv 1 x y = x" "bv_op URem 1 x y = 0" "bv_op SDiv 1 x y = x" "bv_op SRem 1 x y = 0"
  using assms by (auto simp: in_width_Suc_0 signed_val_def signed_modulo_int_def div_zero_def)

lemma is_div_create_yields:
  assumes "good cao A w l" "good cao A w r"
  shows "denotes cao A w (\<lambda>\<sigma>. bv_op UDiv w (den \<sigma> l) (den \<sigma> r)) (UDivExpr_create l r)"
    and "denotes cao A w (\<lambda>\<sigma>. bv_op SDiv w (den \<sigma> l) (den \<sigma> r)) (SDivExpr_create l r)"
    and "yields cao A w (\<lambda>\<sigma>. bv_op URem w (den \<sigma> l) (den \<sigma> r)) (URemExpr_create l r)"
    and "yields cao A w (\<lambda>\<sigma>. bv_op SRem w (den \<sigma> l) (den \<sigma> r)) (SRemExpr_create l r)"
proof -
  note b = bool_div [OF good_in_width [of cao A 1 l, simplified] good_in_width [of cao A 1 r, simplified]]
  show "denotes cao A w (\<lambda>\<sigma>. bv_op UDiv w (den \<sigma> l) (den \<sigma> r)) (UDivExpr_create l r)"
    and "denotes cao A w (\<lambda>\<sigma>. bv_op SDiv w (den \<sigma> l) (den \<sigma> r)) (SDivExpr_create l r)"
    and "yields cao A w (\<lambda>\<sigma>. bv_op URem w (den \<sigma> l) (den \<sigma> r)) (URemExpr_create l r)"
    and "yields cao A w (\<lambda>\<sigma>. bv_op SRem w (den \<sigma> l) (den \<sigma> r)) (SRemExpr_create l r)"
    using assms b
    by (auto simp: UDivExpr_create_def SDivExpr_create_def URemExpr_create_def SRemExpr_create_def
        good_width denotes_def simp del: bv_op.simps)
qed

lemma is_div_yields:
  assumes "good cao A w l" "good cao A w r"
    and "\<And>c. r = ConstantExpr c \<Longrightarrow> getValue c \<noteq> 0"
  shows "yields cao A w (\<lambda>\<sigma>. bv_op UDiv w (den \<sigma> l) (den \<sigma> r)) (UDivExpr__create l r)"
    and "yields cao A w (\<lambda>\<sigma>. bv_op SDiv w (den \<sigma> l) (den \<sigma> r)) (SDivExpr__create l r)"
    and "yields cao A w (\<lambda>\<sigma>. bv_op URem w (den \<sigma> l) (den \<sigma> r)) (URemExpr__create l r)"
    and "yields cao A w (\<lambda>\<sigma>. bv_op SRem w (den \<sigma> l) (den \<sigma> r)) (SRemExpr__create l r)"
  unfolding UDivExpr__create_def SDivExpr__create_def URemExpr__create_def SRemExpr__create_def
  using assms is_div_create_yields [OF assms(1,2)]
  by (auto intro!: BCREATE_yields simp del: bv_op.simps)

text \<open>Operations on one bit as Boolean connectives; the value of a negated bit.\<close>

lemma bool_ops:
  assumes "in_width (Suc 0) x" "in_width (Suc 0) y"
  shows "bv_op Shl 1 x y = x AND of_bool (y = 0)" "bv_op LShr 1 x y = x AND of_bool (y = 0)"
    "bv_op AShr 1 x y = x" "bv_op Ult 1 x y = of_bool (x = 0) AND y"
    "bv_op Ule 1 x y = of_bool (x = 0) OR y" "bv_op Slt 1 x y = x AND of_bool (y = 0)"
    "bv_op Sle 1 x y = x OR of_bool (y = 0)"
  using assms by (auto simp: in_width_Suc_0 signed_val_def signed_modulo_int_def div_zero_def)

lemma with_isZero_yields:
  assumes "good cao A 1 e" "good cao A 1 x"
    and "\<And>z. good cao A 1 z \<Longrightarrow> yields cao A 1 (\<lambda>\<sigma>. h (den \<sigma> x) (den \<sigma> z)) (f z)"
    and "\<And>\<sigma>. A \<sigma> \<Longrightarrow> h (den \<sigma> x) (of_bool (den \<sigma> e = 0)) = g \<sigma>"
  shows "yields cao A 1 g (createIsZero cao e \<bind> f)"
proof (rule yields_bind [OF createIsZero_yields [OF assms(1)]])
  fix z assume "denotes cao A 1 (\<lambda>\<sigma>. of_bool (den \<sigma> e = 0)) z"
  with assms(3) [of z] assms(4) show "yields cao A 1 g (f z)"
    by (auto simp: denotes_def elim!: yields_cong)
qed

lemma isZero_ops_yields:
  assumes g: "good cao A 1 l" "good cao A 1 r"
  shows "yields cao A 1 (\<lambda>\<sigma>. den \<sigma> l AND of_bool (den \<sigma> r = 0)) (createIsZero cao r \<bind> AndExpr__create l)"
    and "yields cao A 1 (\<lambda>\<sigma>. den \<sigma> l OR of_bool (den \<sigma> r = 0)) (createIsZero cao r \<bind> OrExpr__create l)"
    and "yields cao A 1 (\<lambda>\<sigma>. of_bool (den \<sigma> l = 0) AND den \<sigma> r) (createIsZero cao l \<bind> (\<lambda>z. AndExpr__create z r))"
    and "yields cao A 1 (\<lambda>\<sigma>. of_bool (den \<sigma> l = 0) OR den \<sigma> r) (createIsZero cao l \<bind> (\<lambda>z. OrExpr__create z r))"
proof -
  note AO = AndExpr__create_yields [of cao A 1, simplified] OrExpr__create_yields [of cao A 1, simplified]
  show "yields cao A 1 (\<lambda>\<sigma>. den \<sigma> l AND of_bool (den \<sigma> r = 0)) (createIsZero cao r \<bind> AndExpr__create l)"
    and "yields cao A 1 (\<lambda>\<sigma>. den \<sigma> l OR of_bool (den \<sigma> r = 0)) (createIsZero cao r \<bind> OrExpr__create l)"
    and "yields cao A 1 (\<lambda>\<sigma>. of_bool (den \<sigma> l = 0) AND den \<sigma> r) (createIsZero cao l \<bind> (\<lambda>z. AndExpr__create z r))"
    and "yields cao A 1 (\<lambda>\<sigma>. of_bool (den \<sigma> l = 0) OR den \<sigma> r) (createIsZero cao l \<bind> (\<lambda>z. OrExpr__create z r))"
    by (rule with_isZero_yields [OF g(2,1), where h = "\<lambda>x z. x AND z"]
             with_isZero_yields [OF g(2,1), where h = "\<lambda>x z. x OR z"]
             with_isZero_yields [OF g(1,2), where h = "\<lambda>x z. z AND x"]
             with_isZero_yields [OF g(1,2), where h = "\<lambda>x z. z OR x"], simp add: AO g [simplified], simp)+
qed

lemma shift_cmp_create_yields:
  assumes g: "good cao A w l" "good cao A w r"
  shows "yields cao A w (\<lambda>\<sigma>. bv_op Shl w (den \<sigma> l) (den \<sigma> r)) (ShlExpr_create cao l r)" (is ?A)
    and "yields cao A w (\<lambda>\<sigma>. bv_op LShr w (den \<sigma> l) (den \<sigma> r)) (LShrExpr_create cao l r)" (is ?B)
    and "denotes cao A w (\<lambda>\<sigma>. bv_op AShr w (den \<sigma> l) (den \<sigma> r)) (AShrExpr_create l r)" (is ?C)
    and "yields cao A 1 (\<lambda>\<sigma>. bv_op Ult w (den \<sigma> l) (den \<sigma> r)) (UltExpr_create cao l r)" (is ?D)
    and "yields cao A 1 (\<lambda>\<sigma>. bv_op Ule w (den \<sigma> l) (den \<sigma> r)) (UleExpr_create cao l r)" (is ?E)
    and "yields cao A 1 (\<lambda>\<sigma>. bv_op Slt w (den \<sigma> l) (den \<sigma> r)) (SltExpr_create cao l r)" (is ?F)
    and "yields cao A 1 (\<lambda>\<sigma>. bv_op Sle w (den \<sigma> l) (den \<sigma> r)) (SleExpr_create cao l r)" (is ?G)
proof -
  have "?A \<and> ?B \<and> ?C \<and> ?D \<and> ?E \<and> ?F \<and> ?G"
  proof (cases "w = 1")
    case True
    then have g1: "good cao A 1 l" "good cao A 1 r" using g by auto
    note b = bool_ops [OF good_in_width [OF g1(1), simplified] good_in_width [OF g1(2), simplified]]
    note z = isZero_ops_yields [OF g1]
    from z b g1 True show ?thesis
      by (simp add: ShlExpr_create_def LShrExpr_create_def AShrExpr_create_def UltExpr_create_def
          UleExpr_create_def SltExpr_create_def SleExpr_create_def good_width denotes_def del: bv_op.simps)
  next
    case False
    with g show ?thesis
      by (auto simp: ShlExpr_create_def LShrExpr_create_def AShrExpr_create_def UltExpr_create_def
          UleExpr_create_def SltExpr_create_def SleExpr_create_def good_width denotes_def simp del: bv_op.simps)
  qed
  then show ?A ?B ?C ?D ?E ?F ?G by blast+
qed

section \<open>All binary constructors\<close>

lemma cmp_yields:
  assumes g: "good cao A w l" "good cao A w r"
  shows "yields cao A 1 (\<lambda>\<sigma>. bv_op Ult w (den \<sigma> l) (den \<sigma> r)) (UltExpr__create cao l r)"
    and "yields cao A 1 (\<lambda>\<sigma>. bv_op Ule w (den \<sigma> l) (den \<sigma> r)) (UleExpr__create cao l r)"
    and "yields cao A 1 (\<lambda>\<sigma>. bv_op Slt w (den \<sigma> l) (den \<sigma> r)) (SltExpr__create cao l r)"
    and "yields cao A 1 (\<lambda>\<sigma>. bv_op Sle w (den \<sigma> l) (den \<sigma> r)) (SleExpr__create cao l r)"
  unfolding UltExpr__create_def UleExpr__create_def SltExpr__create_def SleExpr__create_def
  using shift_cmp_create_yields [OF g] g
  by (auto intro!: BCREATE_yields simp: is_div_def simp del: bv_op.simps)

lemma shift_yields:
  assumes g: "good cao A w l" "good cao A w r"
  shows "yields cao A w (\<lambda>\<sigma>. bv_op Shl w (den \<sigma> l) (den \<sigma> r)) (ShlExpr__create cao l r)"
    and "yields cao A w (\<lambda>\<sigma>. bv_op LShr w (den \<sigma> l) (den \<sigma> r)) (LShrExpr__create cao l r)"
    and "yields cao A w (\<lambda>\<sigma>. bv_op AShr w (den \<sigma> l) (den \<sigma> r)) (AShrExpr__create l r)"
  unfolding ShlExpr__create_def LShrExpr__create_def AShrExpr__create_def
  using shift_cmp_create_yields [OF g] g
  by (auto intro!: BCREATE_yields simp: is_div_def simp del: bv_op.simps)

lemma cmp_swap_yields:
  assumes g: "good cao A w l" "good cao A w r"
  shows "yields cao A 1 (\<lambda>\<sigma>. bv_op Ugt w (den \<sigma> l) (den \<sigma> r)) (UgtExpr__create cao l r)"
    and "yields cao A 1 (\<lambda>\<sigma>. bv_op Uge w (den \<sigma> l) (den \<sigma> r)) (UgeExpr__create cao l r)"
    and "yields cao A 1 (\<lambda>\<sigma>. bv_op Sgt w (den \<sigma> l) (den \<sigma> r)) (SgtExpr__create cao l r)"
    and "yields cao A 1 (\<lambda>\<sigma>. bv_op Sge w (den \<sigma> l) (den \<sigma> r)) (SgeExpr__create cao l r)"
  using cmp_yields [OF g(2,1)]
  by (simp_all add: UgtExpr__create_def UgeExpr__create_def SgtExpr__create_def SgeExpr__create_def)

lemma NeExpr__create_yields:
  assumes g: "good cao A w l" "good cao A w r"
  shows "yields cao A 1 (\<lambda>\<sigma>. bv_op Ne w (den \<sigma> l) (den \<sigma> r)) (NeExpr__create cao l r)"
proof -
  have "yields cao A 1 (\<lambda>\<sigma>. bv_op Ne w (den \<sigma> l) (den \<sigma> r))
      (EqExpr__create cao (ConstantExpr (APInt 1 0)) e)"
    if "denotes cao A 1 (\<lambda>\<sigma>. bv_op Eq w (den \<sigma> l) (den \<sigma> r)) e" for e
    using that EqExpr__create_yields [of cao A 1 "ConstantExpr (APInt 1 0)" e]
    by (auto simp: denotes_def elim!: yields_cong)
  then show ?thesis
    using EqExpr__create_yields [OF g] by (auto simp: NeExpr__create_def intro: yields_bind)
qed

lemma BinaryExpr__create_yields:
  assumes g: "good cao A w l" "good cao A w r"
    and d: "is_div k \<Longrightarrow> \<forall>c. r = ConstantExpr c \<longrightarrow> getValue c \<noteq> 0"
  shows "yields cao A (result_width k w) (\<lambda>\<sigma>. bv_op k w (den \<sigma> l) (den \<sigma> r)) (BinaryExpr__create cao k l r)"
  using d
  by (cases k)
    (simp_all del: bv_op.simps add: is_div_def g AndExpr__create_yields OrExpr__create_yields
      XorExpr__create_yields MulExpr__create_yields AddExpr__create_yields SubExpr__create_yields
      EqExpr__create_yields [simplified] NeExpr__create_yields [simplified] cmp_yields [simplified]
      cmp_swap_yields [simplified] shift_yields
      is_div_yields)

end
