(* ===== verification/Expr_Shape_Sound.thy ===== *)
theory Expr_Shape_Sound
  imports Expr_Create_Sound
begin

text \<open>
  The constructors of \<open>Expr_Shape\<close> pass their assertions and denote the operation:
  extraction of bits, concatenation, extension, selection and the read of an array
  through its updates.
\<close>

section \<open>Extract and Concat\<close>

lemma good_Concat:
  "good cao A w (ConcatExpr l r) \<longleftrightarrow> (\<exists>a b. w = a + b \<and> good cao A a l \<and> good cao A b r)"
  by (auto simp: good_def)

lemma good_Extract:
  "good cao A w (ExtractExpr e off v) \<longleftrightarrow> w = v \<and> 0 < v \<and> (\<exists>u. off + v \<le> u \<and> good cao A u e)"
  by (auto simp: good_def)

lemma denotes_Concat:
  assumes "good cao A a l" "good cao A b r"
  shows "denotes cao A (a + b) (\<lambda>\<sigma>. den \<sigma> l * 2 ^ b + den \<sigma> r) (ConcatExpr l r)"
  using assms by (auto simp: denotes_def good_Concat good_width)

lemma wf_apint_Concat: "wf_apint l \<Longrightarrow> wf_apint r \<Longrightarrow> wf_apint (ConstantExpr__Concat l r)"
  using in_width_concat [of "getBitWidth l" "getValue l" "getBitWidth r" "getValue r"]
  by (simp add: wf_apint_def ConstantExpr__Concat_value [unfolded wf_apint_def])

lemma wf_apint_Extract: "wf_apint c \<Longrightarrow> 0 < w \<Longrightarrow> off + w \<le> getBitWidth c \<Longrightarrow> wf_apint (ConstantExpr__Extract c off w)"
  by (simp add: wf_apint_def [of "ConstantExpr__Extract c off w"] ConstantExpr__Extract_value)

definition extract_ok :: "bool \<Rightarrow> (env \<Rightarrow> bool) \<Rightarrow> expr \<Rightarrow> nat \<Rightarrow> nat \<Rightarrow> bool" where
  "extract_ok cao A e off w \<longleftrightarrow> (\<forall>u. good cao A u e \<longrightarrow> 0 < w \<longrightarrow> off + w \<le> u \<longrightarrow>
     yields cao A w (\<lambda>\<sigma>. bit_slice off w (den \<sigma> e)) (ExtractExpr__create e off w))"

definition concat_ok :: "bool \<Rightarrow> (env \<Rightarrow> bool) \<Rightarrow> expr \<Rightarrow> expr \<Rightarrow> bool" where
  "concat_ok cao A l r \<longleftrightarrow> (\<forall>a b. good cao A a l \<longrightarrow> good cao A b r \<longrightarrow>
     yields cao A (a + b) (\<lambda>\<sigma>. den \<sigma> l * 2 ^ b + den \<sigma> r) (ConcatExpr__create l r))"

lemma extract_concat_step:
  assumes g: "good cao A u (ConcatExpr left right)" and w: "0 < w" "off + w \<le> u" "w \<noteq> u"
    and L: "getWidth right \<le> off \<Longrightarrow> extract_ok cao A left (off - getWidth right) w"
    and R: "\<not> getWidth right \<le> off \<Longrightarrow> off + w \<le> getWidth right \<Longrightarrow> extract_ok cao A right off w"
    and M: "\<not> getWidth right \<le> off \<Longrightarrow> \<not> off + w \<le> getWidth right \<Longrightarrow>
        extract_ok cao A left 0 (w + off - getWidth right) \<and>
        (\<forall>x. ExtractExpr__create left 0 (w + off - getWidth right) = Some x \<longrightarrow>
          extract_ok cao A right off (getWidth right - off) \<and>
          (\<forall>y. ExtractExpr__create right off (getWidth right - off) = Some y \<longrightarrow> concat_ok cao A x y))"
  shows "yields cao A w (\<lambda>\<sigma>. bit_slice off w (den \<sigma> (ConcatExpr left right)))
    (ExtractExpr__create (ConcatExpr left right) off w)"
proof -
  obtain a b where ab: "u = a + b" "good cao A a left" "good cao A b right"
    using g by (auto simp: good_Concat)
  note gw = good_width [OF ab(2)] good_width [OF ab(3)]
  have iw: "in_width b (den \<sigma> right)" for \<sigma> using ab(3) by (rule good_in_width)
  consider (left) "b \<le> off" | (right) "\<not> b \<le> off" "off + w \<le> b" | (both) "\<not> b \<le> off" "\<not> off + w \<le> b"
    by blast
  then show ?thesis
  proof cases
    case left
    with L ab w gw show ?thesis
      by (simp add: ExtractExpr__create.simps [of "ConcatExpr left right"] extract_ok_def bit_slice_concat_left iw)
  next
    case right
    with R ab w gw show ?thesis
      by (simp add: ExtractExpr__create.simps [of "ConcatExpr left right"] extract_ok_def bit_slice_concat_right)
  next
    case both
    let ?wl = "w + off - b" and ?wr = "b - off"
    have x: "yields cao A ?wl (\<lambda>\<sigma>. bit_slice 0 ?wl (den \<sigma> left)) (ExtractExpr__create left 0 ?wl)"
      using M both ab w gw by (simp add: extract_ok_def)
    have y: "yields cao A ?wr (\<lambda>\<sigma>. bit_slice off ?wr (den \<sigma> right)) (ExtractExpr__create right off ?wr)"
      using x M both ab w gw by (auto simp: extract_ok_def yields_def)
    have "yields cao A (?wl + ?wr) (\<lambda>\<sigma>. den \<sigma> x * 2 ^ ?wr + den \<sigma> y) (ConcatExpr__create x y)"
      if "ExtractExpr__create left 0 ?wl = Some x" "ExtractExpr__create right off ?wr = Some y"
        "good cao A ?wl x" "good cao A ?wr y" for x y
    proof -
      have "concat_ok cao A x y" using M both gw that by simp
      with that show ?thesis unfolding concat_ok_def by blast
    qed
    moreover have "?wl + ?wr = w" using both by simp
    ultimately have "yields cao A w (\<lambda>\<sigma>. bit_slice off w (den \<sigma> (ConcatExpr left right)))
        (ExtractExpr__create left 0 ?wl \<bind> (\<lambda>x. ExtractExpr__create right off ?wr \<bind> ConcatExpr__create x))"
      using x y both w by (fastforce simp: yields_def denotes_def gw bit_slice_concat_middle iw)
    with both ab w gw show ?thesis
      by (simp add: ExtractExpr__create.simps [of "ConcatExpr left right"])
  qed
qed

lemma ConcatExpr__create_alloc:
  assumes "\<not> (is_const l \<and> is_const r)"
    and "\<not> (\<exists>e o1 w1 o2 w2. l = ExtractExpr e o1 w1 \<and> r = ExtractExpr e o2 w2 \<and> o2 + w2 = o1)"
  shows "ConcatExpr__create l r = Some (ConcatExpr l r)"
  using assms by (cases l; simp add: ConcatExpr__create.simps; cases r; auto)

lemma concat_ok_step:
  assumes "\<And>e o1 w1 e' o2 w2. l = ExtractExpr e o1 w1 \<Longrightarrow> r = ExtractExpr e' o2 w2 \<Longrightarrow>
      e = e' \<and> o2 + w2 = o1 \<Longrightarrow> extract_ok cao A e o2 (getWidth l + getWidth r)"
  shows "concat_ok cao A l r"
  unfolding concat_ok_def
proof (intro allI impI)
  fix a b assume g: "good cao A a l" "good cao A b r"
  let ?adjacent = "\<exists>e o1 w1 o2 w2. l = ExtractExpr e o1 w1 \<and> r = ExtractExpr e o2 w2 \<and> o2 + w2 = o1"
  consider (const) "is_const l \<and> is_const r" | (merge) ?adjacent | (other) "\<not> (is_const l \<and> is_const r)" "\<not> ?adjacent"
    by satx
  then show "yields cao A (a + b) (\<lambda>\<sigma>. den \<sigma> l * 2 ^ b + den \<sigma> r) (ConcatExpr__create l r)"
  proof cases
    case const
    then obtain c d where "l = ConstantExpr c" "r = ConstantExpr d" by (auto simp: is_const_iff)
    with g show ?thesis
      by (auto simp: ConcatExpr__create.simps [of "ConstantExpr c"] ConstantExpr__Concat_value wf_apint_Concat
          intro!: denotes_Const)
  next
    case merge
    then obtain e o1 w1 o2 w2 where merge: "l = ExtractExpr e o1 w1" "r = ExtractExpr e o2 w2" "o2 + w2 = o1"
      by blast
    have "\<exists>u. o2 + w2 + w1 \<le> u \<and> good cao A u e \<and> 0 < w1 \<and> w1 = a \<and> w2 = b"
      using g merge by (auto simp: good_Extract)
    then obtain u where u: "o2 + w2 + w1 \<le> u" "good cao A u e" "0 < w1" "w1 = a" "w2 = b"
      by blast
    have "extract_ok cao A e o2 (w1 + w2)"
      using assms [OF merge(1,2) conjI [OF refl merge(3)]] unfolding merge(1,2) getWidth.simps .
    with u have "yields cao A (w1 + w2) (\<lambda>\<sigma>. bit_slice o2 (w1 + w2) (den \<sigma> e)) (ExtractExpr__create e o2 (w1 + w2))"
      by (simp add: extract_ok_def)
    moreover have "bit_slice o2 (w1 + w2) (den \<sigma> e) = den \<sigma> l * 2 ^ b + den \<sigma> r" for \<sigma>
      using bit_slice_append [of o2 w2 w1 "den \<sigma> e"] u(5) merge by simp
    moreover have "ConcatExpr__create l r = ExtractExpr__create e o2 (w1 + w2)"
      using merge by (simp add: ConcatExpr__create.simps [of "ExtractExpr e o1 w1"])
    ultimately show ?thesis unfolding u(4,5) by (auto intro: yields_cong)
  next
    case other
    from ConcatExpr__create_alloc [OF other] g show ?thesis by (simp add: denotes_Concat)
  qed
qed

lemma Extract_Concat_ok:
  "extract_ok cao A e off w"
  "concat_ok cao A l r"
proof (induction e off w and l r rule: ExtractExpr__create_ConcatExpr__create.induct)
  case (1 e off w)
  show ?case
    unfolding extract_ok_def
  proof (intro allI impI)
    fix u assume g: "good cao A u e" and w: "0 < w" "off + w \<le> u"
    have gw: "getWidth e = u" using g by (rule good_width)
    consider (same) "w = u" | (const) c where "w \<noteq> u" "e = ConstantExpr c"
      | (concat) left right where "w \<noteq> u" "e = ConcatExpr left right"
      | (other) "w \<noteq> u" "\<nexists>c. e = ConstantExpr c" "\<nexists>left right. e = ConcatExpr left right"
      by blast
    then show "yields cao A w (\<lambda>\<sigma>. bit_slice off w (den \<sigma> e)) (ExtractExpr__create e off w)"
    proof cases
      case same
      with w have "off = 0" by simp
      with same g w gw show ?thesis
        by (auto simp: ExtractExpr__create.simps [of e] denotes_def bit_slice_0_eq good_in_width)
    next
      case (const c)
      with g w show ?thesis
        by (auto simp: ExtractExpr__create.simps [of "ConstantExpr c"] ConstantExpr__Extract_value wf_apint_Extract
            intro!: denotes_Const)
    next
      case (concat left right)
      show ?thesis
        unfolding concat(2)
      proof (rule extract_concat_step [OF g [unfolded concat(2)] w concat(1)])
        have "assert_that (0 < w \<and> off + w \<le> getWidth e) = Some ()" "w \<noteq> getWidth e"
          using w gw concat(1) by simp_all
        note IH = 1 [OF this concat(2)]
        show "getWidth right \<le> off \<Longrightarrow> extract_ok cao A left (off - getWidth right) w" by (rule IH(1))
        show "\<not> getWidth right \<le> off \<Longrightarrow> off + w \<le> getWidth right \<Longrightarrow> extract_ok cao A right off w"
          by (rule IH(2))
        show "extract_ok cao A left 0 (w + off - getWidth right) \<and>
            (\<forall>x. ExtractExpr__create left 0 (w + off - getWidth right) = Some x \<longrightarrow>
              extract_ok cao A right off (getWidth right - off) \<and>
              (\<forall>y. ExtractExpr__create right off (getWidth right - off) = Some y \<longrightarrow> concat_ok cao A x y))"
          if "\<not> getWidth right \<le> off" "\<not> off + w \<le> getWidth right"
          using IH(3-5) [OF that] by blast
      qed
    next
      case other
      with g w gw have "ExtractExpr__create e off w = Some (ExtractExpr e off w)"
        by (auto simp: ExtractExpr__create.simps [of e] split: expr.splits)
      with g w show ?thesis by (auto simp: denotes_def good_Extract)
    qed
  qed
next
  case (2 l r)
  then show ?case by (rule concat_ok_step)
qed

lemma ExtractExpr__create_yields:
  "good cao A u e \<Longrightarrow> 0 < w \<Longrightarrow> off + w \<le> u \<Longrightarrow>
   yields cao A w (\<lambda>\<sigma>. bit_slice off w (den \<sigma> e)) (ExtractExpr__create e off w)"
  using Extract_Concat_ok(1) by (auto simp: extract_ok_def)

lemma ConcatExpr__create_yields:
  "good cao A a l \<Longrightarrow> good cao A b r \<Longrightarrow>
   yields cao A (a + b) (\<lambda>\<sigma>. den \<sigma> l * 2 ^ b + den \<sigma> r) (ConcatExpr__create l r)"
  using Extract_Concat_ok(2) by (auto simp: concat_ok_def)

lemma concat_yields:
  assumes "denotes cao A a f l" "denotes cao A b g r"
  shows "yields cao A (a + b) (\<lambda>\<sigma>. f \<sigma> * 2 ^ b + g \<sigma>) (ConcatExpr__create l r)"
  by (rule yields_cong [OF ConcatExpr__create_yields [OF denotes_good denotes_good], OF assms])
    (simp add: denotes_den [OF assms(1)] denotes_den [OF assms(2)])

section \<open>Not, ZExt, SExt\<close>

lemma NotExpr__create_denotes:
  assumes "good cao A w e"
  shows "denotes cao A w (\<lambda>\<sigma>. 2 ^ w - 1 - den \<sigma> e) (NotExpr__create e)"
proof (cases "is_const e")
  case True
  then obtain c where e: "e = ConstantExpr c" by (auto simp: is_const_iff)
  have "take_bit w (NOT (getValue c)) = 2 ^ w - 1 - getValue c" if "in_width w (getValue c)"
    unfolding take_bit_eq_mod not_int_def
    using that by (intro int_mod_pos_eq [where q = "- 1"]) (auto simp: in_width_def)
  with e assms show ?thesis
    by (auto simp: NotExpr__create_def ConstantExpr__Not_def wf_apint_def in_width_def intro!: denotes_Const)
next
  case False
  then have "NotExpr__create e = NotExpr e" by (cases e) (simp_all add: NotExpr__create_def)
  with assms show ?thesis by (simp add: denotes_def good_def)
qed

lemma is_const_ext:
  "\<not> is_const e \<Longrightarrow> getWidth e < w \<Longrightarrow> ZExtExpr__create e w = Some (ZExtExpr e w)"
  "\<not> is_const e \<Longrightarrow> getWidth e < w \<Longrightarrow> SExtExpr__create e w = Some (SExtExpr e w)"
  by (cases e; simp add: ZExtExpr__create_def SExtExpr__create_def)+

lemma ZExtExpr__create_yields:
  assumes g: "good cao A u e" and w: "0 < w"
  shows "yields cao A w (\<lambda>\<sigma>. den \<sigma> e mod 2 ^ w) (ZExtExpr__create e w)"
proof -
  have iw: "in_width u (den \<sigma> e)" for \<sigma> using g by (rule good_in_width)
  then have wide: "den \<sigma> e mod 2 ^ w = den \<sigma> e" if "u \<le> w" for \<sigma>
    using in_width_take_bit_eq [OF in_width_mono [OF iw that]] by (simp add: take_bit_eq_mod)
  consider "w = u" | "w < u" | "u < w" "\<not> is_const e" | c where "u < w" "e = ConstantExpr c"
    by (metis is_const_iff linorder_neqE_nat)
  then show ?thesis
  proof cases
    case 1
    with g wide show ?thesis by (simp add: ZExtExpr__create_def good_width denotes_def)
  next
    case 2
    with g w ExtractExpr__create_yields [OF g, of w 0] show ?thesis
      by (simp add: ZExtExpr__create_def good_width bit_slice_def)
  next
    case 3
    with g wide show ?thesis by (auto simp: is_const_ext good_width denotes_def good_cast intro!: exI [of _ u])
  next
    case 4
    moreover from this have "in_width w (getValue c)" using iw in_width_mono [of u _ w] by auto
    ultimately show ?thesis
      using g w wide
      by (auto simp: ZExtExpr__create_def wf_apint_ops ConstantExpr__ZExt_def take_bit_eq_mod intro!: denotes_Const)
  qed
qed

lemma signed_val_mod:
  assumes "in_width u x" "w \<le> u"
  shows "signed_val u x mod 2 ^ w = x mod 2 ^ w"
proof -
  have "take_bit w (take_bit u (signed_val u x)) = take_bit w x"
    using assms(1) by (simp add: take_bit_signed_val)
  with assms(2) show ?thesis by (simp add: min_def flip: take_bit_eq_mod)
qed

lemma SExtExpr__create_yields:
  assumes g: "good cao A u e" and w: "0 < w"
  shows "yields cao A w (\<lambda>\<sigma>. signed_val u (den \<sigma> e) mod 2 ^ w) (SExtExpr__create e w)"
proof -
  have iw: "in_width u (den \<sigma> e)" for \<sigma> using g by (rule good_in_width)
  then have narrow: "signed_val u (den \<sigma> e) mod 2 ^ w = den \<sigma> e mod 2 ^ w" if "w \<le> u" for \<sigma>
    using that by (rule signed_val_mod)
  consider "w = u" | "w < u" | "u < w" "\<not> is_const e" | c where "u < w" "e = ConstantExpr c"
    by (metis is_const_iff linorder_neqE_nat)
  then show ?thesis
  proof cases
    case 1
    with g iw narrow show ?thesis
      by (simp add: SExtExpr__create_def good_width denotes_def in_width_def)
  next
    case 2
    with g w narrow ExtractExpr__create_yields [OF g, of w 0] show ?thesis
      by (simp add: SExtExpr__create_def good_width bit_slice_def)
  next
    case 3
    with g show ?thesis by (auto simp: is_const_ext good_width denotes_def good_cast intro!: exI [of _ u])
  next
    case 4
    with g w show ?thesis
      by (auto simp: SExtExpr__create_def wf_apint_ops ConstantExpr__SExt_def getSigned_eq take_bit_eq_mod
          intro!: denotes_Const)
  qed
qed

section \<open>Select\<close>

lemma good_Select:
  "good cao A w (SelectExpr c t f) \<longleftrightarrow> good cao A 1 c \<and> good cao A w t \<and> good cao A w f"
  by (auto simp: good_def)

lemma select_bool:
  assumes "in_width (Suc 0) c" "in_width (Suc 0) x"
  shows "c OR x = (if c \<noteq> 0 then 1 else x)" "of_bool (c = 0) AND x = (if c \<noteq> 0 then 0 else x)"
    "of_bool (c = 0) OR x = (if c \<noteq> 0 then x else 1)" "c AND x = (if c \<noteq> 0 then x else 0)"
  using assms by (auto simp: in_width_Suc_0)

lemma SelectExpr__create_yields:
  assumes g: "good cao A 1 c" "good cao A w t" "good cao A w f"
  shows "yields cao A w (\<lambda>\<sigma>. if den \<sigma> c \<noteq> 0 then den \<sigma> t else den \<sigma> f) (SelectExpr__create cao c t f)"
proof -
  have sel: "denotes cao A w (\<lambda>\<sigma>. if den \<sigma> c \<noteq> 0 then den \<sigma> t else den \<sigma> f) (SelectExpr c t f)"
    using g by (simp add: denotes_def good_Select)
  have iw: "in_width (Suc 0) (den \<sigma> c)" for \<sigma> using good_in_width [OF g(1)] by simp
  note gw = good_width [OF g(1)] good_width [OF g(2)] good_width [OF g(3)]
  consider (const) ce where "c = ConstantExpr ce" | (same) "\<not> is_const c" "t = f"
    | (wide) "\<not> is_const c" "t \<noteq> f" "w \<noteq> 1"
    | (t) ce where "\<not> is_const c" "t \<noteq> f" "w = 1" "t = ConstantExpr ce"
    | (f) ce where "\<not> is_const c" "t \<noteq> f" "w = 1" "\<not> is_const t" "f = ConstantExpr ce"
    | (other) "\<not> is_const c" "t \<noteq> f" "w = 1" "\<not> is_const t" "\<not> is_const f"
    by (metis is_const_iff)
  then show ?thesis
  proof cases
    case (const ce)
    then have "ConstantExpr__isTrue ce \<longleftrightarrow> getValue ce \<noteq> 0"
      using g(1) ConstantExpr__isTrue_iff(2) [of ce] by auto
    with const g gw show ?thesis by (auto simp: SelectExpr__create_def denotes_def)
  next
    case same
    with g gw show ?thesis by (cases c) (simp_all add: SelectExpr__create_def denotes_def)
  next
    case wide
    with sel gw show ?thesis by (cases c) (simp_all add: SelectExpr__create_def)
  next
    case (t ce)
    then have g1: "good cao A 1 f" "wf_apint ce" "getBitWidth ce = Suc 0" using g by auto
    note s = select_bool [OF iw good_in_width [OF g1(1), simplified]]
    have "SelectExpr__create cao c t f = (if ConstantExpr__isTrue ce then OrExpr__create c f
        else createIsZero cao c \<bind> (\<lambda>z. AndExpr__create z f))"
      using t gw by (cases c) (simp_all add: SelectExpr__create_def)
    then show ?thesis
      using t g1 isZero_ops_yields(3,4) [OF g(1) g1(1)] OrExpr__create_yields [OF g(1) g1(1)] ConstantExpr__isTrue_iff [OF g1(2,3)]
      by (cases "ConstantExpr__isTrue ce") (simp_all add: s cong: if_cong)
  next
    case (f ce)
    then have g1: "good cao A 1 t" "wf_apint ce" "getBitWidth ce = Suc 0" using g by auto
    note s = select_bool [OF iw good_in_width [OF g1(1), simplified]]
    have "SelectExpr__create cao c t f = (if ConstantExpr__isTrue ce then createIsZero cao c \<bind> (\<lambda>z. OrExpr__create z t)
        else AndExpr__create c t)"
      using f gw by (cases c; cases t) (simp_all add: SelectExpr__create_def)
    then show ?thesis
      using f g1 isZero_ops_yields(3,4) [OF g(1) g1(1)] AndExpr__create_yields [OF g(1) g1(1)] ConstantExpr__isTrue_iff [OF g1(2,3)]
      by (cases "ConstantExpr__isTrue ce") (simp_all add: s cong: if_cong)
  next
    case other
    then have "SelectExpr__create cao c t f = Some (SelectExpr c t f)"
      using gw by (auto simp: SelectExpr__create_def split: expr.splits)
    with sel show ?thesis by simp
  qed
qed

section \<open>Read\<close>

definition scan_ok :: "bool \<Rightarrow> (env \<Rightarrow> bool) \<Rightarrow> array \<Rightarrow> updateNode \<Rightarrow> expr \<Rightarrow> expr + bool \<times> updateNode \<Rightarrow> bool" where
  "scan_ok cao A root us index res \<longleftrightarrow> (case res of
     Inl v \<Rightarrow> denotes cao A (arr_range root) (\<lambda>\<sigma>. den_upd \<sigma> root us (den \<sigma> index)) v
   | Inr (symbolic, un) \<Rightarrow>
       wf_upd root un \<and> (cao \<longrightarrow> (\<forall>\<sigma>. A \<sigma> \<longrightarrow> inb_upd \<sigma> un)) \<and> (\<not> symbolic \<longrightarrow> un = NoUpdate)
       \<and> (\<forall>\<sigma>. A \<sigma> \<longrightarrow> den_upd \<sigma> root us (den \<sigma> index) = den_upd \<sigma> root un (den \<sigma> index)))"

lemma ReadExpr__create_scan_ok:
  assumes g: "good cao A (arr_domain root) index"
    and "wf_upd root us" "cao \<longrightarrow> (\<forall>\<sigma>. A \<sigma> \<longrightarrow> inb_upd \<sigma> us)"
  shows "\<exists>res. ReadExpr__create_scan cao index us = Some res \<and> scan_ok cao A root us index res"
  using assms(2,3)
proof (induction us rule: UpdateNode__getSize.induct)
  case 1
  then show ?case by (simp add: scan_ok_def)
next
  case (2 i v un)
  then have gi: "good cao A (arr_domain root) i" and gv: "good cao A (arr_range root) v"
    by (auto simp: good_def)
  obtain cond where c: "EqExpr__create cao index i = Some cond"
      "denotes cao A 1 (\<lambda>\<sigma>. of_bool (den \<sigma> index = den \<sigma> i)) cond"
    using EqExpr__create_yields [OF g gi] by (auto simp: yields_def)
  show ?case
  proof (cases "is_const cond")
    case False
    then have "ReadExpr__create_scan cao index (UpdateNode i v un) = Some (Inr (True, UpdateNode i v un))"
      using c(1) by (cases cond) simp_all
    with "2.prems" show ?thesis by (simp add: scan_ok_def)
  next
    case True
    then obtain CE where CE: "cond = ConstantExpr CE" by (auto simp: is_const_iff)
    then have val: "getValue CE = of_bool (den \<sigma> index = den \<sigma> i)" if "A \<sigma>" for \<sigma>
      using denotes_den [OF c(2) that] by simp
    have t: "ConstantExpr__isTrue CE \<longleftrightarrow> getValue CE \<noteq> 0"
      using denotes_good [OF c(2)] ConstantExpr__isTrue_iff(2) [of CE] by (auto simp: CE)
    show ?thesis
    proof (cases "ConstantExpr__isTrue CE")
      case True
      with c(1) CE t val gv show ?thesis
        by (fastforce simp: scan_ok_def denotes_def)
    next
      case False
      obtain res where "ReadExpr__create_scan cao index un = Some res" "scan_ok cao A root un index res"
        using 2 by auto
      moreover have "den_upd \<sigma> root (UpdateNode i v un) (den \<sigma> index) = den_upd \<sigma> root un (den \<sigma> index)" if "A \<sigma>" for \<sigma>
        using val [OF that] False t by (auto split: if_splits)
      ultimately show ?thesis
        using c(1) CE False
        by (auto simp: scan_ok_def split: sum.splits intro: denotes_cong)
    qed
  qed
qed

lemma ReadExpr__create_yields:
  assumes g: "good cao A w (ReadExpr root us index)"
  shows "yields cao A w (\<lambda>\<sigma>. den \<sigma> (ReadExpr root us index)) (ReadExpr__create cao (root, us) index)"
proof -
  have gi: "good cao A (arr_domain root) index" and w: "w = arr_range root" "wf_array root" "wf_upd root us"
    and b: "cao \<longrightarrow> (\<forall>\<sigma>. A \<sigma> \<longrightarrow> inb_upd \<sigma> us)"
    using g by (auto simp: good_Read)
  obtain res where res: "ReadExpr__create_scan cao index us = Some res" "scan_ok cao A root us index res"
    using ReadExpr__create_scan_ok [OF gi w(3) b] by blast
  have self: "denotes cao A w (\<lambda>\<sigma>. den \<sigma> (ReadExpr root us index)) (ReadExpr root us index)"
    using g by (rule denotes_self)
  show ?thesis
  proof (cases res)
    case (Inl v)
    with res w show ?thesis by (simp add: ReadExpr__create_def scan_ok_def)
  next
    case (Inr p)
    obtain sym un where p: "p = (sym, un)" by (cases p)
    note sc = res(2) [unfolded scan_ok_def Inr p, simplified]
    show ?thesis
    proof (cases "is_const index")
      case False
      then have "ReadExpr__create cao (root, us) index = Some (ReadExpr root us index)"
        using res(1) Inr p by (cases index) (simp_all add: ReadExpr__create_def)
      with self show ?thesis by simp
    next
      case True
      then obtain CE where CE: "index = ConstantExpr CE" by (auto simp: is_const_iff)
      have d: "getBitWidth CE \<le> 64" "wf_apint CE" using gi w(2) CE by (auto simp: wf_array_def)
      have "(2 :: int) ^ getBitWidth CE \<le> 2 ^ 64" using d(1) by (intro power_increasing) auto
      with d have v: "0 \<le> getValue CE" "getValue CE < 2 ^ 64" by (auto simp: wf_apint_def in_width_def)
      then have n: "unat (word_of_int (getValue CE) :: 64 word) = nat (getValue CE)"
        by (simp add: unat_eq_nat_uint uint_word_of_int take_bit_eq_mod [symmetric] take_bit_int_eq_self)
      consider "nat (getValue CE) < arr_size root" "isConstantArray root" "\<not> sym"
        | "nat (getValue CE) < arr_size root" "\<not> (isConstantArray root \<and> \<not> sym)"
        | "\<not> nat (getValue CE) < arr_size root" by blast
      then show ?thesis
      proof cases
        case 1
        then show ?thesis
          using res(1) Inr p CE d v w sc wf_array_nth [OF w(2) 1(2,1)]
          by (auto simp: ReadExpr__create_def getZExtValue_def n init_val_def intro!: denotes_Const)
      next
        case 2
        then show ?thesis
          using res(1) Inr p CE d v w sc g
          by (auto simp: ReadExpr__create_def getZExtValue_def n denotes_def good_Read)
      next
        case 3
        with self show ?thesis
          using res(1) Inr p CE d
          by (auto simp: ReadExpr__create_def getZExtValue_def n)
      qed
    qed
  qed
qed

section \<open>Chains of concatenations\<close>

fun concat_val :: "nat \<Rightarrow> int list \<Rightarrow> int" where
  "concat_val w [] = 0"
| "concat_val w (v # vs) = v * 2 ^ (w * length vs) + concat_val w vs"

lemma createN_loop_yields:
  assumes "denotes cao A (w * n) f r" "\<forall>e \<in> set es. good cao A w e"
  shows "yields cao A (w * (length es + n))
    (\<lambda>\<sigma>. concat_val w (rev (map (den \<sigma>) es)) * 2 ^ (w * n) + f \<sigma>) (createN_loop es r)"
  using assms
proof (induction es arbitrary: n f r)
  case Nil
  then show ?case by (auto intro: denotes_cong)
next
  case (Cons e es)
  have app: "concat_val w (xs @ [v]) = concat_val w xs * 2 ^ w + v" for xs v
    by (induction xs) (auto simp: algebra_simps power_add)
  have "yields cao A (w * Suc n) (\<lambda>\<sigma>. den \<sigma> e * 2 ^ (w * n) + f \<sigma>) (ConcatExpr__create e r)"
    using concat_yields [OF denotes_self Cons.prems(1), of w e] Cons.prems(2) by simp
  moreover have "yields cao A (w * (length (e # es) + n))
      (\<lambda>\<sigma>. concat_val w (rev (map (den \<sigma>) (e # es))) * 2 ^ (w * n) + f \<sigma>) (createN_loop es r')"
    if "denotes cao A (w * Suc n) (\<lambda>\<sigma>. den \<sigma> e * 2 ^ (w * n) + f \<sigma>) r'" for r'
    using Cons.IH [OF that] Cons.prems(2)
    by (auto simp: app algebra_simps power_add elim!: yields_cong)
  ultimately show ?case by (auto intro: yields_bind)
qed

text \<open>The chain of \<open>n\<close> kids of width \<open>w\<close>, the first kid most significant.\<close>

lemma ConcatExpr__createN_yields:
  assumes "kids \<noteq> []" "\<forall>e \<in> set kids. good cao A w e"
  shows "yields cao A (w * length kids) (\<lambda>\<sigma>. concat_val w (map (den \<sigma>) kids)) (ConcatExpr__createN kids)"
proof (cases "length kids = 1")
  case True
  then obtain e where "kids = [e]" by (auto simp: length_Suc_conv)
  with assms show ?thesis by (simp add: ConcatExpr__createN_def denotes_self)
next
  case False
  then obtain xs a b where k: "kids = xs @ [a, b]"
    using assms(1) by (metis One_nat_def append_Cons append_Nil append_assoc length_Cons list.size(3) rev_exhaust)
  have "yields cao A (w * 2) (\<lambda>\<sigma>. den \<sigma> a * 2 ^ w + den \<sigma> b) (ConcatExpr__create a b)"
    using ConcatExpr__create_yields [of cao A w a w b] assms(2) k by (simp add: mult_2_right)
  moreover have "yields cao A (w * length kids) (\<lambda>\<sigma>. concat_val w (map (den \<sigma>) kids)) (createN_loop (rev xs) r)"
    if "denotes cao A (w * 2) (\<lambda>\<sigma>. den \<sigma> a * 2 ^ w + den \<sigma> b) r" for r
  proof -
    have app: "concat_val w (vs @ [x, y]) = concat_val w vs * 2 ^ (w * 2) + (x * 2 ^ w + y)" for vs x y
      by (induction vs) (auto simp: algebra_simps power_add mult_2_right)
    show ?thesis
      using createN_loop_yields [OF that, of "rev xs"] assms(2) k
      by (auto simp: app rev_map elim!: yields_cong)
  qed
  ultimately show ?thesis
    using k by (auto simp: ConcatExpr__createN_def nth_append intro: yields_bind)
qed

lemma createN_loop_fun:
  "createN_loop [] = Some" "createN_loop (e # es) = (\<lambda>r. ConcatExpr__create e r \<bind> createN_loop es)"
  by (simp_all add: fun_eq_iff)

lemma ConcatExpr__create4_createN: "ConcatExpr__create4 a b c d = ConcatExpr__createN [a, b, c, d]"
  by (simp add: ConcatExpr__create4_def ConcatExpr__createN_def createN_loop_fun eval_nat_numeral)

lemma ConcatExpr__create8_createN:
  "ConcatExpr__create8 a b c d e f g h = ConcatExpr__createN [a, b, c, d, e, f, g, h]"
  by (simp add: ConcatExpr__create8_def ConcatExpr__create4_def ConcatExpr__createN_def createN_loop_fun eval_nat_numeral)

section \<open>Reads of whole arrays, dispatch, rebuild\<close>

text \<open>
  \<open>createTempRead\<close> of an array of bytes with 32-bit indices: the bytes \<open>0\<close>, \<open>1\<close>, ...
  from the least significant on.
\<close>

definition little_endian :: "env \<Rightarrow> array \<Rightarrow> nat \<Rightarrow> int" where
  "little_endian \<sigma> a n = (\<Sum>i<n. init_val \<sigma> a (int i) * 2 ^ (8 * i))"

lemma concat_val_rev: "concat_val w (rev vs) = (\<Sum>i<length vs. vs ! i * 2 ^ (w * i))"
proof (induction vs rule: rev_induct)
  case (snoc v vs)
  then show ?case by (simp add: nth_append)
qed simp

lemma byte_yields:
  assumes a: "wf_array arr" "arr_domain arr = 32" "arr_range arr = 8" and i: "i < 8"
    and b: "cao \<Longrightarrow> isConstantArray arr \<Longrightarrow> i < arr_size arr"
  shows "yields cao A 8 (\<lambda>\<sigma>. init_val \<sigma> arr (int i))
    (ReadExpr__create cao (arr, NoUpdate) (ConstantExpr (ConstantExpr__alloc (of_nat i) 32)))"
proof -
  have v: "getValue (ConstantExpr__alloc (of_nat i) 32) = int i"
    using i by (intro getValue_alloc_index) auto
  have "good cao A 8 (ReadExpr arr NoUpdate (ConstantExpr (ConstantExpr__alloc (of_nat i) 32)))"
    using a b by (auto simp: good_Read wf_apint_ops v)
  from ReadExpr__create_yields [OF this] show ?thesis by (simp add: v)
qed

lemma bytes_yields:
  assumes "\<And>i. i < 8 \<Longrightarrow> yields cao A 8 (\<lambda>\<sigma>. init_val \<sigma> arr (int i)) (rd (of_nat i :: 64 word))"
  shows "\<exists>e :: nat \<Rightarrow> expr. \<forall>i < 8. rd (of_nat i) = Some (e i) \<and> denotes cao A 8 (\<lambda>\<sigma>. init_val \<sigma> arr (int i)) (e i)"
proof -
  have "\<forall>i. \<exists>e. i < 8 \<longrightarrow> rd (of_nat i) = Some e \<and> denotes cao A 8 (\<lambda>\<sigma>. init_val \<sigma> arr (int i)) e"
    using assms by (auto simp: yields_def)
  from choice [OF this] show ?thesis by blast
qed

lemma createN_bytes_yields:
  assumes "\<forall>i < 8. denotes cao A 8 (\<lambda>\<sigma>. init_val \<sigma> arr (int i)) (e i)" "0 < n" "n \<le> 8"
  shows "yields cao A (8 * n) (\<lambda>\<sigma>. little_endian \<sigma> arr n) (ConcatExpr__createN (rev (map e [0..<n])))"
proof -
  have g: "\<forall>x \<in> set (rev (map e [0..<n])). good cao A 8 x"
    using assms(1,3) by (auto simp: denotes_def)
  have "concat_val 8 (map (den \<sigma>) (rev (map e [0..<n]))) = little_endian \<sigma> arr n" if "A \<sigma>" for \<sigma>
    using assms that by (auto simp: rev_map [symmetric] concat_val_rev little_endian_def denotes_def intro!: sum.cong)
  with ConcatExpr__createN_yields [OF _ g] assms(2) show ?thesis by (auto elim!: yields_cong)
qed

lemma createTempRead_yields:
  assumes a: "wf_array arr" "arr_domain arr = 32" "arr_range arr = 8" and w: "w \<in> {8, 16, 32, 64}"
    and b: "cao \<Longrightarrow> isConstantArray arr \<Longrightarrow> 8 \<le> arr_size arr"
  shows "yields cao A w (\<lambda>\<sigma>. little_endian \<sigma> arr (w div 8)) (createTempRead cao arr w)"
proof -
  let ?rd = "\<lambda>i. ReadExpr__create cao (arr, NoUpdate) (ConstantExpr (ConstantExpr__alloc i 32))"
  have "yields cao A 8 (\<lambda>\<sigma>. init_val \<sigma> arr (int i)) (?rd (of_nat i))" if "i < 8" for i
    by (rule byte_yields [OF a that]) (use b that in auto)
  from bytes_yields [of cao A arr ?rd, OF this]
  obtain e where e: "\<forall>i < 8. ?rd (of_nat i) = Some (e i) \<and> denotes cao A 8 (\<lambda>\<sigma>. init_val \<sigma> arr (int i)) (e i)"
    by blast
  then have rd: "?rd 0 = Some (e 0)" "?rd 1 = Some (e 1)" "?rd 2 = Some (e 2)" "?rd 3 = Some (e 3)"
      "?rd 4 = Some (e 4)" "?rd 5 = Some (e 5)" "?rd 6 = Some (e 6)" "?rd 7 = Some (e 7)"
    using e [rule_format, of 0] e [rule_format, of 1] e [rule_format, of 2] e [rule_format, of 3]
      e [rule_format, of 4] e [rule_format, of 5] e [rule_format, of 6] e [rule_format, of 7] by simp_all
  have n: "yields cao A (8 * n) (\<lambda>\<sigma>. little_endian \<sigma> arr n) (ConcatExpr__createN (rev (map e [0..<n])))"
    if "0 < n" "n \<le> 8" for n
    using createN_bytes_yields [of cao A arr e] e that by blast
  have two: "ConcatExpr__createN [x, y] = ConcatExpr__create x y" for x y
    by (simp add: ConcatExpr__createN_def createN_loop_fun)
  have l: "rev (map e [0..<2]) = [e 1, e 0]" "rev (map e [0..<4]) = [e 3, e 2, e 1, e 0]"
      "rev (map e [0..<8]) = [e 7, e 6, e 5, e 4, e 3, e 2, e 1, e 0]"
    by (simp_all add: upt_conv_Cons eval_nat_numeral)
  from w consider "w = 8" | "w = 16" | "w = 32" | "w = 64" by auto
  then show ?thesis
  proof cases
    case 1
    with n [of 1] rd show ?thesis by (simp add: createTempRead_def ConcatExpr__createN_def Let_def)
  next
    case 2
    with n [of 2] rd two show ?thesis by (simp add: createTempRead_def l)
  next
    case 3
    with n [of 4] rd show ?thesis by (simp add: createTempRead_def ConcatExpr__create4_createN l)
  next
    case 4
    with n [of 8] rd show ?thesis by (simp add: createTempRead_def ConcatExpr__create8_createN l)
  qed
qed

text \<open>
  \<open>rebuild\<close> with kids that denote what the old kids denote gives an expression that
  denotes what the old one denotes.
\<close>

lemma denotes_eqD:
  assumes "denotes cao A w (\<lambda>\<sigma>. den \<sigma> e) e'" "A \<sigma>"
  shows "den \<sigma> e' = den \<sigma> e"
  using assms by (simp add: denotes_def)

lemma rebuild_yields:
  assumes g: "good cao A w e" and nc: "\<not> is_const e"
    and kids: "length kids = getNumKids e"
      "\<forall>i < getNumKids e. denotes cao A (getWidth (getKids e ! i)) (\<lambda>\<sigma>. den \<sigma> (getKids e ! i)) (kids ! i)"
    and d: "\<And>k l r. e = BinaryExpr k l r \<Longrightarrow> is_div k \<Longrightarrow>
        \<forall>c. kids ! 1 = ConstantExpr c \<longrightarrow> getValue c \<noteq> 0"
  shows "yields cao A w (\<lambda>\<sigma>. den \<sigma> e) (rebuild cao e kids)"
proof (cases e)
  case (ConstantExpr c)
  with nc show ?thesis by simp
next
  case (NotOptimizedExpr src)
  with kids g show ?thesis
    by (auto simp: NotOptimizedExpr__create_def denotes_def good_def getNumKids_def)
next
  case (ReadExpr root us index)
  then have k: "denotes cao A (getWidth index) (\<lambda>\<sigma>. den \<sigma> index) (kids ! 0)"
    using kids by (simp add: getNumKids_def)
  then have "good cao A w (ReadExpr root us (kids ! 0))"
    using g ReadExpr denotes_eqD [OF k] denotes_good [OF k] by (auto simp: good_Read good_width)
  from yields_cong [OF ReadExpr__create_yields [OF this]] show ?thesis
    using ReadExpr denotes_eqD [OF k] by simp
next
  case (SelectExpr c t f)
  then have k: "denotes cao A 1 (\<lambda>\<sigma>. den \<sigma> c) (kids ! 0)" "denotes cao A w (\<lambda>\<sigma>. den \<sigma> t) (kids ! 1)"
      "denotes cao A w (\<lambda>\<sigma>. den \<sigma> f) (kids ! 2)"
    using kids(2) [rule_format, of 0] kids(2) [rule_format, of 1] kids(2) [rule_format, of 2] g
    by (auto simp: getNumKids_def good_Select good_width)
  have "yields cao A w (\<lambda>\<sigma>. den \<sigma> e) (SelectExpr__create cao (kids ! 0) (kids ! 1) (kids ! 2))"
    by (rule yields_cong [OF SelectExpr__create_yields [OF k [THEN denotes_good]]])
      (simp add: denotes_eqD [OF k(1)] denotes_eqD [OF k(2)] denotes_eqD [OF k(3)] SelectExpr
        cong: if_cong del: One_nat_def)
  with SelectExpr show ?thesis by simp
next
  case (ConcatExpr l r)
  obtain a b where ab: "w = a + b" "good cao A a l" "good cao A b r" using g ConcatExpr by (auto simp: good_Concat)
  then have k: "denotes cao A a (\<lambda>\<sigma>. den \<sigma> l) (kids ! 0)" "denotes cao A b (\<lambda>\<sigma>. den \<sigma> r) (kids ! 1)"
    using kids(2) [rule_format, of 0] kids(2) [rule_format, of 1] ConcatExpr by (auto simp: getNumKids_def good_width)
  from concat_yields [OF k] show ?thesis using ConcatExpr ab good_width [OF ab(3)] by simp
next
  case (ExtractExpr src off v)
  obtain u where u: "w = v" "0 < v" "off + v \<le> u" "good cao A u src"
    using g ExtractExpr by (auto simp: good_Extract)
  then have k: "denotes cao A u (\<lambda>\<sigma>. den \<sigma> src) (kids ! 0)"
    using kids(2) [rule_format, of 0] ExtractExpr by (auto simp: getNumKids_def good_width)
  from yields_cong [OF ExtractExpr__create_yields [OF denotes_good [OF k] u(2,3)]] show ?thesis
    using ExtractExpr u by (simp add: denotes_eqD [OF k])
next
  case (ZExtExpr src v)
  obtain u where u: "w = v" "u \<le> v" "good cao A u src"
    using g ZExtExpr by (auto simp: good_cast)
  then have k: "denotes cao A u (\<lambda>\<sigma>. den \<sigma> src) (kids ! 0)"
    using kids(2) [rule_format, of 0] ZExtExpr by (auto simp: getNumKids_def good_width)
  have "0 < v" using g u(1) by (auto dest: good_pos)
  moreover have "den \<sigma> src mod 2 ^ v = den \<sigma> src" for \<sigma>
    using in_width_mono [OF good_in_width [OF u(3), of \<sigma>] u(2)] by (simp add: in_width_def)
  ultimately show ?thesis
    using yields_cong [OF ZExtExpr__create_yields [OF denotes_good [OF k]], of v] ZExtExpr u
    by (simp add: denotes_eqD [OF k])
next
  case (SExtExpr src v)
  obtain u where u: "w = v" "u \<le> v" "good cao A u src"
    using g SExtExpr by (auto simp: good_cast)
  then have k: "denotes cao A u (\<lambda>\<sigma>. den \<sigma> src) (kids ! 0)"
    using kids(2) [rule_format, of 0] SExtExpr by (auto simp: getNumKids_def good_width)
  have "0 < v" using g u(1) by (auto dest: good_pos)
  then show ?thesis
    using yields_cong [OF SExtExpr__create_yields [OF denotes_good [OF k]], of v] SExtExpr u
    by (simp add: denotes_eqD [OF k] good_width)
next
  case (NotExpr src)
  then have k: "denotes cao A w (\<lambda>\<sigma>. den \<sigma> src) (kids ! 0)"
    using kids(2) [rule_format, of 0] g by (auto simp: getNumKids_def good_def)
  have "getWidth src = w" using g NotExpr by (simp add: good_def)
  then show ?thesis
    using denotes_cong [OF NotExpr__create_denotes [OF denotes_good [OF k]]] NotExpr
    by (simp add: denotes_eqD [OF k])
next
  case (BinaryExpr k l r)
  then obtain v where v: "w = result_width k v" "good cao A v l" "good cao A v r" using g by auto
  then have kd: "denotes cao A v (\<lambda>\<sigma>. den \<sigma> l) (kids ! 0)" "denotes cao A v (\<lambda>\<sigma>. den \<sigma> r) (kids ! 1)"
    using kids(2) [rule_format, of 0] kids(2) [rule_format, of 1] BinaryExpr by (auto simp: getNumKids_def good_width)
  have "yields cao A w (\<lambda>\<sigma>. bv_op k v (den \<sigma> (kids ! 0)) (den \<sigma> (kids ! 1))) (BinaryExpr__create cao k (kids ! 0) (kids ! 1))"
    unfolding v(1) using d [OF BinaryExpr]
    by (intro BinaryExpr__create_yields kd [THEN denotes_good]) auto
  then show ?thesis
    using BinaryExpr good_width [OF v(2)]
    by (auto simp: denotes_eqD [OF kd(1)] denotes_eqD [OF kd(2), simplified] elim!: yields_cong)
qed

end
