(* ===== verification/Expr_Correct.thy ===== *)
theory Expr_Correct
  imports Expr_Shape_Sound
begin

text \<open>
  What the constructors of expressions guarantee, in terms of values only. In each
  statement \<open>cao\<close> is the flag \<open>ConstArrayOpt\<close>; with it set, values are claimed for
  environments in which reads of constant arrays stay in bounds (\<open>inb\<close>).
\<close>

section \<open>A symbolic array for concrete instances\<close>

definition ex_array :: array where
  "ex_array = \<lparr>arr_addr = 1, arr_name = ''a'', arr_size = 16, arr_domain = 32, arr_range = 8,
     constantValues = []\<rparr>"

definition ex_table :: array where
  "ex_table = \<lparr>arr_addr = 2, arr_name = ''t'', arr_size = 3, arr_domain = 32, arr_range = 8,
     constantValues = [APInt 8 7, APInt 8 9, APInt 8 7]\<rparr>"

definition ex_byte :: "nat \<Rightarrow> expr" where
  "ex_byte i = ReadExpr ex_array NoUpdate (ConstantExpr (APInt 32 (int i mod 16)))"

lemma wf_ex_array [simp]: "wf_array ex_array"
  by (simp add: wf_array_def ex_array_def)

lemma wf_ex_table [simp]: "wf_array ex_table"
  by (simp add: wf_array_def ex_table_def in_width_def)

lemma ex_array_sel [simp]:
  "arr_domain ex_array = 32" "arr_range ex_array = 8" "isConstantArray ex_array = False"
  "arr_size ex_array = 16"
  by (simp_all add: ex_array_def isConstantArray_def isSymbolicArray_def)

lemma ex_byte_simps [simp]: "wf (ex_byte i)" "getWidth (ex_byte i) = 8" "inb \<sigma> (ex_byte i)" "\<not> is_const (ex_byte i)"
  by (simp_all add: ex_byte_def in_width_def)

lemma ex_byte_not_const [simp]: "ex_byte i \<noteq> ConstantExpr c"
  by (simp add: ex_byte_def)

lemma goodI: "wf e \<Longrightarrow> getWidth e = w \<Longrightarrow> (\<And>\<sigma>. cao \<Longrightarrow> A \<sigma> \<Longrightarrow> inb \<sigma> e) \<Longrightarrow> good cao A w e"
  by (simp add: good_def)

lemma yieldsE:
  assumes "yields cao A w f m"
  obtains e where "m = Some e" "wf e" "getWidth e = w" "\<And>\<sigma>. A \<sigma> \<Longrightarrow> den \<sigma> e = f \<sigma>"
    "\<And>\<sigma>. A \<sigma> \<Longrightarrow> cao \<Longrightarrow> inb \<sigma> e"
  using assms by (auto simp: yields_def denotes_def good_def)

section \<open>Binary operations\<close>

text \<open>
  (C2) Every binary constructor (\<open>AddExpr::create\<close> to \<open>SgeExpr::create\<close>), applied to
  well-formed operands of the same width, passes its assertions, terminates with a
  well-formed expression of the width of the operation, and that expression has the value
  of the operation on the values of the operands, whatever folding, reassociation or
  canonicalisation took place. For a division or remainder the divisor must not be the
  constant zero, and the value is claimed where the divisor is not zero.
\<close>

theorem BinaryExpr__create_correct:
  assumes "wf l" "wf r" "getWidth l = getWidth r"
    and "is_div k \<Longrightarrow> \<forall>c. r = ConstantExpr c \<longrightarrow> getValue c \<noteq> 0"
  shows "\<exists>e. BinaryExpr__create cao k l r = Some e \<and> wf e \<and> getWidth e = result_width k (getWidth l)
    \<and> (\<forall>\<sigma>. (cao \<longrightarrow> inb \<sigma> l \<and> inb \<sigma> r) \<longrightarrow> (is_div k \<longrightarrow> den \<sigma> r \<noteq> 0) \<longrightarrow>
          den \<sigma> e = bv_op k (getWidth l) (den \<sigma> l) (den \<sigma> r))"
proof -
  let ?A = "\<lambda>\<sigma>. cao \<longrightarrow> inb \<sigma> l \<and> inb \<sigma> r"
  have "yields cao ?A (result_width k (getWidth l)) (\<lambda>\<sigma>. bv_op k (getWidth l) (den \<sigma> l) (den \<sigma> r))
      (BinaryExpr__create cao k l r)"
    using assms by (intro BinaryExpr__create_yields goodI) auto
  then show ?thesis by (elim yieldsE) auto
qed

theorem BinaryExpr__create_correct_witness:
  "\<exists>e. BinaryExpr__create False Sub (ex_byte 0) (ConstantExpr (APInt 8 3)) = Some e \<and> wf e \<and> getWidth e = 8
    \<and> (\<forall>\<sigma>. den \<sigma> e = (den \<sigma> (ex_byte 0) - 3) mod 256)"
  using BinaryExpr__create_correct [of "ex_byte 0" "ConstantExpr (APInt 8 3)" Sub False]
  by (simp add: in_width_def is_div_def)

section \<open>Bits and widths\<close>

text \<open>
  (C12) \<open>ExtractExpr::create\<close> of bits inside its operand, which pushes the extraction into
  concatenations, returns an expression with the value of those bits.
\<close>

theorem ExtractExpr__create_correct:
  assumes "wf e" "0 < w" "off + w \<le> getWidth e"
  shows "\<exists>e'. ExtractExpr__create e off w = Some e' \<and> wf e' \<and> getWidth e' = w
    \<and> (\<forall>\<sigma>. den \<sigma> e' = (den \<sigma> e div 2 ^ off) mod 2 ^ w)"
proof -
  have "yields False (\<lambda>_. True) w (\<lambda>\<sigma>. bit_slice off w (den \<sigma> e)) (ExtractExpr__create e off w)"
    using assms by (intro ExtractExpr__create_yields [of _ _ "getWidth e"] goodI) auto
  then show ?thesis by (elim yieldsE) (auto simp: bit_slice_def)
qed

theorem ExtractExpr__create_correct_witness:
  "\<exists>e'. ExtractExpr__create (ConcatExpr (ex_byte 1) (ex_byte 0)) 4 8 = Some e' \<and> wf e' \<and> getWidth e' = 8
    \<and> (\<forall>\<sigma>. den \<sigma> e' = ((den \<sigma> (ex_byte 1) * 256 + den \<sigma> (ex_byte 0)) div 16) mod 256)"
  using ExtractExpr__create_correct [of "ConcatExpr (ex_byte 1) (ex_byte 0)" 8 4] by simp



text \<open>
  (C14) \<open>ZExtExpr::create\<close> and \<open>SExtExpr::create\<close> to any positive width return an
  expression of that width whose value is the unsigned, respectively the signed, value of
  the operand, truncated to the width.
\<close>

theorem ext_create_correct:
  assumes "wf e" "0 < w"
  shows "(\<exists>z. ZExtExpr__create e w = Some z \<and> wf z \<and> getWidth z = w \<and> (\<forall>\<sigma>. den \<sigma> z = den \<sigma> e mod 2 ^ w))
    \<and> (\<exists>s. SExtExpr__create e w = Some s \<and> wf s \<and> getWidth s = w
          \<and> (\<forall>\<sigma>. den \<sigma> s = signed_val (getWidth e) (den \<sigma> e) mod 2 ^ w))"
proof -
  have g: "good False (\<lambda>_. True) (getWidth e) e" using assms by (intro goodI) auto
  from ZExtExpr__create_yields [OF g assms(2)] SExtExpr__create_yields [OF g assms(2)]
  show ?thesis by (elim yieldsE) auto
qed

theorem ext_create_correct_witness:
  "(\<exists>z. ZExtExpr__create (ex_byte 0) 4 = Some z \<and> (\<forall>\<sigma>. den \<sigma> z = den \<sigma> (ex_byte 0) mod 16))
    \<and> (\<exists>s. SExtExpr__create (ex_byte 0) 16 = Some s \<and> getWidth s = 16)"
  using ext_create_correct [of "ex_byte 0" 4] ext_create_correct [of "ex_byte 0" 16] by auto

section \<open>Select and Read\<close>

text \<open>
  (C15) \<open>SelectExpr::create\<close> of a Boolean condition and branches of the same width
  returns an expression with the value of the branch the condition selects, also where a
  Boolean selection is turned into a conjunction or a disjunction.
\<close>

theorem SelectExpr__create_correct:
  assumes "wf c" "wf t" "wf f" "getWidth c = 1" "getWidth t = getWidth f"
  shows "\<exists>e. SelectExpr__create cao c t f = Some e \<and> wf e \<and> getWidth e = getWidth t
    \<and> (\<forall>\<sigma>. (cao \<longrightarrow> inb \<sigma> c \<and> inb \<sigma> t \<and> inb \<sigma> f) \<longrightarrow>
          den \<sigma> e = (if den \<sigma> c \<noteq> 0 then den \<sigma> t else den \<sigma> f))"
proof -
  let ?A = "\<lambda>\<sigma>. cao \<longrightarrow> inb \<sigma> c \<and> inb \<sigma> t \<and> inb \<sigma> f"
  have "yields cao ?A (getWidth t) (\<lambda>\<sigma>. if den \<sigma> c \<noteq> 0 then den \<sigma> t else den \<sigma> f) (SelectExpr__create cao c t f)"
    using assms by (intro SelectExpr__create_yields goodI) auto
  then show ?thesis by (elim yieldsE) auto
qed

theorem SelectExpr__create_correct_witness:
  "\<exists>e. SelectExpr__create False (BinaryExpr Eq (ex_byte 0) (ex_byte 1)) (ex_byte 2) (ex_byte 3) = Some e
    \<and> (\<forall>\<sigma>. den \<sigma> e = (if den \<sigma> (ex_byte 0) = den \<sigma> (ex_byte 1) then den \<sigma> (ex_byte 2) else den \<sigma> (ex_byte 3)))"
  using SelectExpr__create_correct [of "BinaryExpr Eq (ex_byte 0) (ex_byte 1)" "ex_byte 2" "ex_byte 3" False]
  by (auto cong: if_cong)

text \<open>
  (C16) \<open>ReadExpr::create\<close> of a well-formed update list and index returns an expression
  with the value at the index after all updates, although it skips updates of other
  concrete indices, stops at the first one with a symbolic index and looks constants up.
\<close>

theorem ReadExpr__create_correct:
  assumes "wf_array root" "wf_upd root us" "wf index" "getWidth index = arr_domain root"
  shows "\<exists>e. ReadExpr__create cao (root, us) index = Some e \<and> wf e \<and> getWidth e = arr_range root
    \<and> (\<forall>\<sigma>. (cao \<longrightarrow> inb \<sigma> (ReadExpr root us index)) \<longrightarrow> den \<sigma> e = den_upd \<sigma> root us (den \<sigma> index))"
proof -
  let ?A = "\<lambda>\<sigma>. cao \<longrightarrow> inb \<sigma> (ReadExpr root us index)"
  have "yields cao ?A (arr_range root) (\<lambda>\<sigma>. den \<sigma> (ReadExpr root us index)) (ReadExpr__create cao (root, us) index)"
    using assms by (intro ReadExpr__create_yields goodI) auto
  then show ?thesis by (elim yieldsE) auto
qed

theorem ReadExpr__create_correct_witness:
  "\<exists>e. ReadExpr__create False
       (ex_array, UpdateNode (ConstantExpr (APInt 32 5)) (ex_byte 1) (UpdateNode (ConstantExpr (APInt 32 4)) (ex_byte 2) NoUpdate))
       (ConstantExpr (APInt 32 4)) = Some e
    \<and> (\<forall>\<sigma>. den \<sigma> e = den \<sigma> (ex_byte 2))"
  using ReadExpr__create_correct [of ex_array
      "UpdateNode (ConstantExpr (APInt 32 5)) (ex_byte 1) (UpdateNode (ConstantExpr (APInt 32 4)) (ex_byte 2) NoUpdate)"
      "ConstantExpr (APInt 32 4)" False]
  by (auto simp: in_width_def)

text \<open>
  (C17) \<open>Expr::createTempRead\<close> of 8, 16, 32 or 64 bits on an array of bytes is the
  little-endian value of its first bytes.
\<close>

theorem createTempRead_correct:
  assumes "wf_array arr" "arr_domain arr = 32" "arr_range arr = 8" "w \<in> {8, 16, 32, 64}"
    and "cao \<Longrightarrow> isConstantArray arr \<Longrightarrow> 8 \<le> arr_size arr"
  shows "\<exists>e. createTempRead cao arr w = Some e \<and> wf e \<and> getWidth e = w
    \<and> (\<forall>\<sigma>. den \<sigma> e = (\<Sum>i < w div 8. init_val \<sigma> arr (int i) * 2 ^ (8 * i)))"
proof -
  have "yields cao (\<lambda>_. True) w (\<lambda>\<sigma>. little_endian \<sigma> arr (w div 8)) (createTempRead cao arr w)"
    using assms by (intro createTempRead_yields) auto
  then show ?thesis by (elim yieldsE) (auto simp: little_endian_def)
qed

theorem createTempRead_correct_witness:
  "\<exists>e. createTempRead False ex_array 32 = Some e \<and> wf e \<and> getWidth e = 32
    \<and> (\<forall>\<sigma>. den \<sigma> e = (\<Sum>i < 4. init_val \<sigma> ex_array (int i) * 2 ^ (8 * i)))"
  using createTempRead_correct [of ex_array 32 False] by simp



section \<open>Comparison\<close>

text \<open>
  (C19) \<open>Expr::compare\<close> is a total order: swapping the arguments changes the sign of the
  answer, and the order is transitive.
\<close>

theorem Expr__compare_total_order:
  "Expr__compare hv b a = - Expr__compare hv a b
   \<and> (Expr__compare hv a b \<le> 0 \<longrightarrow> Expr__compare hv b c \<le> 0 \<longrightarrow> Expr__compare hv a c \<le> 0)
   \<and> (Expr__compare hv a b < 0 \<longrightarrow> Expr__compare hv b c \<le> 0 \<longrightarrow> Expr__compare hv a c < 0)"
  using Expr__compare_antisym_aux(1) [of hv b a] Expr__compare_trans_aux(1) [of hv a b c]
    Expr__compare_trans_aux(1) [of hv b c a] Expr__compare_antisym_aux(1) [of hv c a]
    Expr__compare_antisym_aux(1) [of hv c b]
  by (auto simp: cmp_trans_def)

theorem Expr__compare_total_order_witness:
  "Expr__compare (\<lambda>_. 0) (ConstantExpr (APInt 8 1)) (ConstantExpr (APInt 16 1))
     = - Expr__compare (\<lambda>_. 0) (ConstantExpr (APInt 16 1)) (ConstantExpr (APInt 8 1))"
  using Expr__compare_total_order [of "\<lambda>_. 0" "ConstantExpr (APInt 8 1)" "ConstantExpr (APInt 16 1)"] by simp

text \<open>
  (C20) \<open>Expr::compare\<close> answers 0 exactly on structurally equal expressions, provided
  that no two arrays of the expressions share an address.
\<close>

theorem Expr__compare_eq_iff:
  assumes "inj_on arr_addr (arrays a \<union> arrays b)"
  shows "Expr__compare hv a b = 0 \<longleftrightarrow> a = b"
  using Expr__compare_eq_aux(1) [OF assms, of a b hv] Expr__compare_refl [of hv a] by auto

theorem Expr__compare_eq_iff_witness:
  "Expr__compare (\<lambda>_. 0) (ex_byte 0) (ex_byte 1) \<noteq> 0"
  using Expr__compare_eq_iff [of "ex_byte 0" "ex_byte 1" "\<lambda>_. 0"] by (simp add: ex_byte_def)

section \<open>Memory images of constants\<close>

lemma create_word_eq:
  assumes "wf_apint c" "getBitWidth c \<le> 64"
  shows "ConstantExpr__create (word_of_int (getValue c)) (getBitWidth c) = Some c" "uint (word_of_int (getValue c) :: 64 word) = getValue c"
proof -
  let ?w = "getBitWidth c"
  have v: "0 \<le> getValue c" "getValue c < 2 ^ ?w" using assms(1) by (auto simp: wf_apint_def in_width_def)
  have "(2 :: int) ^ ?w \<le> 2 ^ 64" using assms(2) by (intro power_increasing) auto
  with v have "getValue c < 2 ^ 64" by linarith
  with v show u: "uint (word_of_int (getValue c) :: 64 word) = getValue c"
    by (simp add: uint_word_of_int)
  have t: "take_bit ?w (getValue c) = getValue c" using assms(1) by (simp add: wf_apint_def in_width_take_bit_eq)
  then have "take_bit ?w (word_of_int (getValue c) :: 64 word) = word_of_int (getValue c)"
    by (metis u unsigned_take_bit_eq word_of_int_uint)
  then show "ConstantExpr__create (word_of_int (getValue c)) ?w = Some c"
    using wf_apint_pos [OF assms(1)] by (simp add: ConstantExpr__create_eq ConstantExpr__alloc_def u t)
qed

lemma toMemory_narrow:
  assumes "wf_apint c" "getBitWidth c \<in> {1, 8, 16, 32, 64}"
  shows "toMemory c m = write_mem m (bytes_of ((getBitWidth c + 7) div 8) (getValue c))"
  using assms create_word_eq(2) [OF assms(1)]
  by (auto simp: toMemory_def getZExtValue_def simp del: bytes_of.simps)

lemma fromMemory_narrow:
  assumes "w \<in> {1, 8, 16, 32, 64}"
  shows "fromMemory m w = read_mem m ((w + 7) div 8) \<bind> (\<lambda>v. ConstantExpr__create (word_of_int v) w)"
  using assms by (auto simp: fromMemory_def)
lemma toMemory_wide:
  assumes "getBitWidth c \<in> {128, 256, 512}"
  shows "toMemory c m = write_mem m (bytes_of ((getBitWidth c + 7) div 8) (getValue c))"
  using assms by (auto simp: toMemory_def simp del: bytes_of.simps)

lemma fromMemory_wide:
  assumes "w \<in> {128, 256, 512}"
  shows "fromMemory m w = read_mem m ((w + 7) div 8) \<bind> (\<lambda>v. Some (APInt w (take_bit w v)))"
  using assms by (auto simp: fromMemory_def)

lemma of_bytes_of_constant:
  assumes "wf_apint c"
  shows "of_bytes (bytes_of ((getBitWidth c + 7) div 8) (getValue c)) = getValue c"
proof -
  have "getValue c < 2 ^ getBitWidth c" using assms by (simp add: wf_apint_def in_width_def)
  also have "\<dots> \<le> 2 ^ (8 * ((getBitWidth c + 7) div 8))"
    by (intro power_increasing) auto
  finally show ?thesis using assms by (simp add: of_bytes_of wf_apint_def in_width_def)
qed

text \<open>
  (C21) A constant of a width that has a memory image (1, 8, 16, 32, 64, 128, 256 or 512
  bits), stored by \<open>ConstantExpr::toMemory\<close> into a buffer that is long enough, changes
  only its own bytes and is read back by \<open>ConstantExpr::fromMemory\<close>.
\<close>

theorem toMemory_fromMemory:
  assumes "wf_apint c" "getBitWidth c \<in> {1, 8, 16, 32, 64, 128, 256, 512}"
    and "(getBitWidth c + 7) div 8 \<le> length m"
  shows "\<exists>m'. toMemory c m = Some m' \<and> length m' = length m
    \<and> drop ((getBitWidth c + 7) div 8) m' = drop ((getBitWidth c + 7) div 8) m
    \<and> fromMemory m' (getBitWidth c) = Some c"
proof -
  let ?n = "(getBitWidth c + 7) div 8" and ?w = "getBitWidth c"
  let ?m = "bytes_of ?n (getValue c) @ drop ?n m"
  have narrow: "?w \<in> {1, 8, 16, 32, 64} \<or> ?w \<in> {128, 256, 512}" using assms(2) by blast
  then have "toMemory c m = write_mem m (bytes_of ?n (getValue c))"
    using toMemory_narrow [OF assms(1)] toMemory_wide by blast
  then have "toMemory c m = Some ?m" using assms(3) by (simp add: write_mem_def del: bytes_of.simps)
  moreover have rd: "read_mem ?m ?n = Some (getValue c)"
    using of_bytes_of_constant [OF assms(1)] by (simp add: read_mem_def del: bytes_of.simps)
  have "fromMemory ?m ?w = Some c"
    using narrow
  proof
    assume n: "?w \<in> {1, 8, 16, 32, 64}"
    then have "?w \<le> 64" by auto
    from create_word_eq(1) [OF assms(1) this] show ?thesis by (simp only: fromMemory_narrow [OF n] rd Option.bind.bind_lunit)
  next
    assume "?w \<in> {128, 256, 512}"
    then show ?thesis
      using in_width_take_bit_eq [OF wf_apint_in_width [OF assms(1)]]
      by (simp only: fromMemory_wide rd Option.bind.bind_lunit) (cases c; simp)
  qed
  ultimately show ?thesis using assms(3) by (auto simp del: bytes_of.simps)
qed

theorem toMemory_fromMemory_witness:
  "\<exists>m'. toMemory (APInt 16 513) [0, 0, 0] = Some m' \<and> fromMemory m' 16 = Some (APInt 16 513)"
  using toMemory_fromMemory [of "APInt 16 513" "[0, 0, 0]"] by (auto simp: in_width_def)

section \<open>Hashes of arrays\<close>

text \<open>
  The hash of an array depends on its name and size only, so arrays that differ in their
  index width or element width collide.
\<close>

lemma Array__computeHash_domain_range:
  "Array__computeHash (a\<lparr>arr_domain := d, arr_range := r\<rparr>) = Array__computeHash a"
  by (simp add: Array__computeHash_def)

end
