(* ===== verification/Expr_Visitor.thy ===== *)
theory Expr_Visitor
  imports Expr_Correct
begin

text \<open>
  The traversal of expressions of \<open>lib/Expr/ExprVisitor.cpp\<close>. A visitor is the record
  of the virtual functions a subclass overrides; its state is the memo table
  \<open>visited\<close> with whatever the subclass keeps (\<open>sub\<close>). A hook gets \<open>visit\<close> as an
  argument, because the hooks of the source call it. The depth of the calls is bounded by
  fuel; \<open>None\<close> is a failed assertion or exhausted fuel.

  The locale \<open>visitor_sound\<close> states what the hooks of a visitor have to promise for
  its traversal to keep the value of every expression.
\<close>

section \<open>Actions and visitors\<close>

datatype action = SkipChildren | DoChildren | ChangeTo expr

record 's vstate =
  visited :: "(expr \<times> expr) list"
  sub :: 's

type_synonym 's visit = "expr \<Rightarrow> 's vstate \<Rightarrow> (expr \<times> 's vstate) option"
type_synonym 's hook = "'s visit \<Rightarrow> expr \<Rightarrow> 's vstate \<Rightarrow> (action \<times> 's vstate) option"

record 's visitor =
  recursive :: bool
  visitExpr :: "'s hook"
  visitKind :: "'s hook"
  visitExprPost :: "'s hook"

text \<open>The default hooks of the base class.\<close>

definition ExprVisitor__visitExpr :: "'s hook" where
  "ExprVisitor__visitExpr vis e s = Some (DoChildren, s)"

definition ExprVisitor__visitKind :: "'s hook" where
  "ExprVisitor__visitKind vis e s = Some (DoChildren, s)"

definition ExprVisitor__visitExprPost :: "'s hook" where
  "ExprVisitor__visitExprPost vis e s = Some (SkipChildren, s)"

section \<open>The traversal\<close>

fun visitKids :: "'s visit \<Rightarrow> expr list \<Rightarrow> 's vstate \<Rightarrow> (expr list \<times> 's vstate) option" where
  "visitKids vis [] s = Some ([], s)"
| "visitKids vis (kid # kids) s = do {
     (k, s) \<leftarrow> vis kid s;
     (ks, s) \<leftarrow> visitKids vis kids s;
     Some (k # ks, s)
   }"

text \<open>The part of \<open>visitActual\<close> for \<open>DoChildren\<close>.\<close>

definition visitChildren :: "bool \<Rightarrow> 's visitor \<Rightarrow> 's visit \<Rightarrow> 's visit" where
  "visitChildren cao V vis ep s = do {
     (kids, s) \<leftarrow> visitKids vis (getKids ep) s;
     (e, s) \<leftarrow>
       (if kids \<noteq> getKids ep then do {
          e \<leftarrow> rebuild cao ep kids;
          if recursive V then vis e s else Some (e, s)
        }
        else Some (ep, s));
     if is_const e then Some (e, s)
     else do {
       (res, s) \<leftarrow> visitExprPost V vis e s;
       Some (case res of ChangeTo argument \<Rightarrow> argument | _ \<Rightarrow> e, s)
     }
   }"

definition visitActual :: "bool \<Rightarrow> 's visitor \<Rightarrow> 's visit \<Rightarrow> 's visit" where
  "visitActual cao V vis e s =
     (if is_const e then Some (e, s)
      else do {
        (res, s) \<leftarrow> visitExpr V vis e s;
        (case res of
           SkipChildren \<Rightarrow> Some (e, s)
         | ChangeTo argument \<Rightarrow> Some (argument, s)
         | DoChildren \<Rightarrow> do {
             (res, s) \<leftarrow> visitKind V vis e s;
             (case res of
                DoChildren \<Rightarrow> visitChildren cao V vis e s
              | SkipChildren \<Rightarrow> Some (e, s)
              | ChangeTo argument \<Rightarrow> Some (argument, s))
           })
      })"

text \<open>\<open>visited.insert\<close> keeps the entry of a key that is there already.\<close>

definition insert_absent :: "'k \<Rightarrow> 'v \<Rightarrow> ('k \<times> 'v) list \<Rightarrow> ('k \<times> 'v) list" where
  "insert_absent k v m = (case map_of m k of None \<Rightarrow> (k, v) # m | Some _ \<Rightarrow> m)"

primrec visit :: "bool \<Rightarrow> bool \<Rightarrow> 's visitor \<Rightarrow> nat \<Rightarrow> 's visit" where
  "visit cao UseVisitorHash V 0 e s = None"
| "visit cao UseVisitorHash V (Suc n) e s =
     (if \<not> UseVisitorHash \<or> is_const e
      then visitActual cao V (visit cao UseVisitorHash V n) e s
      else (case map_of (visited s) e of
          Some r \<Rightarrow> Some (r, s)
        | None \<Rightarrow> do {
            (res, s) \<leftarrow> visitActual cao V (visit cao UseVisitorHash V n) e s;
            Some (res, s\<lparr>visited := insert_absent e res (visited s)\<rparr>)
          }))"

section \<open>Rebuilding, without a condition on divisors\<close>

text \<open>
  The constructor of a division of two constants with a zero divisor does not return;
  every other division by the constant zero is kept as an expression.
\<close>

lemma BinaryExpr__create_div_zero:
  assumes g: "good cao A w l" "good cao A w (ConstantExpr c)" and k: "is_div k" and c: "getValue c = 0"
    and e: "BinaryExpr__create cao k l (ConstantExpr c) = Some e"
  shows "denotes cao A w (\<lambda>\<sigma>. bv_op k w (den \<sigma> l) 0) e"
proof (cases l)
  case (ConstantExpr cl)
  with e k c show ?thesis
    by (auto simp: is_div_def UDivExpr__create_def SDivExpr__create_def URemExpr__create_def
        SRemExpr__create_def BCREATE_def ConstantExpr__UDiv_def ConstantExpr__SDiv_def
        ConstantExpr__URem_def ConstantExpr__SRem_def assert_that_bind split: if_splits)
qed (use e k c is_div_create_yields [OF g] in \<open>auto simp: is_div_def UDivExpr__create_def SDivExpr__create_def
    URemExpr__create_def SRemExpr__create_def BCREATE_def assert_that_bind simp del: bv_op.simps split: if_splits\<close>)

lemma BinaryExpr__create_partial:
  assumes "good cao A w l" "good cao A w r" "BinaryExpr__create cao k l r = Some e"
  shows "denotes cao A (result_width k w) (\<lambda>\<sigma>. bv_op k w (den \<sigma> l) (den \<sigma> r)) e"
proof (cases "is_div k \<and> (\<exists>c. r = ConstantExpr c \<and> getValue c = 0)")
  case True
  then obtain c where c: "r = ConstantExpr c" "getValue c = 0" "is_div k" by auto
  then have "\<not> is_cmp k" by (auto simp: is_div_def)
  with BinaryExpr__create_div_zero [of cao A w l c k e] assms c show ?thesis by simp
next
  case False
  with BinaryExpr__create_yields [OF assms(1,2), of k] assms(3) show ?thesis by auto
qed

lemma rebuild_partial:
  assumes g: "good cao A w e" and nc: "\<not> is_const e"
    and kids: "list_all2 (\<lambda>k k'. denotes cao A (getWidth k) (\<lambda>\<sigma>. den \<sigma> k) k') (getKids e) kids"
    and e': "rebuild cao e kids = Some e'"
  shows "denotes cao A w (\<lambda>\<sigma>. den \<sigma> e) e'"
proof (cases "\<exists>k l r. e = BinaryExpr k l r")
  case True
  then obtain k l r where e: "e = BinaryExpr k l r" by auto
  with kids obtain l' r' where kk: "kids = [l', r']" by (auto simp: list_all2_Cons1)
  obtain v where v: "good cao A v l" "good cao A v r" "w = result_width k v" using g e by auto
  with kids e kk have d: "denotes cao A v (\<lambda>\<sigma>. den \<sigma> l) l'" "denotes cao A v (\<lambda>\<sigma>. den \<sigma> r) r'"
    by (auto simp: good_width)
  have "denotes cao A w (\<lambda>\<sigma>. bv_op k v (den \<sigma> l') (den \<sigma> r')) e'"
    using BinaryExpr__create_partial [OF denotes_good [OF d(1)] denotes_good [OF d(2)]] e' e kk v(3) by simp
  then show ?thesis
    using d v e by (auto simp: denotes_def good_width)
next
  case False
  have "yields cao A w (\<lambda>\<sigma>. den \<sigma> e) (rebuild cao e kids)"
    using False kids by (intro rebuild_yields [OF g nc])
      (auto simp: getNumKids_def list_all2_conv_all_nth)
  with e' show ?thesis by simp
qed

section \<open>Constants fold\<close>

lemma BCREATE_R_fold: "is_const l \<Longrightarrow> is_const r \<Longrightarrow> BCREATE_R k pR pL f l r = Some e \<Longrightarrow> is_const e"
  by (auto simp: BCREATE_R_def is_const_iff assert_that_bind split: if_splits)

lemma BCREATE_fold: "is_const l \<Longrightarrow> is_const r \<Longrightarrow> BCREATE k f l r = Some e \<Longrightarrow> is_const e"
  by (auto simp: BCREATE_def is_const_iff assert_that_bind split: if_splits)

lemma EqExpr__create_fold: "is_const l \<Longrightarrow> is_const r \<Longrightarrow> EqExpr__create cao l r = Some e \<Longrightarrow> is_const e"
  by (subst (asm) EqExpr__create.simps) (rule BCREATE_R_fold)

lemma BinaryExpr__create_fold:
  assumes "is_const l" "is_const r" "BinaryExpr__create cao k l r = Some e"
  shows "is_const e"
proof (cases "k = Ne")
  case True
  with assms show ?thesis
    by (auto simp: NeExpr__create_def bind_eq_Some_conv dest: EqExpr__create_fold
        intro: EqExpr__create_fold [where l = "ConstantExpr _"])
next
  case False
  with assms show ?thesis
    by (cases k) (auto simp: AddExpr__create.simps SubExpr__create.simps MulExpr__create_def
        UDivExpr__create_def SDivExpr__create_def URemExpr__create_def SRemExpr__create_def
        AndExpr__create_def OrExpr__create_def XorExpr__create_def ShlExpr__create_def
        LShrExpr__create_def AShrExpr__create_def UltExpr__create_def UleExpr__create_def
        SltExpr__create_def SleExpr__create_def UgtExpr__create_def UgeExpr__create_def
        SgtExpr__create_def SgeExpr__create_def
        dest: BCREATE_R_fold BCREATE_fold EqExpr__create_fold)
qed

lemma rebuild_fold:
  assumes "\<not> is_const e" "getKind e \<noteq> NotOptimized" "getKind e \<noteq> Read"
    and "length kids = getNumKids e" "\<forall>k \<in> set kids. is_const k" "rebuild cao e kids = Some e'"
  shows "is_const e'"
proof (cases e)
  case (BinaryExpr k l r)
  with assms show ?thesis
    by (auto simp: getNumKids_def length_Suc_conv dest!: BinaryExpr__create_fold [rotated 2])
qed (use assms in \<open>auto simp: getNumKids_def length_Suc_conv is_const_iff SelectExpr__create_def
    ConcatExpr__create.simps [of "ConstantExpr _"] ExtractExpr__create.simps [of "ConstantExpr _"] ZExtExpr__create_def
    SExtExpr__create_def NotExpr__create_def Let_def assert_that_bind numeral_2_eq_2 split: if_splits\<close>)

section \<open>Visitors that keep values\<close>

text \<open>
  On the environments of \<open>A\<close>: the entries of the memo table, the results of a
  traversal and the replacements of the hooks have the value of the expression they stand
  for. \<open>I\<close> is an invariant of the state of the subclass, \<open>P\<close> a condition on the
  expressions a traversal starts from.
\<close>

definition keeps :: "bool \<Rightarrow> (env \<Rightarrow> bool) \<Rightarrow> expr \<Rightarrow> expr \<Rightarrow> bool" where
  "keeps cao A e r \<longleftrightarrow> (\<forall>w. good cao A w e \<longrightarrow> denotes cao A w (\<lambda>\<sigma>. den \<sigma> e) r)"

definition state_ok :: "bool \<Rightarrow> (env \<Rightarrow> bool) \<Rightarrow> ('s \<Rightarrow> bool) \<Rightarrow> 's vstate \<Rightarrow> bool" where
  "state_ok cao A I s \<longleftrightarrow> (\<forall>(e, r) \<in> set (visited s). keeps cao A e r) \<and> I (sub s)"

definition visit_ok ::
  "bool \<Rightarrow> (env \<Rightarrow> bool) \<Rightarrow> ('s \<Rightarrow> bool) \<Rightarrow> (expr \<Rightarrow> bool) \<Rightarrow> 's visit \<Rightarrow> bool" where
  "visit_ok cao A I P vis \<longleftrightarrow> (\<forall>w e s r s'. good cao A w e \<longrightarrow> P e \<longrightarrow> state_ok cao A I s \<longrightarrow>
     vis e s = Some (r, s') \<longrightarrow> keeps cao A e r \<and> state_ok cao A I s')"

definition hook_ok ::
  "bool \<Rightarrow> (env \<Rightarrow> bool) \<Rightarrow> ('s \<Rightarrow> bool) \<Rightarrow> (expr \<Rightarrow> bool) \<Rightarrow> (expr \<Rightarrow> bool) \<Rightarrow> 's hook \<Rightarrow> bool" where
  "hook_ok cao A I P Q h \<longleftrightarrow> (\<forall>vis w e s a s'. visit_ok cao A I P vis \<longrightarrow> good cao A w e \<longrightarrow>
     Q e \<longrightarrow> \<not> is_const e \<longrightarrow> state_ok cao A I s \<longrightarrow> h vis e s = Some (a, s') \<longrightarrow>
     state_ok cao A I s' \<and> (\<forall>x. a = ChangeTo x \<longrightarrow> keeps cao A e x))"

lemma keeps_refl [simp]: "keeps cao A e e"
  by (simp add: keeps_def denotes_self)

lemma keepsD: "keeps cao A e r \<Longrightarrow> good cao A w e \<Longrightarrow> denotes cao A w (\<lambda>\<sigma>. den \<sigma> e) r"
  by (simp add: keeps_def)

lemma keepsI: "good cao A w e \<Longrightarrow> denotes cao A w (\<lambda>\<sigma>. den \<sigma> e) r \<Longrightarrow> keeps cao A e r"
  by (auto simp: keeps_def good_def)

lemma keeps_good: "keeps cao A e r \<Longrightarrow> good cao A w e \<Longrightarrow> good cao A w r"
  by (blast dest: keepsD denotes_good)

lemma keeps_trans:
  assumes "keeps cao A e r" "keeps cao A r q"
  shows "keeps cao A e q"
  unfolding keeps_def
proof (intro allI impI)
  fix w assume g: "good cao A w e"
  from keepsD [OF assms(2) keeps_good [OF assms(1) g]]
  show "denotes cao A w (\<lambda>\<sigma>. den \<sigma> e) q"
    by (rule denotes_cong) (rule denotes_den [OF keepsD [OF assms(1) g]])
qed

lemma visit_okD:
  assumes "visit_ok cao A I P vis" "vis e s = Some (r, s')" "good cao A w e" "P e" "state_ok cao A I s"
  shows "keeps cao A e r" "state_ok cao A I s'"
  using assms unfolding visit_ok_def by blast+

lemma hook_okD:
  assumes "hook_ok cao A I P Q h" "visit_ok cao A I P vis" "h vis e s = Some (a, s')"
    "good cao A w e" "Q e" "\<not> is_const e" "state_ok cao A I s"
  shows "state_ok cao A I s'" "a = ChangeTo x \<Longrightarrow> keeps cao A e x"
  using assms unfolding hook_ok_def by blast+

lemma default_hooks_ok [simp]:
  "hook_ok cao A I P Q ExprVisitor__visitExpr" "hook_ok cao A I P Q ExprVisitor__visitKind"
  "hook_ok cao A I P Q ExprVisitor__visitExprPost"
  by (simp_all add: hook_ok_def ExprVisitor__visitExpr_def ExprVisitor__visitKind_def
      ExprVisitor__visitExprPost_def)

lemma good_kids: "good cao A w e \<Longrightarrow> k \<in> set (getKids e) \<Longrightarrow> good cao A (getWidth k) k"
  by (cases e) (auto simp: good_def)

lemma visitKids_ok:
  assumes v: "visit_ok cao A I P vis"
  shows "visitKids vis es s = Some (rs, s') \<Longrightarrow> \<forall>e \<in> set es. good cao A (getWidth e) e \<and> P e \<Longrightarrow>
    state_ok cao A I s \<Longrightarrow>
    list_all2 (\<lambda>e r. denotes cao A (getWidth e) (\<lambda>\<sigma>. den \<sigma> e) r) es rs \<and> state_ok cao A I s'"
proof (induction es arbitrary: s rs)
  case (Cons e es)
  then obtain k s1 ks where k: "vis e s = Some (k, s1)" "visitKids vis es s1 = Some (ks, s')" "rs = k # ks"
    by (auto simp: bind_eq_Some_conv)
  with visit_okD [OF v k(1)] Cons.prems(2,3) have "keeps cao A e k" "state_ok cao A I s1" by auto
  with Cons k show ?case by (auto dest: keepsD)
qed simp

locale visitor_sound =
  fixes cao :: bool and A :: "env \<Rightarrow> bool" and I :: "'s \<Rightarrow> bool" and P :: "expr \<Rightarrow> bool"
    and V :: "'s visitor"
  assumes P_kids: "P e \<Longrightarrow> k \<in> set (getKids e) \<Longrightarrow> P k"
    and recursive_all: "recursive V \<Longrightarrow> P e"
    and visitExpr: "hook_ok cao A I P P (visitExpr V)"
    and visitKind: "hook_ok cao A I P P (visitKind V)"
    and visitExprPost: "hook_ok cao A I P (\<lambda>_. True) (visitExprPost V)"
begin

lemma rebuilt_ok:
  assumes v: "visit_ok cao A I P vis" and g: "good cao A w e" and nc: "\<not> is_const e"
    and kids: "list_all2 (\<lambda>k k'. denotes cao A (getWidth k) (\<lambda>\<sigma>. den \<sigma> k) k') (getKids e) kids"
    and s: "state_ok cao A I s"
    and r: "(if kids \<noteq> getKids e then rebuild cao e kids \<bind> (\<lambda>e. if recursive V then vis e s else Some (e, s))
         else Some (e, s)) = Some (r, s')"
  shows "keeps cao A e r \<and> state_ok cao A I s'"
proof (cases "kids = getKids e")
  case True
  with r s show ?thesis by simp
next
  case False
  with r obtain e1 where e1: "rebuild cao e kids = Some e1"
      "(if recursive V then vis e1 s else Some (e1, s)) = Some (r, s')"
    by (auto simp: bind_eq_Some_conv)
  then have d: "denotes cao A w (\<lambda>\<sigma>. den \<sigma> e) e1" by (intro rebuild_partial [OF g nc kids])
  with g have k: "keeps cao A e e1" by (intro keepsI)
  show ?thesis
  proof (cases "recursive V")
    case True
    with e1 visit_okD [OF v _ denotes_good [OF d] recursive_all s] keeps_trans [OF k] show ?thesis by auto
  next
    case False
    with e1 k s show ?thesis by auto
  qed
qed

lemma visitChildren_ok:
  assumes v: "visit_ok cao A I P vis" and g: "good cao A w e" and p: "P e" and nc: "\<not> is_const e"
    and s: "state_ok cao A I s" and r: "visitChildren cao V vis e s = Some (r, s')"
  shows "keeps cao A e r \<and> state_ok cao A I s'"
proof -
  obtain kids s1 e2 s2 where k: "visitKids vis (getKids e) s = Some (kids, s1)"
    and e2: "(if kids \<noteq> getKids e then rebuild cao e kids \<bind> (\<lambda>e. if recursive V then vis e s1 else Some (e, s1))
         else Some (e, s1)) = Some (e2, s2)"
    and post: "(if is_const e2 then Some (e2, s2) else visitExprPost V vis e2 s2 \<bind>
        (\<lambda>(res, s). Some (case res of ChangeTo argument \<Rightarrow> argument | _ \<Rightarrow> e2, s))) = Some (r, s')"
    using r by (auto simp: visitChildren_def bind_eq_Some_conv)
  from visitKids_ok [OF v k] good_kids [OF g] P_kids [OF p] s
  have kids: "list_all2 (\<lambda>k k'. denotes cao A (getWidth k) (\<lambda>\<sigma>. den \<sigma> k) k') (getKids e) kids"
    and s1: "state_ok cao A I s1" by auto
  from rebuilt_ok [OF v g nc kids s1 e2] have 2: "keeps cao A e e2" "state_ok cao A I s2" by auto
  show ?thesis
  proof (cases "is_const e2")
    case True
    with post 2 show ?thesis by simp
  next
    case False
    with post obtain a where a: "visitExprPost V vis e2 s2 = Some (a, s')"
        "r = (case a of ChangeTo argument \<Rightarrow> argument | _ \<Rightarrow> e2)"
      by (auto simp: bind_eq_Some_conv)
    note h = hook_okD [OF visitExprPost v a(1) keeps_good [OF 2(1) g] TrueI False 2(2)]
    from h a(2) 2 show ?thesis by (cases a) (auto intro: keeps_trans)
  qed
qed

lemma visitActual_ok:
  assumes v: "visit_ok cao A I P vis" and g: "good cao A w e" and p: "P e"
    and s: "state_ok cao A I s" and r: "visitActual cao V vis e s = Some (r, s')"
  shows "keeps cao A e r \<and> state_ok cao A I s'"
proof (cases "is_const e")
  case True
  with r s show ?thesis by (simp add: visitActual_def)
next
  case False
  with r obtain a s1 where a: "visitExpr V vis e s = Some (a, s1)"
    by (auto simp: visitActual_def bind_eq_Some_conv)
  note h = hook_okD [OF visitExpr v a g p False s]
  show ?thesis
  proof (cases a)
    case DoChildren
    with r a False obtain b s2 where b: "visitKind V vis e s1 = Some (b, s2)"
      by (auto simp: visitActual_def bind_eq_Some_conv)
    note h2 = hook_okD [OF visitKind v b g p False h(1)]
    with visitChildren_ok [OF v g p False h2(1)] r a b False DoChildren show ?thesis
      by (cases b) (auto simp: visitActual_def)
  qed (use r a False h in \<open>auto simp: visitActual_def\<close>)
qed

lemma visit_sound: "visit_ok cao A I P (visit cao uvh V n)"
proof (induction n)
  case 0
  then show ?case by (simp add: visit_ok_def)
next
  case (Suc n)
  show ?case unfolding visit_ok_def
  proof (intro allI impI)
    fix w e s r s'
    assume g: "good cao A w e" and p: "P e" and s: "state_ok cao A I s"
      and r: "visit cao uvh V (Suc n) e s = Some (r, s')"
    note ok = visitActual_ok [OF Suc g p s]
    show "keeps cao A e r \<and> state_ok cao A I s'"
    proof (cases "uvh \<and> \<not> is_const e")
      case False
      with ok r show ?thesis by auto
    next
      case True
      show ?thesis
      proof (cases "map_of (visited s) e")
        case None
        with True r obtain s1 where s1: "visitActual cao V (visit cao uvh V n) e s = Some (r, s1)"
            "s' = s1\<lparr>visited := insert_absent e r (visited s1)\<rparr>"
          by (auto simp: bind_eq_Some_conv)
        with ok [OF s1(1)] show ?thesis
          by (auto simp: state_ok_def insert_absent_def split: option.splits)
      next
        case (Some q)
        with True r s show ?thesis by (auto simp: state_ok_def dest: map_of_SomeD)
      qed
    qed
  qed
qed

end

end
