(* ===== verification/Expr_Eval.thy ===== *)
theory Expr_Eval
  imports Expr_Visitor
begin

text \<open>
  Evaluation of expressions: \<open>lib/Expr/ExprEvaluator.cpp\<close>, the assignments of
  \<open>include/klee/Expr/Assignment.h\<close> and \<open>lib/Expr/Assignment.cpp\<close>.
  An array index is an \<open>unsigned\<close>, a 32-bit word, although the constant it comes from
  may have 64 bits.
\<close>

section \<open>The evaluator\<close>

text \<open>\<open>getInitialValue\<close> is the virtual function the subclass provides.\<close>

type_synonym initial_value = "array \<Rightarrow> 32 word \<Rightarrow> expr option"

fun evalRead ::
  "bool \<Rightarrow> initial_value \<Rightarrow> 's visit \<Rightarrow> array \<Rightarrow> updateNode \<Rightarrow> 32 word \<Rightarrow> 's vstate
   \<Rightarrow> (action \<times> 's vstate) option" where
  "evalRead cao getInitialValue vis root NoUpdate index s =
     (if isConstantArray root \<and> unat index < arr_size root
      then Some (ChangeTo (ConstantExpr (constantValues root ! unat index)), s)
      else do {
        v \<leftarrow> getInitialValue root index;
        Some (ChangeTo v, s)
      })"
| "evalRead cao getInitialValue vis root (UpdateNode un_index un_value next) index s = do {
     (ui, s) \<leftarrow> vis un_index s;
     (case ui of
        ConstantExpr CE \<Rightarrow> do {
          i \<leftarrow> getZExtValue CE 64;
          if i = ucast index then do {
            (v, s) \<leftarrow> vis un_value s;
            Some (ChangeTo v, s)
          }
          else evalRead cao getInitialValue vis root next index s
        }
      | _ \<Rightarrow> do {
          r \<leftarrow> ReadExpr__create cao (root, UpdateNode un_index un_value next)
                 (ConstantExpr (ConstantExpr__alloc (ucast index) (arr_domain root)));
          Some (ChangeTo r, s)
        })
   }"

definition ExprEvaluator__visitExpr :: "bool \<Rightarrow> 's hook" where
  "ExprEvaluator__visitExpr cao vis e s =
     (let N = getNumKids e in
      if N = 0 \<or> getKind e = Read then Some (DoChildren, s)
      else if \<exists>k \<in> set (getKids e). \<not> is_const k then Some (DoChildren, s)
      else do {
        assert_that (N \<le> 3);
        r \<leftarrow> rebuild cao e (getKids e);
        Some (ChangeTo r, s)
      })"

definition ExprEvaluator__visitRead ::
  "bool \<Rightarrow> initial_value \<Rightarrow> 's visit \<Rightarrow> array \<Rightarrow> updateNode \<Rightarrow> expr \<Rightarrow> 's vstate
   \<Rightarrow> (action \<times> 's vstate) option" where
  "ExprEvaluator__visitRead cao getInitialValue vis root us index s = do {
     (v, s) \<leftarrow> vis index s;
     (case v of
        ConstantExpr CE \<Rightarrow> do {
          i \<leftarrow> getZExtValue CE 64;
          evalRead cao getInitialValue vis root us (ucast i) s
        }
      | _ \<Rightarrow> Some (DoChildren, s))
   }"

definition protectedDivOperation ::
  "bool \<Rightarrow> 's visit \<Rightarrow> bkind \<Rightarrow> expr \<Rightarrow> expr \<Rightarrow> 's vstate \<Rightarrow> (action \<times> 's vstate) option" where
  "protectedDivOperation cao vis k left right s = do {
     (kid0, s) \<leftarrow> vis left s;
     (kid1, s) \<leftarrow> vis right s;
     let kid1 = (case kid1 of
         ConstantExpr CE \<Rightarrow> if ConstantExpr__isZero CE then right else kid1
       | _ \<Rightarrow> kid1);
     if kid0 \<noteq> left \<or> kid1 \<noteq> right then do {
       r \<leftarrow> rebuild cao (BinaryExpr k left right) [kid0, kid1];
       Some (ChangeTo r, s)
     }
     else Some (SkipChildren, s)
   }"

text \<open>The hooks per kind that the evaluator overrides: \<open>visitRead\<close>, \<open>visitUDiv\<close>,
  \<open>visitSDiv\<close>, \<open>visitURem\<close>, \<open>visitSRem\<close>.\<close>

definition ExprEvaluator__visitKind :: "bool \<Rightarrow> initial_value \<Rightarrow> 's hook" where
  "ExprEvaluator__visitKind cao getInitialValue vis e s =
     (case e of
        ReadExpr root us index \<Rightarrow> ExprEvaluator__visitRead cao getInitialValue vis root us index s
      | BinaryExpr k left right \<Rightarrow>
          if k = UDiv \<or> k = SDiv \<or> k = URem \<or> k = SRem
          then protectedDivOperation cao vis k left right s
          else Some (DoChildren, s)
      | _ \<Rightarrow> Some (DoChildren, s))"

definition ExprEvaluator__visitExprPost :: "'s hook" where
  "ExprEvaluator__visitExprPost vis e s =
     (case e of
        NotOptimizedExpr src \<Rightarrow> Some (ChangeTo src, s)
      | _ \<Rightarrow> Some (SkipChildren, s))"

definition ExprEvaluator :: "bool \<Rightarrow> initial_value \<Rightarrow> 's visitor" where
  "ExprEvaluator cao getInitialValue =
     \<lparr>recursive = False,
      visitExpr = ExprEvaluator__visitExpr cao,
      visitKind = ExprEvaluator__visitKind cao getInitialValue,
      visitExprPost = ExprEvaluator__visitExprPost\<rparr>"

section \<open>Assignments\<close>

record assignment =
  allowFreeValues :: bool
  bindings :: "(array \<times> 8 word list) list"

text \<open>
  The bindings are a map ordered by the address of the array. The constructor inserts the
  objects one by one with their values; a second binding of an array is ignored.
\<close>

fun insert_binding :: "array \<Rightarrow> 8 word list \<Rightarrow> (array \<times> 8 word list) list \<Rightarrow> (array \<times> 8 word list) list" where
  "insert_binding os arr [] = [(os, arr)]"
| "insert_binding os arr ((k, v) # b) =
     (if arr_addr os < arr_addr k then (os, arr) # (k, v) # b
      else if arr_addr os = arr_addr k then (k, v) # b
      else (k, v) # insert_binding os arr b)"

definition Assignment__Assignment :: "array list \<Rightarrow> 8 word list list \<Rightarrow> bool \<Rightarrow> assignment option" where
  "Assignment__Assignment objects values free = do {
     assert_that (length objects \<le> length values);
     Some \<lparr>allowFreeValues = free,
           bindings = fold (\<lambda>(os, arr). insert_binding os arr) (zip objects values) []\<rparr>
   }"

definition Assignment__evaluate_byte :: "bool \<Rightarrow> assignment \<Rightarrow> initial_value" where
  "Assignment__evaluate_byte cao a array index =
     (case map_of (bindings a) array of
        Some bs \<Rightarrow>
          if unat index < length bs
          then Some (ConstantExpr (ConstantExpr__alloc (ucast (bs ! unat index)) (arr_range array)))
          else if allowFreeValues a
          then ReadExpr__create cao (array, NoUpdate)
                 (ConstantExpr (ConstantExpr__alloc (ucast index) (arr_domain array)))
          else Some (ConstantExpr (ConstantExpr__alloc 0 (arr_range array)))
      | None \<Rightarrow>
          if allowFreeValues a
          then ReadExpr__create cao (array, NoUpdate)
                 (ConstantExpr (ConstantExpr__alloc (ucast index) (arr_domain array)))
          else Some (ConstantExpr (ConstantExpr__alloc 0 (arr_range array))))"

definition AssignmentEvaluator :: "bool \<Rightarrow> assignment \<Rightarrow> unit visitor" where
  "AssignmentEvaluator cao a = ExprEvaluator cao (Assignment__evaluate_byte cao a)"

definition vinit :: "'s \<Rightarrow> 's vstate" where
  "vinit x = \<lparr>visited = [], sub = x\<rparr>"

text \<open>
  The evaluator only visits parts of the expression it is given, so the size of the
  expression bounds the depth of its calls.
\<close>

definition Assignment__evaluate :: "bool \<Rightarrow> bool \<Rightarrow> assignment \<Rightarrow> expr \<Rightarrow> expr option" where
  "Assignment__evaluate cao uvh a e =
     map_option fst (visit cao uvh (AssignmentEvaluator cao a) (Suc (size e)) e (vinit ()))"

fun satisfies_loop :: "bool \<Rightarrow> bool \<Rightarrow> assignment \<Rightarrow> expr list \<Rightarrow> unit vstate \<Rightarrow> bool option" where
  "satisfies_loop cao uvh a [] s = Some True"
| "satisfies_loop cao uvh a (e # es) s = do {
     (r, s) \<leftarrow> visit cao uvh (AssignmentEvaluator cao a) (Suc (size e)) e s;
     t \<leftarrow> Expr__isTrue r;
     if \<not> t then Some False else satisfies_loop cao uvh a es s
   }"

definition Assignment__satisfies :: "bool \<Rightarrow> bool \<Rightarrow> assignment \<Rightarrow> expr list \<Rightarrow> bool option" where
  "Assignment__satisfies cao uvh a es = satisfies_loop cao uvh a es (vinit ())"

text \<open>
  \<open>createConstraintsFromAssignment\<close>: the values of a binding are read up to the size of
  the array; reading past the vector is \<open>None\<close>.
\<close>

fun array_constraints :: "bool \<Rightarrow> array \<Rightarrow> 8 word list \<Rightarrow> nat list \<Rightarrow> expr list option" where
  "array_constraints cao arr values [] = Some []"
| "array_constraints cao arr values (arrayIndex # is) = do {
     assert_that (arrayIndex < length values);
     rd \<leftarrow> ReadExpr__create cao (arr, NoUpdate)
             (ConstantExpr (ConstantExpr__alloc (of_nat arrayIndex) (arr_domain arr)));
     e \<leftarrow> EqExpr__create cao rd
            (ConstantExpr (ConstantExpr__alloc (ucast (values ! arrayIndex)) (arr_range arr)));
     es \<leftarrow> array_constraints cao arr values is;
     Some (e # es)
   }"

fun bindings_constraints :: "bool \<Rightarrow> (array \<times> 8 word list) list \<Rightarrow> expr list option" where
  "bindings_constraints cao [] = Some []"
| "bindings_constraints cao ((arr, values) # bs) = do {
     es \<leftarrow> array_constraints cao arr values [0..<arr_size arr];
     es' \<leftarrow> bindings_constraints cao bs;
     Some (es @ es')
   }"

definition createConstraintsFromAssignment :: "bool \<Rightarrow> assignment \<Rightarrow> expr list option" where
  "createConstraintsFromAssignment cao a = bindings_constraints cao (bindings a)"

section \<open>The evaluator keeps values\<close>

text \<open>Arrays with an index of at most 32 bits, which the evaluator's \<open>unsigned\<close> index can address.\<close>

fun dom32 :: "expr \<Rightarrow> bool" and dom32_upd :: "updateNode \<Rightarrow> bool" where
  "dom32 (ConstantExpr c) \<longleftrightarrow> True"
| "dom32 (NotOptimizedExpr e) \<longleftrightarrow> dom32 e"
| "dom32 (ReadExpr root us i) \<longleftrightarrow> arr_domain root \<le> 32 \<and> dom32_upd us \<and> dom32 i"
| "dom32 (SelectExpr c t f) \<longleftrightarrow> dom32 c \<and> dom32 t \<and> dom32 f"
| "dom32 (ConcatExpr l r) \<longleftrightarrow> dom32 l \<and> dom32 r"
| "dom32 (ExtractExpr e off w) \<longleftrightarrow> dom32 e"
| "dom32 (ZExtExpr e w) \<longleftrightarrow> dom32 e"
| "dom32 (SExtExpr e w) \<longleftrightarrow> dom32 e"
| "dom32 (NotExpr e) \<longleftrightarrow> dom32 e"
| "dom32 (BinaryExpr k l r) \<longleftrightarrow> dom32 l \<and> dom32 r"
| "dom32_upd NoUpdate \<longleftrightarrow> True"
| "dom32_upd (UpdateNode i v next) \<longleftrightarrow> dom32 i \<and> dom32 v \<and> dom32_upd next"

lemma dom32_kids: "dom32 e \<Longrightarrow> k \<in> set (getKids e) \<Longrightarrow> dom32 k"
  by (cases e) auto

lemma in_width_le: "in_width w v \<Longrightarrow> w \<le> n \<Longrightarrow> 0 \<le> v \<and> v < 2 ^ n"
  using in_width_mono [of w v n] by (simp add: in_width_def)

lemma index_word:
  assumes "in_width w v" "w \<le> 32"
  shows "uint (ucast (word_of_int v :: 64 word) :: 32 word) = v"
    and "(word_of_int v :: 64 word) = ucast (i :: 32 word) \<longleftrightarrow> v = uint i"
proof -
  have v: "0 \<le> v" "v < 2 ^ 32" using in_width_le [OF assms] by auto
  then have 64: "uint (word_of_int v :: 64 word) = v"
    by (simp add: uint_word_of_int)
  then show 1: "uint (ucast (word_of_int v :: 64 word) :: 32 word) = v"
    using v by (simp add: unsigned_ucast_eq take_bit_int_eq_self)
  have i: "uint (ucast i :: 64 word) = uint i"
    using uint_bounded [of i] by (simp add: unsigned_ucast_eq take_bit_int_eq_self)
  with 64 show "(word_of_int v :: 64 word) = ucast i \<longleftrightarrow> v = uint i"
    by (metis word_uint_eqI)
qed

text \<open>
  What a subclass promises of \<open>getInitialValue\<close>, which is called only at an index that
  is not an index of a constant array.
\<close>

definition initial_ok :: "bool \<Rightarrow> (env \<Rightarrow> bool) \<Rightarrow> initial_value \<Rightarrow> bool" where
  "initial_ok cao A getInitialValue \<longleftrightarrow> (\<forall>root index v.
     good cao A (arr_range root)
       (ReadExpr root NoUpdate (ConstantExpr (ConstantExpr__alloc (ucast index) (arr_domain root)))) \<longrightarrow>
     arr_domain root \<le> 32 \<longrightarrow> in_width (arr_domain root) (uint index) \<longrightarrow>
     \<not> (isConstantArray root \<and> unat index < arr_size root) \<longrightarrow>
     getInitialValue root index = Some v \<longrightarrow>
     denotes cao A (arr_range root) (\<lambda>\<sigma>. init_val \<sigma> root (uint index)) v)"

lemma good_index:
  assumes "in_width d (uint (index :: 32 word))" "0 < d" "d \<le> 32"
  shows "good cao A d (ConstantExpr (ConstantExpr__alloc (ucast index) d))"
    and "getValue (ConstantExpr__alloc (ucast index) d) = uint index"
proof -
  have "uint (ucast index :: 64 word) = uint index"
    using uint_bounded [of index] by (simp add: unsigned_ucast_eq take_bit_int_eq_self)
  with assms show "getValue (ConstantExpr__alloc (ucast index) d) = uint index"
    by (simp add: ConstantExpr__alloc_def in_width_take_bit_eq)
  from assms show "good cao A d (ConstantExpr (ConstantExpr__alloc (ucast index) d))"
    by (simp add: wf_apint_ops ConstantExpr__alloc_def)
qed

lemma good_Read_index:
  assumes "wf_array root" "wf_upd root un" "arr_domain root \<le> 32" "in_width (arr_domain root) (uint (index :: 32 word))"
    and "cao \<longrightarrow> (\<forall>\<sigma>. A \<sigma> \<longrightarrow> inb_upd \<sigma> un \<and> (isConstantArray root \<longrightarrow> uint index < int (arr_size root)))"
  shows "good cao A (arr_range root)
    (ReadExpr root un (ConstantExpr (ConstantExpr__alloc (ucast index) (arr_domain root))))"
  using assms good_index [OF assms(4) _ assms(3)]
  by (auto simp: good_Read wf_array_def)

lemma evalRead_ok:
  assumes v: "visit_ok cao A I dom32 vis" and giv: "initial_ok cao A getInitialValue"
    and root: "wf_array root" "arr_domain root \<le> 32" "in_width (arr_domain root) (uint index)"
    and bnd: "cao \<longrightarrow> (\<forall>\<sigma>. A \<sigma> \<longrightarrow> isConstantArray root \<longrightarrow> uint index < int (arr_size root))"
  shows "wf_upd root us \<Longrightarrow> dom32_upd us \<Longrightarrow> cao \<longrightarrow> (\<forall>\<sigma>. A \<sigma> \<longrightarrow> inb_upd \<sigma> us) \<Longrightarrow>
    state_ok cao A I s \<Longrightarrow> evalRead cao getInitialValue vis root us index s = Some (a, s') \<Longrightarrow>
    state_ok cao A I s' \<and>
    (\<exists>x. a = ChangeTo x \<and> denotes cao A (arr_range root) (\<lambda>\<sigma>. den_upd \<sigma> root us (uint index)) x)"
proof (induction us arbitrary: s rule: UpdateNode__getSize.induct)
  case 1
  show ?case
  proof (cases "isConstantArray root \<and> unat index < arr_size root")
    case True
    moreover from this have "uint index < int (arr_size root)"
      unfolding uint_nat of_nat_less_iff by blast
    ultimately show ?thesis
      using "1.prems" wf_array_nth [OF root(1), of "unat index"]
      by (auto simp: init_val_def intro!: denotes_Const)
  next
    case False
    with "1.prems" giv good_Read_index [OF root(1) _ root(2,3), of NoUpdate cao A] bnd root
    show ?thesis
      by (auto simp: initial_ok_def bind_eq_Some_conv)
  qed
next
  case (2 i val nxt)
  then have gi: "good cao A (arr_domain root) i" and gv: "good cao A (arr_range root) val"
    by (auto simp: good_def)
  from 2 obtain ui s1 where ui: "vis i s = Some (ui, s1)" by (auto simp: bind_eq_Some_conv)
  note 1 = visit_okD [OF v ui gi]
  then have k: "denotes cao A (arr_domain root) (\<lambda>\<sigma>. den \<sigma> i) ui" and s1: "state_ok cao A I s1"
    using 2 gi by (auto dest: keepsD)
  show ?case
  proof (cases "is_const ui")
    case False
    with 2 ui obtain r where "a = ChangeTo r" "s' = s1" and r: "ReadExpr__create cao (root, UpdateNode i val nxt)
        (ConstantExpr (ConstantExpr__alloc (ucast index) (arr_domain root))) = Some r"
      by (auto simp: bind_eq_Some_conv split: expr.splits)
    moreover have "good cao A (arr_range root) (ReadExpr root (UpdateNode i val nxt)
        (ConstantExpr (ConstantExpr__alloc (ucast index) (arr_domain root))))"
      using 2 bnd by (intro good_Read_index root) auto
    from ReadExpr__create_yields [OF this] r
    have "denotes cao A (arr_range root) (\<lambda>\<sigma>. den_upd \<sigma> root (UpdateNode i val nxt) (uint index)) r"
      using good_index(2) [OF root(3) _ root(2)] root(1) by (simp add: wf_array_def cong: if_cong)
    ultimately show ?thesis using s1 by simp
  next
    case True
    then obtain CE where CE: "ui = ConstantExpr CE" by (auto simp: is_const_iff)
    have w: "in_width (arr_domain root) (getValue CE)" "getBitWidth CE \<le> 64"
      using denotes_good [OF k] root(2) by (auto simp: CE wf_apint_def)
    have den_i: "den \<sigma> i = getValue CE" if "A \<sigma>" for \<sigma> using denotes_eqD [OF k that] CE by simp
    note ix = index_word(2) [OF w(1) root(2), of index]
    show ?thesis
    proof (cases "getValue CE = uint index")
      case True
      then obtain x where x: "vis val s1 = Some (x, s')" "a = ChangeTo x"
        using 2 ui CE w ix by (auto simp: getZExtValue_def bind_eq_Some_conv)
      with visit_okD [OF v x(1) gv _ s1] 2 have "keeps cao A val x" "state_ok cao A I s'" by auto
      moreover have "denotes cao A (arr_range root) (\<lambda>\<sigma>. den_upd \<sigma> root (UpdateNode i val nxt) (uint index)) x"
        by (rule denotes_cong [OF keepsD [OF \<open>keeps cao A val x\<close> gv]]) (simp add: den_i True)
      ultimately show ?thesis using x by simp
    next
      case False
      then have e: "evalRead cao getInitialValue vis root nxt index s1 = Some (a, s')"
        using 2 ui CE w ix by (auto simp: getZExtValue_def)
      have "wf_upd root nxt" "dom32_upd nxt" "cao \<longrightarrow> (\<forall>\<sigma>. A \<sigma> \<longrightarrow> inb_upd \<sigma> nxt)"
        using 2 by auto
      from "2.IH" [OF this s1 e] obtain x where x: "state_ok cao A I s'" "a = ChangeTo x"
          "denotes cao A (arr_range root) (\<lambda>\<sigma>. den_upd \<sigma> root nxt (uint index)) x" by blast
      have "denotes cao A (arr_range root) (\<lambda>\<sigma>. den_upd \<sigma> root (UpdateNode i val nxt) (uint index)) x"
        by (rule denotes_cong [OF x(3)]) (simp add: den_i False)
      with x show ?thesis by simp
    qed
  qed
qed

lemma keeps_cong:
  assumes "good cao A w e" "denotes cao A w f x" "\<And>\<sigma>. A \<sigma> \<Longrightarrow> f \<sigma> = den \<sigma> e"
  shows "keeps cao A e x"
  using keepsI [OF assms(1) denotes_cong [OF assms(2,3)]] by simp

lemma visitRead_ok:
  assumes v: "visit_ok cao A I dom32 vis" and giv: "initial_ok cao A getInitialValue"
    and g: "good cao A w (ReadExpr root us index)" "dom32 (ReadExpr root us index)" and s: "state_ok cao A I s"
    and r: "ExprEvaluator__visitRead cao getInitialValue vis root us index s = Some (a, s')"
  shows "state_ok cao A I s' \<and> (\<forall>x. a = ChangeTo x \<longrightarrow> keeps cao A (ReadExpr root us index) x)"
proof -
  have gi: "good cao A (arr_domain root) index" and w: "w = arr_range root"
    and root: "wf_array root" "wf_upd root us" "arr_domain root \<le> 32"
    and b: "cao \<longrightarrow> (\<forall>\<sigma>. A \<sigma> \<longrightarrow> inb_upd \<sigma> us)"
      "cao \<longrightarrow> (\<forall>\<sigma>. A \<sigma> \<longrightarrow> isConstantArray root \<longrightarrow> den \<sigma> index < int (arr_size root))"
    using g by (auto simp: good_Read)
  obtain v1 s1 where v1: "vis index s = Some (v1, s1)"
    using r by (auto simp: ExprEvaluator__visitRead_def bind_eq_Some_conv)
  with visit_okD [OF v v1 gi _ s] g have k: "denotes cao A (arr_domain root) (\<lambda>\<sigma>. den \<sigma> index) v1"
    and s1: "state_ok cao A I s1" by (auto dest: keepsD [OF _ gi])
  show ?thesis
  proof (cases "is_const v1")
    case False
    with r v1 s1 show ?thesis by (auto simp: ExprEvaluator__visitRead_def split: expr.splits)
  next
    case True
    then obtain CE where CE: "v1 = ConstantExpr CE" by (auto simp: is_const_iff)
    let ?i = "ucast (word_of_int (getValue CE) :: 64 word) :: 32 word"
    have wd: "in_width (arr_domain root) (getValue CE)" "getBitWidth CE \<le> 64"
      using denotes_good [OF k] root(3) by (auto simp: CE wf_apint_def)
    have e: "evalRead cao getInitialValue vis root us ?i s1 = Some (a, s')"
      using r v1 CE wd by (simp add: ExprEvaluator__visitRead_def getZExtValue_def)
    have u: "uint ?i = getValue CE" using index_word(1) [OF wd(1) root(3)] .
    have den: "den \<sigma> index = getValue CE" if "A \<sigma>" for \<sigma> using denotes_eqD [OF k that] CE by simp
    have "cao \<longrightarrow> (\<forall>\<sigma>. A \<sigma> \<longrightarrow> isConstantArray root \<longrightarrow> uint ?i < int (arr_size root))"
      unfolding u using b(2) den by metis
    moreover have "in_width (arr_domain root) (uint ?i)" unfolding u by (rule wd(1))
    moreover have "dom32_upd us" using g by simp
    ultimately have "state_ok cao A I s' \<and>
        (\<exists>x. a = ChangeTo x \<and> denotes cao A (arr_range root) (\<lambda>\<sigma>. den_upd \<sigma> root us (uint ?i)) x)"
      by (intro evalRead_ok [OF v giv root(1,3) _ _ root(2) _ b(1) s1 e])
    then obtain x where x: "a = ChangeTo x" "state_ok cao A I s'"
        "denotes cao A w (\<lambda>\<sigma>. den_upd \<sigma> root us (getValue CE)) x"
      unfolding u w by blast
    have "keeps cao A (ReadExpr root us index) x"
      by (rule keeps_cong [OF g(1) x(3)]) (simp add: den)
    with x show ?thesis by simp
  qed
qed

lemma protectedDivOperation_ok:
  assumes v: "visit_ok cao A I P vis" and g: "good cao A w (BinaryExpr k l r)" "P l" "P r"
    and s: "state_ok cao A I s" and res: "protectedDivOperation cao vis k l r s = Some (a, s')"
  shows "state_ok cao A I s' \<and> (\<forall>x. a = ChangeTo x \<longrightarrow> keeps cao A (BinaryExpr k l r) x)"
proof -
  obtain u where u: "good cao A u l" "good cao A u r" using g by auto
  obtain k0 s1 k1 where k: "vis l s = Some (k0, s1)" "vis r s1 = Some (k1, s')"
    using res by (auto simp: protectedDivOperation_def Let_def bind_eq_Some_conv split: if_splits)
  let ?k1 = "case k1 of ConstantExpr CE \<Rightarrow> if ConstantExpr__isZero CE then r else k1 | _ \<Rightarrow> k1"
  note 1 = visit_okD [OF v k(1) u(1) g(2) s]
  note 2 = visit_okD [OF v k(2) u(2) g(3) 1(2)]
  have "keeps cao A r ?k1" using 2(1) by (auto split: expr.splits)
  then have kids: "list_all2 (\<lambda>k k'. denotes cao A (getWidth k) (\<lambda>\<sigma>. den \<sigma> k) k') (getKids (BinaryExpr k l r)) [k0, ?k1]"
    using u 1(1) by (auto simp: good_width dest: keepsD)
  have "keeps cao A (BinaryExpr k l r) x" if "a = ChangeTo x" for x
  proof -
    from that res k have "rebuild cao (BinaryExpr k l r) [k0, ?k1] = Some x"
      by (auto simp: protectedDivOperation_def Let_def bind_eq_Some_conv split: if_splits)
    from rebuild_partial [OF g(1) _ kids this] show ?thesis using g(1) by (intro keepsI) auto
  qed
  with 2(2) show ?thesis by simp
qed

lemma ExprEvaluator_visitExpr_ok: "hook_ok cao A I P Q (ExprEvaluator__visitExpr cao)"
  unfolding hook_ok_def
proof (intro allI impI)
  fix vis w e s a s'
  assume g: "good cao A w e" and nc: "\<not> is_const e" and s: "state_ok cao A I s"
    and r: "ExprEvaluator__visitExpr cao vis e s = Some (a, s')"
  have "list_all2 (\<lambda>k k'. denotes cao A (getWidth k) (\<lambda>\<sigma>. den \<sigma> k) k') (getKids e) (getKids e)"
    using good_kids [OF g] by (auto simp: list_all2_same intro: denotes_self)
  from rebuild_partial [OF g nc this] r s g
  show "state_ok cao A I s' \<and> (\<forall>x. a = ChangeTo x \<longrightarrow> keeps cao A e x)"
    by (auto simp: ExprEvaluator__visitExpr_def Let_def bind_eq_Some_conv assert_that_bind
        intro: keepsI split: if_splits)
qed

lemma ExprEvaluator_visitKind_ok:
  assumes "initial_ok cao A getInitialValue"
  shows "hook_ok cao A I dom32 dom32 (ExprEvaluator__visitKind cao getInitialValue)"
  unfolding hook_ok_def
proof (intro allI impI)
  fix vis w e s a s'
  assume h: "visit_ok cao A I dom32 vis" "good cao A w e" "dom32 e" "\<not> is_const e" "state_ok cao A I s"
    and r: "ExprEvaluator__visitKind cao getInitialValue vis e s = Some (a, s')"
  show "state_ok cao A I s' \<and> (\<forall>x. a = ChangeTo x \<longrightarrow> keeps cao A e x)"
  proof (cases e)
    case (ReadExpr root us i)
    with visitRead_ok [OF h(1) assms _ _ h(5)] h r show ?thesis
      by (simp add: ExprEvaluator__visitKind_def)
  next
    case (BinaryExpr k l r')
    with protectedDivOperation_ok [OF h(1) _ _ _ h(5), of w k l r'] h r show ?thesis
      by (auto simp: ExprEvaluator__visitKind_def simp del: good_Binary split: if_splits)
  qed (use h r in \<open>auto simp: ExprEvaluator__visitKind_def\<close>)
qed

lemma ExprEvaluator_visitExprPost_ok: "hook_ok cao A I P Q ExprEvaluator__visitExprPost"
  unfolding hook_ok_def
proof (intro allI impI)
  fix vis w e s a s'
  assume "good cao A w e" "state_ok cao A I s" "ExprEvaluator__visitExprPost vis e s = Some (a, s')"
  then show "state_ok cao A I s' \<and> (\<forall>x. a = ChangeTo x \<longrightarrow> keeps cao A e x)"
    by (cases e) (auto simp: ExprEvaluator__visitExprPost_def keeps_def denotes_def good_def)
qed

lemma ExprEvaluator_sound:
  assumes "initial_ok cao A getInitialValue"
  shows "visitor_sound cao A I dom32 (ExprEvaluator cao getInitialValue)"
  by unfold_locales
    (auto simp: ExprEvaluator_def intro: dom32_kids ExprEvaluator_visitExpr_ok
      ExprEvaluator_visitKind_ok [OF assms] ExprEvaluator_visitExprPost_ok)

section \<open>Evaluation under an assignment\<close>

text \<open>The environments an assignment stands for; without free values there is one, up to negative indices.\<close>

definition bound_byte :: "assignment \<Rightarrow> array \<Rightarrow> nat \<Rightarrow> 8 word option" where
  "bound_byte a arr j =
     (case map_of (bindings a) arr of
        Some bs \<Rightarrow> if j < length bs then Some (bs ! j) else None
      | None \<Rightarrow> None)"

definition agrees :: "assignment \<Rightarrow> env \<Rightarrow> bool" where
  "agrees a \<sigma> \<longleftrightarrow> (\<forall>arr j. case bound_byte a arr j of
     Some b \<Rightarrow> \<sigma> arr (int j) = uint b
   | None \<Rightarrow> allowFreeValues a \<or> \<sigma> arr (int j) = 0)"

definition asg_env :: "assignment \<Rightarrow> env" where
  "asg_env a arr j = (case bound_byte a arr (nat j) of Some b \<Rightarrow> uint b | None \<Rightarrow> 0)"

lemma agrees_asg_env: "agrees a (asg_env a)"
  by (auto simp: agrees_def asg_env_def split: option.splits)

lemma evaluate_byte_eq:
  "Assignment__evaluate_byte cao a arr index =
     (case bound_byte a arr (unat index) of
        Some b \<Rightarrow> Some (ConstantExpr (ConstantExpr__alloc (ucast b) (arr_range arr)))
      | None \<Rightarrow>
          if allowFreeValues a
          then ReadExpr__create cao (arr, NoUpdate)
                 (ConstantExpr (ConstantExpr__alloc (ucast index) (arr_domain arr)))
          else Some (ConstantExpr (ConstantExpr__alloc 0 (arr_range arr))))"
  by (simp add: Assignment__evaluate_byte_def bound_byte_def split: option.splits)

lemma getValue_alloc: "getValue (ConstantExpr__alloc v w) = uint v mod 2 ^ w"
  by (simp add: ConstantExpr__alloc_def take_bit_eq_mod)

lemma getBitWidth_alloc [simp]: "getBitWidth (ConstantExpr__alloc v w) = w"
  by (simp add: ConstantExpr__alloc_def)

lemma uint_ucast_byte: "uint (ucast (b :: 8 word) :: 64 word) = uint b"
  using uint_bounded [of b] by (simp add: unsigned_ucast_eq take_bit_int_eq_self)

lemma unat_less_uint: "unat (i :: 'a::len word) < n \<longleftrightarrow> uint i < int n"
  unfolding uint_nat of_nat_less_iff ..

lemma initial_ok_assignment:
  assumes A: "\<And>\<sigma>. A \<sigma> \<Longrightarrow> agrees a \<sigma>"
  shows "initial_ok cao A (Assignment__evaluate_byte cao a)"
  unfolding initial_ok_def
proof (intro allI impI)
  fix root index v
  assume g: "good cao A (arr_range root)
      (ReadExpr root NoUpdate (ConstantExpr (ConstantExpr__alloc (ucast index) (arr_domain root))))"
    and d: "arr_domain root \<le> 32" "in_width (arr_domain root) (uint index)"
    and n: "\<not> (isConstantArray root \<and> unat index < arr_size root)"
    and v: "Assignment__evaluate_byte cao a root index = Some v"
  have r: "0 < arr_range root" "0 < arr_domain root" using g by (auto simp: good_Read wf_array_def)
  have i: "init_val \<sigma> root (uint index) = \<sigma> root (int (unat index)) mod 2 ^ arr_range root" for \<sigma>
    using n by (auto simp: init_val_def unat_less_uint)
  have a: "(case bound_byte a root (unat index) of Some b \<Rightarrow> \<sigma> root (int (unat index)) = uint b
      | None \<Rightarrow> allowFreeValues a \<or> \<sigma> root (int (unat index)) = 0)" if "A \<sigma>" for \<sigma>
    using A [OF that] unfolding agrees_def by blast
  show "denotes cao A (arr_range root) (\<lambda>\<sigma>. init_val \<sigma> root (uint index)) v"
  proof (cases "bound_byte a root (unat index)")
    case None
    show ?thesis
    proof (cases "allowFreeValues a")
      case True
      with None v ReadExpr__create_yields [OF g] good_index(2) [OF d(2) r(2) d(1)] show ?thesis
        by (simp add: evaluate_byte_eq)
    next
      case False
      with None v a r i show ?thesis
        by (auto simp: evaluate_byte_eq getValue_alloc wf_apint_ops intro!: denotes_Const) (metis mod_0)
    qed
  next
    case (Some b)
    with v a r i show ?thesis
      by (auto simp: evaluate_byte_eq getValue_alloc wf_apint_ops uint_ucast_byte intro!: denotes_Const)
  qed
qed

interpretation asg: visitor_sound cao "agrees a" "\<lambda>_. True" dom32 "AssignmentEvaluator cao a" for cao a
  unfolding AssignmentEvaluator_def by (rule ExprEvaluator_sound [OF initial_ok_assignment])

lemma state_ok_vinit [simp]: "state_ok cao A (\<lambda>_. True) (vinit x)"
  by (simp add: state_ok_def vinit_def)

lemma Assignment__evaluate_keeps:
  assumes "good cao (agrees a) w e" "dom32 e" "Assignment__evaluate cao uvh a e = Some r"
  shows "denotes cao (agrees a) w (\<lambda>\<sigma>. den \<sigma> e) r"
proof -
  obtain s' where v: "visit cao uvh (AssignmentEvaluator cao a) (Suc (size e)) e (vinit ()) = Some (r, s')"
    using assms(3) by (auto simp: Assignment__evaluate_def simp del: visit.simps)
  show ?thesis by (rule keepsD [OF visit_okD(1) [OF asg.visit_sound v assms(1,2) state_ok_vinit] assms(1)])
qed

section \<open>Full evaluation\<close>

text \<open>
  The expressions that an assignment without free values turns into constants: no division
  by zero, and no \<open>NotOptimized\<close> around a literal constant, which \<open>visitExpr\<close> rebuilds
  as it is.
\<close>

fun evaluable :: "env \<Rightarrow> expr \<Rightarrow> bool" and evaluable_upd :: "env \<Rightarrow> updateNode \<Rightarrow> bool" where
  "evaluable \<sigma> (ConstantExpr c) \<longleftrightarrow> True"
| "evaluable \<sigma> (NotOptimizedExpr e) \<longleftrightarrow> \<not> is_const e \<and> evaluable \<sigma> e"
| "evaluable \<sigma> (ReadExpr root us i) \<longleftrightarrow> arr_domain root \<le> 32 \<and> evaluable_upd \<sigma> us \<and> evaluable \<sigma> i"
| "evaluable \<sigma> (SelectExpr c t f) \<longleftrightarrow> evaluable \<sigma> c \<and> evaluable \<sigma> t \<and> evaluable \<sigma> f"
| "evaluable \<sigma> (ConcatExpr l r) \<longleftrightarrow> evaluable \<sigma> l \<and> evaluable \<sigma> r"
| "evaluable \<sigma> (ExtractExpr e off w) \<longleftrightarrow> evaluable \<sigma> e"
| "evaluable \<sigma> (ZExtExpr e w) \<longleftrightarrow> evaluable \<sigma> e"
| "evaluable \<sigma> (SExtExpr e w) \<longleftrightarrow> evaluable \<sigma> e"
| "evaluable \<sigma> (NotExpr e) \<longleftrightarrow> evaluable \<sigma> e"
| "evaluable \<sigma> (BinaryExpr k l r) \<longleftrightarrow>
     evaluable \<sigma> l \<and> evaluable \<sigma> r \<and> (is_div k \<longrightarrow> den \<sigma> r \<noteq> 0)"
| "evaluable_upd \<sigma> NoUpdate \<longleftrightarrow> True"
| "evaluable_upd \<sigma> (UpdateNode i v next) \<longleftrightarrow> evaluable \<sigma> i \<and> evaluable \<sigma> v \<and> evaluable_upd \<sigma> next"

lemma evaluable_kids: "evaluable \<sigma> e \<Longrightarrow> k \<in> set (getKids e) \<Longrightarrow> evaluable \<sigma> k"
  by (cases e) auto

lemma size_kids: "k \<in> set (getKids e) \<Longrightarrow> size k < size e"
  by (cases e) auto

definition const_state :: "bool \<Rightarrow> env \<Rightarrow> 's vstate \<Rightarrow> bool" where
  "const_state cao \<sigma> s \<longleftrightarrow>
     (\<forall>(e, r) \<in> set (visited s). keeps cao (\<lambda>\<tau>. \<tau> = \<sigma>) e r \<and> is_const r)"

definition evals :: "bool \<Rightarrow> env \<Rightarrow> nat \<Rightarrow> 's visit \<Rightarrow> bool" where
  "evals cao \<sigma> n vis \<longleftrightarrow> (\<forall>e w s. size e < n \<longrightarrow> good cao (\<lambda>\<tau>. \<tau> = \<sigma>) w e \<longrightarrow> evaluable \<sigma> e \<longrightarrow>
     const_state cao \<sigma> s \<longrightarrow>
     (\<exists>c s'. vis e s = Some (ConstantExpr c, s') \<and> keeps cao (\<lambda>\<tau>. \<tau> = \<sigma>) e (ConstantExpr c)
        \<and> const_state cao \<sigma> s'))"

lemma evalsE:
  assumes "evals cao \<sigma> n vis" "size e < n" "good cao (\<lambda>\<tau>. \<tau> = \<sigma>) w e" "evaluable \<sigma> e" "const_state cao \<sigma> s"
  obtains c s' where "vis e s = Some (ConstantExpr c, s')" "const_state cao \<sigma> s'"
    "keeps cao (\<lambda>\<tau>. \<tau> = \<sigma>) e (ConstantExpr c)" "wf_apint c" "getBitWidth c = w" "getValue c = den \<sigma> e"
proof -
  obtain c s' where c: "vis e s = Some (ConstantExpr c, s')" "keeps cao (\<lambda>\<tau>. \<tau> = \<sigma>) e (ConstantExpr c)"
      "const_state cao \<sigma> s'"
    using assms unfolding evals_def by blast
  with keepsD [OF c(2) assms(3)] show ?thesis by (intro that) (auto simp: denotes_def)
qed

definition evaluates :: "bool \<Rightarrow> env \<Rightarrow> expr \<Rightarrow> (expr \<times> 's vstate) option \<Rightarrow> bool" where
  "evaluates cao \<sigma> e m \<longleftrightarrow> (\<exists>c s'. m = Some (ConstantExpr c, s') \<and>
     keeps cao (\<lambda>\<tau>. \<tau> = \<sigma>) e (ConstantExpr c) \<and> const_state cao \<sigma> s')"

lemma evals_iff: "evals cao \<sigma> n vis \<longleftrightarrow> (\<forall>e w s. size e < n \<longrightarrow> good cao (\<lambda>\<tau>. \<tau> = \<sigma>) w e \<longrightarrow>
    evaluable \<sigma> e \<longrightarrow> const_state cao \<sigma> s \<longrightarrow> evaluates cao \<sigma> e (vis e s))"
  by (simp add: evals_def evaluates_def)

lemma visitKids_evals:
  assumes v: "evals cao \<sigma> n vis"
  shows "\<forall>k \<in> set ks. size k < n \<and> good cao (\<lambda>\<tau>. \<tau> = \<sigma>) (getWidth k) k \<and> evaluable \<sigma> k \<Longrightarrow>
    const_state cao \<sigma> s \<Longrightarrow>
    \<exists>rs s'. visitKids vis ks s = Some (rs, s') \<and> const_state cao \<sigma> s' \<and> (\<forall>r \<in> set rs. is_const r) \<and>
      list_all2 (\<lambda>k k'. denotes cao (\<lambda>\<tau>. \<tau> = \<sigma>) (getWidth k) (\<lambda>\<sigma>. den \<sigma> k) k') ks rs"
proof (induction ks arbitrary: s)
  case (Cons k ks)
  then have k: "size k < n" "good cao (\<lambda>\<tau>. \<tau> = \<sigma>) (getWidth k) k" "evaluable \<sigma> k" by auto
  obtain c s1 where c: "vis k s = Some (ConstantExpr c, s1)" "const_state cao \<sigma> s1"
      "keeps cao (\<lambda>\<tau>. \<tau> = \<sigma>) k (ConstantExpr c)"
    by (rule evalsE [OF v k Cons.prems(2)])
  with Cons obtain rs s' where "visitKids vis ks s1 = Some (rs, s')" "const_state cao \<sigma> s'" "\<forall>r \<in> set rs. is_const r"
      "list_all2 (\<lambda>k k'. denotes cao (\<lambda>\<tau>. \<tau> = \<sigma>) (getWidth k) (\<lambda>\<sigma>. den \<sigma> k) k') ks rs"
    by (metis (no_types, lifting) list.set_intros(2))
  with c Cons.prems keepsD [OF c(3)] show ?case by auto
qed simp

text \<open>Rebuilding with constants of the right values gives the constant of the value.\<close>

lemma rebuild_const:
  assumes g: "good cao (\<lambda>\<tau>. \<tau> = \<sigma>) w e" and e: "\<not> is_const e" "getKind e \<noteq> NotOptimized" "getKind e \<noteq> Read"
    "evaluable \<sigma> e"
    and kids: "list_all2 (\<lambda>k k'. denotes cao (\<lambda>\<tau>. \<tau> = \<sigma>) (getWidth k) (\<lambda>\<sigma>. den \<sigma> k) k') (getKids e) kids"
      "\<forall>k \<in> set kids. is_const k"
  shows "\<exists>c. rebuild cao e kids = Some (ConstantExpr c) \<and> keeps cao (\<lambda>\<tau>. \<tau> = \<sigma>) e (ConstantExpr c)"
proof -
  have len: "length kids = getNumKids e" using kids(1) by (simp add: getNumKids_def list_all2_lengthD)
  have "yields cao (\<lambda>\<tau>. \<tau> = \<sigma>) w (\<lambda>\<sigma>. den \<sigma> e) (rebuild cao e kids)"
  proof (rule rebuild_yields [OF g e(1) len])
    show "\<forall>i<getNumKids e. denotes cao (\<lambda>\<tau>. \<tau> = \<sigma>) (getWidth (getKids e ! i)) (\<lambda>\<sigma>. den \<sigma> (getKids e ! i)) (kids ! i)"
      using kids(1) by (simp add: getNumKids_def list_all2_conv_all_nth)
    show "\<forall>c. kids ! 1 = ConstantExpr c \<longrightarrow> getValue c \<noteq> 0" if "e = BinaryExpr k l r" "is_div k" for k l r
    proof -
      have "den \<sigma> (kids ! 1) = den \<sigma> r"
        using kids(1) that(1) by (auto simp: list_all2_conv_all_nth denotes_def numeral_2_eq_2)
      with e(4) that show ?thesis by auto
    qed
  qed
  then obtain r where r: "rebuild cao e kids = Some r" "denotes cao (\<lambda>\<tau>. \<tau> = \<sigma>) w (\<lambda>\<sigma>. den \<sigma> e) r"
    by (auto simp: yields_def)
  from rebuild_fold [OF e(1-3) len kids(2) r(1)] r keepsI [OF g r(2)] show ?thesis
    by (auto simp: is_const_iff)
qed

lemma evalRead_evals:
  assumes v: "evals cao \<sigma> n vis" and giv: "\<forall>root i. \<exists>c. getInitialValue root i = Some (ConstantExpr c)"
    and root: "wf_array root" "arr_domain root \<le> 32"
  shows "size us < n \<Longrightarrow> wf_upd root us \<Longrightarrow> cao \<longrightarrow> inb_upd \<sigma> us \<Longrightarrow> evaluable_upd \<sigma> us \<Longrightarrow> const_state cao \<sigma> s \<Longrightarrow>
    \<exists>c s'. evalRead cao getInitialValue vis root us index s = Some (ChangeTo (ConstantExpr c), s') \<and> const_state cao \<sigma> s'"
proof (induction us arbitrary: s rule: UpdateNode__getSize.induct)
  case 1
  then show ?case using giv [rule_format, of root index] by auto
next
  case (2 i val nxt)
  then have gi: "good cao (\<lambda>\<tau>. \<tau> = \<sigma>) (arr_domain root) i" and gv: "good cao (\<lambda>\<tau>. \<tau> = \<sigma>) (arr_range root) val"
    by (auto simp: good_def)
  have e: "size i < n" "size val < n" "evaluable \<sigma> i" "evaluable \<sigma> val" using 2 by auto
  obtain c s1 where c: "vis i s = Some (ConstantExpr c, s1)" "const_state cao \<sigma> s1" "getBitWidth c = arr_domain root"
    by (rule evalsE [OF v e(1) gi e(3) "2.prems"(5)])
  obtain d s2 where d: "vis val s1 = Some (ConstantExpr d, s2)" "const_state cao \<sigma> s2"
    by (rule evalsE [OF v e(2) gv e(4) c(2)])
  have "size nxt < n" "wf_upd root nxt" "cao \<longrightarrow> inb_upd \<sigma> nxt" "evaluable_upd \<sigma> nxt" using 2 by auto
  from "2.IH" [OF this c(2)] obtain x s3 where "evalRead cao getInitialValue vis root nxt index s1 = Some (ChangeTo (ConstantExpr x), s3)"
      "const_state cao \<sigma> s3"
    by blast
  with c d root show ?case by (simp add: getZExtValue_def)
qed

lemma visitKind_evals:
  assumes v: "evals cao \<sigma> (size e) vis" and giv: "\<forall>root i. \<exists>c. getInitialValue root i = Some (ConstantExpr c)"
    and s: "const_state cao \<sigma> s" and g: "good cao (\<lambda>\<tau>. \<tau> = \<sigma>) w e" "evaluable \<sigma> e"
    and e: "getKind e = Read \<or> (\<exists>k l r. e = BinaryExpr k l r \<and> is_div k \<and> \<not> (is_const l \<and> is_const r))"
  shows "\<exists>c s'. ExprEvaluator__visitKind cao getInitialValue vis e s = Some (ChangeTo (ConstantExpr c), s')
    \<and> const_state cao \<sigma> s'"
proof (cases "getKind e = Read")
  case True
  then obtain root us i where r: "e = ReadExpr root us i" by (cases e) auto
  then have i: "size i < size e" "good cao (\<lambda>\<tau>. \<tau> = \<sigma>) (arr_domain root) i" "evaluable \<sigma> i"
    using g by (auto simp: good_Read)
  obtain c s1 where c: "vis i s = Some (ConstantExpr c, s1)" "const_state cao \<sigma> s1" "getBitWidth c = arr_domain root"
    by (rule evalsE [OF v i s])
  have root: "wf_array root" "arr_domain root \<le> 32" using g r by (auto simp: good_Read)
  have "size us < size e" "wf_upd root us" "cao \<longrightarrow> inb_upd \<sigma> us" "evaluable_upd \<sigma> us"
    using g r by (auto simp: good_Read)
  from evalRead_evals [OF v giv root this c(2)] c root r show ?thesis
    by (simp add: ExprEvaluator__visitKind_def ExprEvaluator__visitRead_def getZExtValue_def)
next
  case False
  with e obtain k l r where b: "e = BinaryExpr k l r" "is_div k" "\<not> (is_const l \<and> is_const r)" by auto
  then obtain u where u: "good cao (\<lambda>\<tau>. \<tau> = \<sigma>) u l" "good cao (\<lambda>\<tau>. \<tau> = \<sigma>) u r" using g by auto
  have sz: "size l < size e" "size r < size e" "evaluable \<sigma> l" "evaluable \<sigma> r" using b g by auto
  obtain c s1 where c: "vis l s = Some (ConstantExpr c, s1)" "const_state cao \<sigma> s1" "keeps cao (\<lambda>\<tau>. \<tau> = \<sigma>) l (ConstantExpr c)"
    by (rule evalsE [OF v sz(1) u(1) sz(3) s])
  obtain d s2 where d: "vis r s1 = Some (ConstantExpr d, s2)" "const_state cao \<sigma> s2"
      "keeps cao (\<lambda>\<tau>. \<tau> = \<sigma>) r (ConstantExpr d)" "getValue d = den \<sigma> r"
    by (rule evalsE [OF v sz(2) u(2) sz(4) c(2)])
  have "list_all2 (\<lambda>k k'. denotes cao (\<lambda>\<tau>. \<tau> = \<sigma>) (getWidth k) (\<lambda>\<sigma>. den \<sigma> k) k') (getKids e) [ConstantExpr c, ConstantExpr d]"
    using b u keepsD [OF c(3) u(1)] keepsD [OF d(3) u(2)] by (simp add: good_width)
  from rebuild_const [OF g(1) _ _ _ g(2) this] b obtain x where "rebuild cao e [ConstantExpr c, ConstantExpr d] = Some (ConstantExpr x)"
    by auto
  moreover have "\<not> ConstantExpr__isZero d" using b g(2) d(4) by (simp add: ConstantExpr__isZero_def)
  moreover have "k = UDiv \<or> k = SDiv \<or> k = URem \<or> k = SRem" using b(2) by (simp add: is_div_def)
  ultimately show ?thesis
    using b c d by (auto simp: ExprEvaluator__visitKind_def protectedDivOperation_def Let_def)
qed

lemma visitActual_evals:
  assumes v: "evals cao \<sigma> (size e) vis" and giv: "\<forall>root i. \<exists>c. getInitialValue root i = Some (ConstantExpr c)"
    and s: "const_state cao \<sigma> s" and g: "good cao (\<lambda>\<tau>. \<tau> = \<sigma>) w e" "evaluable \<sigma> e"
  shows "\<exists>c s'. visitActual cao (ExprEvaluator cao getInitialValue) vis e s = Some (ConstantExpr c, s') \<and> const_state cao \<sigma> s'"
proof -
  let ?V = "ExprEvaluator cao getInitialValue :: 'a visitor"
  consider (const) "is_const e"
    | (fold) "\<not> is_const e" "getKind e \<noteq> NotOptimized" "getKind e \<noteq> Read" "\<forall>k \<in> set (getKids e). is_const k"
    | (hook) "\<not> is_const e" "getKind e = Read \<or> (\<exists>k l r. e = BinaryExpr k l r \<and> is_div k \<and> \<not> (is_const l \<and> is_const r))"
    | (kids) "\<not> is_const e" "getKind e \<noteq> Read" "\<forall>k l r. e = BinaryExpr k l r \<longrightarrow> \<not> is_div k"
        "getKind e = NotOptimized \<or> (\<exists>k \<in> set (getKids e). \<not> is_const k)"
    by (cases e) auto
  then show ?thesis
  proof cases
    case const
    with s show ?thesis by (auto simp: visitActual_def is_const_iff)
  next
    case fold
    have "list_all2 (\<lambda>k k'. denotes cao (\<lambda>\<tau>. \<tau> = \<sigma>) (getWidth k) (\<lambda>\<sigma>. den \<sigma> k) k') (getKids e) (getKids e)"
      using good_kids [OF g(1)] by (auto simp: list_all2_same intro: denotes_self)
    from rebuild_const [OF g(1) fold(1-3) g(2) this fold(4)] obtain c where "rebuild cao e (getKids e) = Some (ConstantExpr c)"
      by blast
    moreover have "getNumKids e \<noteq> 0" "getNumKids e \<le> 3" using fold(1) by (cases e; simp add: getNumKids_def)+
    ultimately show ?thesis using fold s
      by (simp add: visitActual_def ExprEvaluator_def ExprEvaluator__visitExpr_def Let_def)
  next
    case hook
    from visitKind_evals [OF v giv s g hook(2)] obtain c s' where
      "ExprEvaluator__visitKind cao getInitialValue vis e s = Some (ChangeTo (ConstantExpr c), s')" "const_state cao \<sigma> s'"
      by blast
    moreover have "getKind e = Read \<or> (\<exists>k \<in> set (getKids e). \<not> is_const k)" using hook(2) by auto
    ultimately show ?thesis using hook(1)
      by (auto simp: visitActual_def ExprEvaluator_def ExprEvaluator__visitExpr_def Let_def)
  next
    case kids
    have nc: "\<exists>k \<in> set (getKids e). \<not> is_const k" using kids g(2) by (cases e) auto
    obtain rs s' where rs: "visitKids vis (getKids e) s = Some (rs, s')" "const_state cao \<sigma> s'" "\<forall>r \<in> set rs. is_const r"
      "list_all2 (\<lambda>k k'. denotes cao (\<lambda>\<tau>. \<tau> = \<sigma>) (getWidth k) (\<lambda>\<sigma>. den \<sigma> k) k') (getKids e) rs"
      using visitKids_evals [OF v, of "getKids e" s] size_kids good_kids [OF g(1)] evaluable_kids [OF g(2)] s by blast
    have "rs \<noteq> getKids e" using nc rs(3) by blast
    have actual: "visitActual cao ?V vis e s = visitChildren cao ?V vis e s"
      using kids nc by (auto simp: visitActual_def ExprEvaluator_def ExprEvaluator__visitExpr_def
          ExprEvaluator__visitKind_def is_div_def Let_def split: expr.splits)
    show ?thesis
    proof (cases "getKind e = NotOptimized")
      case True
      then obtain src where "e = NotOptimizedExpr src" by (cases e) auto
      moreover from this rs(3,4) obtain c where "rs = [ConstantExpr c]"
        by (auto simp: list_all2_Cons1 is_const_iff)
      ultimately show ?thesis
        using actual rs \<open>rs \<noteq> getKids e\<close>
        by (simp add: visitChildren_def NotOptimizedExpr__create_def ExprEvaluator_def
            ExprEvaluator__visitExprPost_def del: visitKids.simps)
    next
      case False
      from rebuild_const [OF g(1) kids(1) False kids(2) g(2) rs(4,3)] obtain c where "rebuild cao e rs = Some (ConstantExpr c)"
        by blast
      with actual rs \<open>rs \<noteq> getKids e\<close> show ?thesis
        by (simp add: visitChildren_def ExprEvaluator_def)
    qed
  qed
qed

lemma evaluable_dom32:
  "evaluable \<sigma> e \<Longrightarrow> dom32 e" "evaluable_upd \<sigma> us \<Longrightarrow> dom32_upd us"
  by (induction e and us rule: expr.induct updateNode.induct) auto

lemma visit_evals:
  assumes giv: "\<forall>root i. \<exists>c. getInitialValue root i = Some (ConstantExpr c)"
    and ok: "initial_ok cao (\<lambda>\<tau>. \<tau> = \<sigma>) getInitialValue"
  shows "evals cao \<sigma> n (visit cao uvh (ExprEvaluator cao getInitialValue :: 's visitor) n)"
proof (induction n)
  case 0
  then show ?case by (simp add: evals_def)
next
  case (Suc n)
  let ?V = "ExprEvaluator cao getInitialValue :: 's visitor"
  show ?case unfolding evals_def
  proof (intro allI impI)
    fix e w and s :: "'s vstate"
    assume e: "size e < Suc n" "good cao (\<lambda>\<tau>. \<tau> = \<sigma>) w e" "evaluable \<sigma> e" and s: "const_state cao \<sigma> s"
    have v: "evals cao \<sigma> (size e) (visit cao uvh ?V n)"
      using Suc e(1) unfolding evals_def by (meson less_Suc_eq_le less_le_trans)
    obtain c s1 where c: "visitActual cao ?V (visit cao uvh ?V n) e s = Some (ConstantExpr c, s1)" "const_state cao \<sigma> s1"
      using visitActual_evals [OF v giv s e(2,3)] by blast
    have snd: "keeps cao (\<lambda>\<tau>. \<tau> = \<sigma>) e r" if "visit cao uvh ?V (Suc n) e s = Some (r, s')" for r s'
      using visit_okD(1) [OF visitor_sound.visit_sound [OF ExprEvaluator_sound [OF ok], where I = "\<lambda>_. True"] that e(2)]
        evaluable_dom32(1) [OF e(3)] s by (auto simp: state_ok_def const_state_def)
    show "\<exists>c s'. visit cao uvh ?V (Suc n) e s = Some (ConstantExpr c, s') \<and>
        keeps cao (\<lambda>\<tau>. \<tau> = \<sigma>) e (ConstantExpr c) \<and> const_state cao \<sigma> s'"
    proof (cases "uvh \<and> \<not> is_const e")
      case False
      then have "visit cao uvh ?V (Suc n) e s = Some (ConstantExpr c, s1)" using c by auto
      with snd c show ?thesis by blast
    next
      case True
      show ?thesis
      proof (cases "map_of (visited s) e")
        case None
        then have x: "visit cao uvh ?V (Suc n) e s =
            Some (ConstantExpr c, s1\<lparr>visited := insert_absent e (ConstantExpr c) (visited s1)\<rparr>)"
          using True c by simp
        have "const_state cao \<sigma> (s1\<lparr>visited := insert_absent e (ConstantExpr c) (visited s1)\<rparr>)"
          using snd [OF x] c by (auto simp: const_state_def insert_absent_def split: option.splits)
        with x snd [OF x] show ?thesis by blast
      next
        case (Some r)
        then have "is_const r" using s by (auto simp: const_state_def dest: map_of_SomeD)
        with Some True snd s show ?thesis by (auto simp: is_const_iff)
      qed
    qed
  qed
qed

lemma evaluate_byte_const:
  "\<not> allowFreeValues a \<Longrightarrow> \<forall>root i. \<exists>c. Assignment__evaluate_byte cao a root i = Some (ConstantExpr c)"
  by (auto simp: evaluate_byte_eq split: option.splits)

lemma visit_AssignmentEvaluator:
  assumes a: "\<not> allowFreeValues a" and e: "wf e" "evaluable (asg_env a) e" "cao \<longrightarrow> inb (asg_env a) e"
    and s: "const_state cao (asg_env a) s"
  shows "\<exists>s'. visit cao uvh (AssignmentEvaluator cao a) (Suc (size e)) e s =
    Some (ConstantExpr (APInt (getWidth e) (den (asg_env a) e)), s') \<and> const_state cao (asg_env a) s'"
proof -
  have ok: "initial_ok cao (\<lambda>\<tau>. \<tau> = asg_env a) (Assignment__evaluate_byte cao a)"
    by (rule initial_ok_assignment) (simp add: agrees_asg_env)
  have g: "good cao (\<lambda>\<tau>. \<tau> = asg_env a) (getWidth e) e" using e by (simp add: good_def)
  obtain c s' where c: "visit cao uvh (AssignmentEvaluator cao a) (Suc (size e)) e s = Some (ConstantExpr c, s')"
      "const_state cao (asg_env a) s'" "getBitWidth c = getWidth e" "getValue c = den (asg_env a) e"
    unfolding AssignmentEvaluator_def
    by (rule evalsE [OF visit_evals [OF evaluate_byte_const [OF a] ok] lessI g e(2) s])
  moreover have "c = APInt (getWidth e) (den (asg_env a) e)" using c(3,4) by (cases c) simp
  ultimately show ?thesis by blast
qed

section \<open>What evaluation guarantees\<close>

lemma const_state_vinit [simp]: "const_state cao \<sigma> (vinit x)"
  by (simp add: const_state_def vinit_def)


definition ex_assignment :: assignment where
  "ex_assignment = \<lparr>allowFreeValues = False, bindings = [(ex_array, [200, 100])]\<rparr>"

lemma asg_env_ex [simp]: "asg_env ex_assignment ex_array 0 = 200" "asg_env ex_assignment ex_array 1 = 100"
  by (simp_all add: asg_env_def bound_byte_def ex_assignment_def)

lemma den_ex_byte: "den \<sigma> (ex_byte i) = \<sigma> ex_array (int i mod 16) mod 256"
  by (simp add: ex_byte_def init_val_def)

lemma evaluable_ex_byte [simp]: "evaluable \<sigma> (ex_byte i)"
  by (simp add: ex_byte_def)




lemma satisfies_loop_correct:
  assumes a: "\<not> allowFreeValues a"
  shows "\<forall>e \<in> set es. wf e \<and> getWidth e = 1 \<and> evaluable (asg_env a) e \<and> (cao \<longrightarrow> inb (asg_env a) e) \<Longrightarrow>
    const_state cao (asg_env a) s \<Longrightarrow>
    satisfies_loop cao uvh a es s = Some (\<forall>e \<in> set es. den (asg_env a) e \<noteq> 0)"
proof (induction es arbitrary: s)
  case (Cons e es)
  then obtain s' where "visit cao uvh (AssignmentEvaluator cao a) (Suc (size e)) e s =
      Some (ConstantExpr (APInt 1 (den (asg_env a) e)), s')" "const_state cao (asg_env a) s'"
    using visit_AssignmentEvaluator [OF a, of e cao s uvh] by auto
  with Cons show ?case by (auto simp: Expr__isTrue_def ConstantExpr__isTrue_def simp del: visit.simps)
qed simp




section \<open>Constraints from an assignment\<close>

definition byte_constraint :: "array \<Rightarrow> 8 word list \<Rightarrow> nat \<Rightarrow> expr" where
  "byte_constraint arr vals j =
     BinaryExpr Eq (ConstantExpr (ConstantExpr__alloc (ucast (vals ! j)) (arr_range arr)))
       (ReadExpr arr NoUpdate (ConstantExpr (ConstantExpr__alloc (of_nat j) (arr_domain arr))))"

text \<open>A symbolic array of bytes with an index of 32 bits, as the executor makes them.\<close>

definition byte_array :: "array \<Rightarrow> bool" where
  "byte_array arr \<longleftrightarrow> wf_array arr \<and> isSymbolicArray arr \<and> arr_domain arr = 32 \<and> arr_range arr = 8"

lemma byte_array_index:
  assumes "byte_array arr" "j < arr_size arr"
  shows "getValue (ConstantExpr__alloc (of_nat j) 32) = int j"
  using assms by (intro getValue_alloc_index) (auto simp: byte_array_def wf_array_def)

lemma byte_constraint_create:
  assumes "byte_array arr"
  shows "(ReadExpr__create cao (arr, NoUpdate) (ConstantExpr (ConstantExpr__alloc (of_nat j) (arr_domain arr))) \<bind>
     (\<lambda>rd. EqExpr__create cao rd (ConstantExpr (ConstantExpr__alloc (ucast (vals ! j)) (arr_range arr)))))
     = Some (byte_constraint arr vals j)"
  using assms
  by (simp add: ReadExpr__create_def getZExtValue_def byte_array_def EqExpr__create.simps [of _ "ReadExpr _ _ _"]
      BCREATE_R_def EqExpr_createPartial.simps [of _ "ReadExpr _ _ _"] EqExpr_createPartialR.simps [of _ _ "ReadExpr _ _ _"]
      TryConstArrayOpt_def isConstantArray_def EqExpr_create_def byte_constraint_def)

lemma array_constraints_eq:
  assumes "byte_array arr" "\<forall>j \<in> set js. j < length vals"
  shows "array_constraints cao arr vals js = Some (map (byte_constraint arr vals) js)"
  using assms(2)
proof (induction js)
  case (Cons j js)
  then show ?case
    using byte_constraint_create [OF assms(1), of cao j vals]
    by (simp add: bind_assoc [symmetric])
qed simp

lemma bindings_constraints_eq:
  assumes "\<forall>(arr, vals) \<in> set bs. byte_array arr \<and> arr_size arr \<le> length vals"
  shows "bindings_constraints cao bs =
    Some (concat (map (\<lambda>(arr, vals). map (byte_constraint arr vals) [0..<arr_size arr]) bs))"
  using assms by (induction bs) (auto simp: array_constraints_eq)

lemma byte_constraint_value:
  assumes "byte_array arr" "j < arr_size arr"
  shows "wf (byte_constraint arr vals j)" "getWidth (byte_constraint arr vals j) = 1"
    "evaluable \<sigma> (byte_constraint arr vals j)" "inb \<sigma> (byte_constraint arr vals j)"
    "den \<sigma> (byte_constraint arr vals j) = of_bool (init_val \<sigma> arr (int j) = uint (vals ! j))"
proof -
  have "uint (vals ! j) mod 256 = uint (vals ! j)" using uint_bounded [of "vals ! j"] by simp
  then show "wf (byte_constraint arr vals j)" "getWidth (byte_constraint arr vals j) = 1"
    "evaluable \<sigma> (byte_constraint arr vals j)" "inb \<sigma> (byte_constraint arr vals j)"
    "den \<sigma> (byte_constraint arr vals j) = of_bool (init_val \<sigma> arr (int j) = uint (vals ! j))"
    using assms byte_array_index [OF assms]
    by (auto simp: byte_constraint_def byte_array_def wf_apint_ops is_div_def isConstantArray_def
        getValue_alloc uint_ucast_byte)
qed

text \<open>
  (C26) The constraints of \<open>createConstraintsFromAssignment\<close> hold exactly in the
  environments that give every bound array its bytes, and the assignment they were made
  from satisfies them.
\<close>

theorem createConstraints_satisfies:
  assumes "\<not> allowFreeValues a" "distinct (map fst (bindings a))"
    and "\<forall>(arr, vals) \<in> set (bindings a). byte_array arr \<and> arr_size arr \<le> length vals"
  shows "\<exists>es. createConstraintsFromAssignment cao a = Some es
    \<and> (\<forall>\<sigma>. (\<forall>e \<in> set es. den \<sigma> e \<noteq> 0) \<longleftrightarrow>
          (\<forall>(arr, vals) \<in> set (bindings a). \<forall>j < arr_size arr. init_val \<sigma> arr (int j) = uint (vals ! j)))
    \<and> Assignment__satisfies cao uvh a es = Some True"
proof -
  let ?es = "concat (map (\<lambda>(arr, vals). map (byte_constraint arr vals) [0..<arr_size arr]) (bindings a))"
  have es: "set ?es = (\<Union>(arr, vals) \<in> set (bindings a). byte_constraint arr vals ` {..<arr_size arr})"
    by (auto simp: atLeast0LessThan)
  have e1: "createConstraintsFromAssignment cao a = Some ?es"
    using assms(3) by (simp add: createConstraintsFromAssignment_def bindings_constraints_eq)
  have e2: "(\<forall>e \<in> set ?es. den \<sigma> e \<noteq> 0) \<longleftrightarrow>
      (\<forall>(arr, vals) \<in> set (bindings a). \<forall>j < arr_size arr. init_val \<sigma> arr (int j) = uint (vals ! j))" for \<sigma>
    unfolding es using assms(3) byte_constraint_value(5) by fastforce
  have "init_val (asg_env a) arr (int j) = uint (vals ! j)"
    if "(arr, vals) \<in> set (bindings a)" "j < arr_size arr" for arr vals j
  proof -
    have "map_of (bindings a) arr = Some vals" using that(1) assms(2) by simp
    moreover have "byte_array arr" "j < length vals" using that assms(3) by auto
    moreover have "uint (vals ! j) mod 256 = uint (vals ! j)" using uint_bounded [of "vals ! j"] by simp
    ultimately show ?thesis
      by (simp add: init_val_def asg_env_def bound_byte_def byte_array_def isConstantArray_def)
  qed
  with e2 have "\<forall>e \<in> set ?es. den (asg_env a) e \<noteq> 0" by fastforce
  moreover have "\<forall>e \<in> set ?es. wf e \<and> getWidth e = 1 \<and> evaluable (asg_env a) e \<and> (cao \<longrightarrow> inb (asg_env a) e)"
    unfolding es using assms(3) byte_constraint_value by fastforce
  ultimately have "Assignment__satisfies cao uvh a ?es = Some True"
    using satisfies_loop_correct [OF assms(1)] by (simp add: Assignment__satisfies_def)
  with e1 e2 show ?thesis by blast
qed

theorem createConstraints_satisfies_witness:
  "\<exists>es. createConstraintsFromAssignment True \<lparr>allowFreeValues = False, bindings = [(ex_array, replicate 16 7)]\<rparr> = Some es
    \<and> Assignment__satisfies True True \<lparr>allowFreeValues = False, bindings = [(ex_array, replicate 16 7)]\<rparr> es = Some True"
  using createConstraints_satisfies [of "\<lparr>allowFreeValues = False, bindings = [(ex_array, replicate 16 7)]\<rparr>" True True]
  by (auto simp: byte_array_def isSymbolicArray_def ex_array_def [THEN arg_cong, of constantValues])

end
