(* ===== verification/Constraint_Manager.thy ===== *)
theory Constraint_Manager
  imports Expr_Eval
begin

text \<open>
  Constraint sets and their simplification, \<open>lib/Expr/Constraints.cpp\<close>. A
  \<open>ConstraintSet\<close> is the vector of its constraints. \<open>addConstraintInternal\<close> and
  \<open>rewriteConstraints\<close> call each other, and a constraint that was rewritten is added
  again, so their depth is bounded by fuel: \<open>None\<close> is a failed assertion or exhausted
  fuel.
\<close>

section \<open>The replacing visitors\<close>

definition ExprReplaceVisitor__visitExpr :: "expr \<Rightarrow> expr \<Rightarrow> unit hook" where
  "ExprReplaceVisitor__visitExpr src dst vis e s =
     Some (if e = src then ChangeTo dst else DoChildren, s)"

definition ExprReplaceVisitor__visitExprPost :: "expr \<Rightarrow> expr \<Rightarrow> unit hook" where
  "ExprReplaceVisitor__visitExprPost src dst vis e s =
     Some (if e = src then ChangeTo dst else DoChildren, s)"

definition ExprReplaceVisitor :: "expr \<Rightarrow> expr \<Rightarrow> unit visitor" where
  "ExprReplaceVisitor src dst =
     \<lparr>recursive = False,
      visitExpr = ExprReplaceVisitor__visitExpr src dst,
      visitKind = ExprVisitor__visitKind,
      visitExprPost = ExprReplaceVisitor__visitExprPost src dst\<rparr>"

definition ExprReplaceVisitor2__visitExprPost :: "(expr \<times> expr) list \<Rightarrow> unit hook" where
  "ExprReplaceVisitor2__visitExprPost replacements vis e s =
     Some (case map_of replacements e of Some v \<Rightarrow> ChangeTo v | None \<Rightarrow> DoChildren, s)"

definition ExprReplaceVisitor2 :: "(expr \<times> expr) list \<Rightarrow> unit visitor" where
  "ExprReplaceVisitor2 replacements =
     \<lparr>recursive = True,
      visitExpr = ExprVisitor__visitExpr,
      visitKind = ExprVisitor__visitKind,
      visitExprPost = ExprReplaceVisitor2__visitExprPost replacements\<rparr>"

section \<open>The constraint manager\<close>

type_synonym constraintSet = "expr list"

definition ConstraintSet__empty :: "constraintSet \<Rightarrow> bool" where
  "ConstraintSet__empty cs \<longleftrightarrow> cs = []"

definition ConstraintSet__size :: "constraintSet \<Rightarrow> nat" where
  "ConstraintSet__size cs = length cs"

definition ConstraintSet__push_back :: "constraintSet \<Rightarrow> expr \<Rightarrow> constraintSet" where
  "ConstraintSet__push_back cs e = cs @ [e]"

text \<open>
  \<open>rewriteConstraints\<close>: \<open>old\<close> are the constraints before the swap, \<open>constraints\<close> the
  vector that is being refilled, \<open>add\<close> the call of \<open>addConstraintInternal\<close>.
\<close>

fun rewriteConstraints ::
  "(expr \<Rightarrow> constraintSet \<Rightarrow> constraintSet option) \<Rightarrow> (expr \<Rightarrow> unit visit) \<Rightarrow> constraintSet
   \<Rightarrow> unit vstate \<Rightarrow> constraintSet \<Rightarrow> bool \<Rightarrow> (constraintSet \<times> bool) option" where
  "rewriteConstraints add vis [] s constraints changed = Some (constraints, changed)"
| "rewriteConstraints add vis (ce # old) s constraints changed = do {
     (e, s) \<leftarrow> vis ce ce s;
     if e \<noteq> ce then do {
       constraints \<leftarrow> add e constraints;
       rewriteConstraints add vis old s constraints True
     }
     else rewriteConstraints add vis old s (ConstraintSet__push_back constraints ce) changed
   }"

text \<open>
  \<open>ExprReplaceVisitor\<close> is not recursive, so the size of a constraint bounds the depth of
  its traversal.
\<close>

definition replace_visit :: "bool \<Rightarrow> bool \<Rightarrow> expr \<Rightarrow> expr \<Rightarrow> expr \<Rightarrow> unit visit" where
  "replace_visit cao uvh src dst ce = visit cao uvh (ExprReplaceVisitor src dst) (Suc (size ce))"

fun addConstraintInternal ::
  "bool \<Rightarrow> bool \<Rightarrow> bool \<Rightarrow> nat \<Rightarrow> expr \<Rightarrow> constraintSet \<Rightarrow> constraintSet option" where
  "addConstraintInternal cao uvh RewriteEqualities 0 e constraints = None"
| "addConstraintInternal cao uvh RewriteEqualities (Suc n) e constraints =
     (case e of
        ConstantExpr c \<Rightarrow> do {
          assert_that (ConstantExpr__isTrue c);
          Some constraints
        }
      | BinaryExpr k left right \<Rightarrow>
          if k = And then do {
            constraints \<leftarrow> addConstraintInternal cao uvh RewriteEqualities n left constraints;
            addConstraintInternal cao uvh RewriteEqualities n right constraints
          }
          else if k = Eq then do {
            constraints \<leftarrow>
              (if RewriteEqualities \<and> is_const left
               then map_option fst
                      (rewriteConstraints (addConstraintInternal cao uvh RewriteEqualities n)
                        (replace_visit cao uvh right left) constraints (vinit ()) [] False)
               else Some constraints);
            Some (ConstraintSet__push_back constraints e)
          }
          else Some (ConstraintSet__push_back constraints e)
      | _ \<Rightarrow> Some (ConstraintSet__push_back constraints e))"

text \<open>\<open>simplifyExpr\<close>: \<open>equalities.insert\<close> keeps the first entry of a key.\<close>

fun simplifyExpr_equalities :: "constraintSet \<Rightarrow> (expr \<times> expr) list \<Rightarrow> (expr \<times> expr) list" where
  "simplifyExpr_equalities [] equalities = equalities"
| "simplifyExpr_equalities (constraint # cs) equalities =
     simplifyExpr_equalities cs
       (case constraint of
          BinaryExpr k left right \<Rightarrow>
            if k = Eq then
              if is_const left then insert_absent right left equalities
              else insert_absent constraint (ConstantExpr (ConstantExpr__alloc 1 1)) equalities
            else insert_absent constraint (ConstantExpr (ConstantExpr__alloc 1 1)) equalities
        | _ \<Rightarrow> insert_absent constraint (ConstantExpr (ConstantExpr__alloc 1 1)) equalities)"

definition simplifyExpr :: "bool \<Rightarrow> bool \<Rightarrow> nat \<Rightarrow> constraintSet \<Rightarrow> expr \<Rightarrow> expr option" where
  "simplifyExpr cao uvh n constraints e =
     (if is_const e then Some e
      else map_option fst
        (visit cao uvh (ExprReplaceVisitor2 (simplifyExpr_equalities constraints [])) n e (vinit ())))"

definition addConstraint ::
  "bool \<Rightarrow> bool \<Rightarrow> bool \<Rightarrow> nat \<Rightarrow> expr \<Rightarrow> constraintSet \<Rightarrow> constraintSet option" where
  "addConstraint cao uvh RewriteEqualities n e constraints = do {
     simplified \<leftarrow> simplifyExpr cao uvh n constraints e;
     addConstraintInternal cao uvh RewriteEqualities n simplified constraints
   }"

section \<open>The visitors keep values where their equalities hold\<close>

lemma ExprReplaceVisitor_sound:
  assumes "\<And>w. good cao A w src \<Longrightarrow> denotes cao A w (\<lambda>\<sigma>. den \<sigma> src) dst"
  shows "visitor_sound cao A (\<lambda>_. True) (\<lambda>_. True) (ExprReplaceVisitor src dst)"
  using assms
  by unfold_locales
    (auto simp: ExprReplaceVisitor_def hook_ok_def ExprReplaceVisitor__visitExpr_def
      ExprReplaceVisitor__visitExprPost_def ExprVisitor__visitKind_def keeps_def split: if_splits)

lemma ExprReplaceVisitor2_sound:
  assumes "\<forall>(k, v) \<in> set rs. keeps cao A k v"
  shows "visitor_sound cao A (\<lambda>_. True) (\<lambda>_. True) (ExprReplaceVisitor2 rs)"
  using assms
  by unfold_locales
    (auto simp: ExprReplaceVisitor2_def hook_ok_def ExprReplaceVisitor2__visitExprPost_def
      ExprVisitor__visitExpr_def ExprVisitor__visitKind_def
      dest: map_of_SomeD split: option.splits)

text \<open>The replacement of an expression by itself, an instance without any condition.\<close>

interpretation replace_id: visitor_sound cao A "\<lambda>_. True" "\<lambda>_. True" "ExprReplaceVisitor src src" for cao A src
  by (rule ExprReplaceVisitor_sound) (rule denotes_self)

section \<open>Meaning of a constraint set\<close>

definition holds :: "env \<Rightarrow> constraintSet \<Rightarrow> bool" where
  "holds \<sigma> cs \<longleftrightarrow> (\<forall>c \<in> set cs. den \<sigma> c \<noteq> 0)"

definition wf_constraint :: "expr \<Rightarrow> bool" where
  "wf_constraint e \<longleftrightarrow> wf e \<and> getWidth e = 1"

lemma good_False: "good False A w e \<longleftrightarrow> wf e \<and> getWidth e = w"
  by (simp add: good_def)

definition adds :: "(expr \<Rightarrow> constraintSet \<Rightarrow> constraintSet option) \<Rightarrow> bool" where
  "adds add \<longleftrightarrow> (\<forall>e cs cs'. wf_constraint e \<longrightarrow> (\<forall>c \<in> set cs. wf_constraint c) \<longrightarrow> add e cs = Some cs' \<longrightarrow>
     (\<forall>c \<in> set cs'. wf_constraint c) \<and> (\<forall>\<sigma>. holds \<sigma> cs' \<longleftrightarrow> holds \<sigma> cs \<and> den \<sigma> e \<noteq> 0))"

lemma addsD:
  assumes "adds add" "add e cs = Some cs'" "wf_constraint e" "\<forall>c \<in> set cs. wf_constraint c"
  shows "\<forall>c \<in> set cs'. wf_constraint c" "holds \<sigma> cs' \<longleftrightarrow> holds \<sigma> cs \<and> den \<sigma> e \<noteq> 0"
  using assms unfolding adds_def by blast+

lemma holds_simps [simp]:
  "holds \<sigma> []" "holds \<sigma> (c # cs) \<longleftrightarrow> den \<sigma> c \<noteq> 0 \<and> holds \<sigma> cs"
  "holds \<sigma> (cs @ ds) \<longleftrightarrow> holds \<sigma> cs \<and> holds \<sigma> ds"
  by (auto simp: holds_def)

lemma rewriteConstraints_ok:
  assumes add: "adds add" and v: "\<And>ce. visit_ok False A (\<lambda>_. True) (\<lambda>_. True) (vis ce)"
  shows "rewriteConstraints add vis old s cs ch = Some (cs', ch') \<Longrightarrow> \<forall>c \<in> set old. wf_constraint c \<Longrightarrow>
    \<forall>c \<in> set cs. wf_constraint c \<Longrightarrow> state_ok False A (\<lambda>_. True) s \<Longrightarrow>
    (\<forall>c \<in> set cs'. wf_constraint c) \<and> (\<forall>\<sigma>. A \<sigma> \<longrightarrow> (holds \<sigma> cs' \<longleftrightarrow> holds \<sigma> cs \<and> holds \<sigma> old))"
proof (induction old arbitrary: s cs ch)
  case (Cons ce old)
  from Cons.prems(1) obtain e s1 where e: "vis ce ce s = Some (e, s1)" by (auto simp: bind_eq_Some_conv)
  have g: "good False A 1 ce" using Cons.prems(2) by (simp add: good_False wf_constraint_def)
  note 1 = visit_okD [OF v e g TrueI Cons.prems(4)]
  have d: "wf_constraint e" "\<And>\<sigma>. A \<sigma> \<Longrightarrow> den \<sigma> e = den \<sigma> ce"
    using keepsD [OF 1(1) g] by (auto simp: denotes_def good_False wf_constraint_def)
  show ?case
  proof (cases "e = ce")
    case True
    with Cons.IH [of s1 "cs @ [ce]" ch] Cons.prems e 1(2) show ?thesis
      by (auto simp: ConstraintSet__push_back_def)
  next
    case False
    with Cons.prems e obtain cs1 where cs1: "add e cs = Some cs1"
        "rewriteConstraints add vis old s1 cs1 True = Some (cs', ch')"
      by (auto simp: bind_eq_Some_conv)
    note a = addsD [OF add cs1(1) d(1) Cons.prems(3)]
    from Cons.IH [OF cs1(2) _ a(1) 1(2)] Cons.prems(2) a(2) d(2) show ?thesis by auto
  qed
qed simp

lemma and_1_neq_0: "in_width (Suc 0) x \<Longrightarrow> in_width (Suc 0) y \<Longrightarrow> x AND y \<noteq> 0 \<longleftrightarrow> x \<noteq> 0 \<and> (y :: int) \<noteq> 0"
  by (auto simp: in_width_Suc_0)

lemma wf_constraint_And:
  assumes "wf_constraint (BinaryExpr And l r)"
  shows "wf_constraint l" "wf_constraint r" "den \<sigma> (BinaryExpr And l r) \<noteq> 0 \<longleftrightarrow> den \<sigma> l \<noteq> 0 \<and> den \<sigma> r \<noteq> 0"
proof -
  have w: "wf l" "wf r" "getWidth l = 1" "getWidth r = 1" using assms by (auto simp: wf_constraint_def)
  then show "wf_constraint l" "wf_constraint r" by (simp_all add: wf_constraint_def)
  show "den \<sigma> (BinaryExpr And l r) \<noteq> 0 \<longleftrightarrow> den \<sigma> l \<noteq> 0 \<and> den \<sigma> r \<noteq> 0"
    using and_1_neq_0 [OF in_width_den [OF w(1), unfolded w(3) One_nat_def] in_width_den [OF w(2), unfolded w(4) One_nat_def]]
    by simp
qed

lemma replace_visit_ok:
  assumes "wf_constraint (BinaryExpr Eq l r)"
  shows "visit_ok False (\<lambda>\<sigma>. den \<sigma> (BinaryExpr Eq l r) \<noteq> 0) (\<lambda>_. True) (\<lambda>_. True) (replace_visit False uvh r l ce)"
  unfolding replace_visit_def
  by (rule visitor_sound.visit_sound, rule ExprReplaceVisitor_sound)
    (use assms in \<open>auto simp: wf_constraint_def denotes_def good_False split: if_splits\<close>)

lemma adds_addConstraintInternal: "adds (addConstraintInternal False uvh re n)"
proof (induction n)
  case 0
  then show ?case by (simp add: adds_def)
next
  case (Suc n)
  show ?case unfolding adds_def
  proof (intro allI impI)
    fix e cs cs'
    assume e: "wf_constraint e" and cs: "\<forall>c \<in> set cs. wf_constraint c"
      and r: "addConstraintInternal False uvh re (Suc n) e cs = Some cs'"
    let ?P = "(\<forall>c \<in> set cs'. wf_constraint c) \<and> (\<forall>\<sigma>. holds \<sigma> cs' \<longleftrightarrow> holds \<sigma> cs \<and> den \<sigma> e \<noteq> 0)"
    consider (const) c where "e = ConstantExpr c" | (And) l rt where "e = BinaryExpr And l rt"
      | (Eq) l rt where "e = BinaryExpr Eq l rt" "re" "is_const l"
      | (other) "cs' = cs @ [e]"
      using r by (auto simp: ConstraintSet__push_back_def split: expr.splits if_splits)
    then show ?P
    proof cases
      case const
      with r cs show ?thesis by (auto simp: ConstantExpr__isTrue_def assert_that_bind split: if_splits)
    next
      case And
      with r obtain cs1 where c: "addConstraintInternal False uvh re n l cs = Some cs1"
          "addConstraintInternal False uvh re n rt cs1 = Some cs'"
        by (auto simp: bind_eq_Some_conv)
      note w = wf_constraint_And [OF e [unfolded And]]
      note 1 = addsD [OF Suc c(1) w(1) cs]
      note 2 = addsD [OF Suc c(2) w(2) 1(1)]
      show ?thesis using 2 1(2) w(3) And by metis
    next
      case Eq
      let ?A = "\<lambda>\<sigma>. den \<sigma> (BinaryExpr Eq l rt) \<noteq> 0"
      from r Eq obtain cs1 ch where c: "rewriteConstraints (addConstraintInternal False uvh re n)
          (replace_visit False uvh rt l) cs (vinit ()) [] False = Some (cs1, ch)" "cs' = cs1 @ [e]"
        by (auto simp: ConstraintSet__push_back_def bind_eq_Some_conv)
      from rewriteConstraints_ok [OF Suc replace_visit_ok c(1)] cs e Eq(1)
      have "(\<forall>c \<in> set cs1. wf_constraint c) \<and> (\<forall>\<sigma>. ?A \<sigma> \<longrightarrow> (holds \<sigma> cs1 \<longleftrightarrow> holds \<sigma> cs))"
        by simp
      with c(2) e Eq(1) show ?thesis by auto
    next
      case other
      with cs e show ?thesis by auto
    qed
  qed
qed

lemma equalities_keep:
  assumes "\<forall>(k, v) \<in> set eqs. keeps False A k v" "\<forall>c \<in> set cs. wf_constraint c" "\<And>\<sigma>. A \<sigma> \<Longrightarrow> holds \<sigma> cs"
  shows "\<forall>(k, v) \<in> set (simplifyExpr_equalities cs eqs). keeps False A k v"
  using assms
proof (induction cs arbitrary: eqs)
  case (Cons c cs)
  have wc: "wf_constraint c" "\<And>\<sigma>. A \<sigma> \<Longrightarrow> den \<sigma> c \<noteq> 0" using Cons.prems by auto
  have "den \<sigma> c = 1" if "A \<sigma>" for \<sigma>
    using wc(2) [OF that] in_width_den [of c \<sigma>] wc(1) by (auto simp: wf_constraint_def in_width_Suc_0)
  then have t: "keeps False A c (ConstantExpr (ConstantExpr__alloc 1 1))"
    using wc(1) by (auto simp: keeps_def denotes_def good_False wf_constraint_def getValue_alloc wf_apint_ops)
  have e: "keeps False A r l" if "c = BinaryExpr Eq l r" for l r
    using wc that by (auto simp: keeps_def denotes_def good_False wf_constraint_def split: if_splits)
  have "\<forall>(k, v) \<in> set (insert_absent x y eqs). keeps False A k v" if "keeps False A x y" for x y
    using that Cons.prems(1) by (auto simp: insert_absent_def split: option.splits)
  with t e have "\<forall>(k, v) \<in> set (case c of
          BinaryExpr k left right \<Rightarrow>
            if k = Eq then
              if is_const left then insert_absent right left eqs
              else insert_absent c (ConstantExpr (ConstantExpr__alloc 1 1)) eqs
            else insert_absent c (ConstantExpr (ConstantExpr__alloc 1 1)) eqs
        | _ \<Rightarrow> insert_absent c (ConstantExpr (ConstantExpr__alloc 1 1)) eqs). keeps False A k v"
    by (cases c) (simp_all split: if_split, blast)
  from Cons.IH [OF this] Cons.prems show ?case by simp
qed simp

lemma simplifyExpr_ok:
  assumes e: "wf e" and cs: "\<forall>c \<in> set cs. wf_constraint c" and r: "simplifyExpr False uvh n cs e = Some r"
  shows "wf r \<and> getWidth r = getWidth e \<and> (\<forall>\<sigma>. holds \<sigma> cs \<longrightarrow> den \<sigma> r = den \<sigma> e)"
proof (cases "is_const e")
  case True
  with r e show ?thesis by (simp add: simplifyExpr_def)
next
  case False
  let ?A = "\<lambda>\<sigma>. holds \<sigma> cs"
  let ?V = "ExprReplaceVisitor2 (simplifyExpr_equalities cs [])"
  from False r obtain s' where v: "visit False uvh ?V n e (vinit ()) = Some (r, s')"
    by (auto simp: simplifyExpr_def)
  have "visit_ok False ?A (\<lambda>_. True) (\<lambda>_. True) (visit False uvh ?V n)"
    by (intro visitor_sound.visit_sound ExprReplaceVisitor2_sound equalities_keep) (use cs in auto)
  from visit_okD(1) [OF this v _ _ state_ok_vinit, of "getWidth e"] e
  have "keeps False ?A e r" by (simp add: good_False)
  from keepsD [OF this, of "getWidth e"] e show ?thesis by (auto simp: good_False denotes_def)
qed

section \<open>What the constraint manager guarantees\<close>


definition ex_constraints :: constraintSet where
  "ex_constraints = [BinaryExpr Ult (ex_byte 0) (ex_byte 1)]"

lemma addConstraint_ex:
  "addConstraint False True True 5 (BinaryExpr Eq (ConstantExpr (APInt 8 5)) (ex_byte 0)) ex_constraints =
     Some [BinaryExpr Ult (ConstantExpr (APInt 8 5)) (ex_byte 1), BinaryExpr Eq (ConstantExpr (APInt 8 5)) (ex_byte 0)]"
  by code_simp


lemma size_ex_byte [simp]: "size (ex_byte i) = 1"
  by (simp add: ex_byte_def)

fun conjuncts :: "expr \<Rightarrow> expr list" where
  "conjuncts (BinaryExpr k l r) = (if k = And then conjuncts l @ conjuncts r else [BinaryExpr k l r])"
| "conjuncts e = [e]"

definition triggers_rewrite :: "expr \<Rightarrow> bool" where
  "triggers_rewrite e \<longleftrightarrow> (case e of BinaryExpr k l r \<Rightarrow> k = Eq \<and> is_const l | _ \<Rightarrow> False)"



end
