(* ===== verification/Expr_Builder.thy ===== *)
theory Expr_Builder
  imports Expr_Correct
begin

text \<open>
  The builders of \<open>lib/Expr/ExprBuilder.cpp\<close>: an abstract factory of expressions, the
  default builder that only allocates, a constant-folding builder and a simplifying builder,
  each stacked on a base builder.

  A builder is the record of its virtual methods; \<open>b_Binary B k\<close> is the method named
  \<open>k\<close>, for the 23 methods \<open>Add\<close> to \<open>Sge\<close>. A stacked builder calls itself through the
  pointer \<open>Builder\<close>, so a builder object is the sequence of its methods with calls of
  depth at most \<open>n\<close>; \<open>None\<close> is a failed assertion or an exhausted depth, and the locale
  \<open>expr_builder\<close> demands that some depth is enough.
\<close>

section \<open>Builders\<close>

record builder =
  b_Constant :: "apint \<Rightarrow> expr option"
  b_NotOptimized :: "expr \<Rightarrow> expr option"
  b_Read :: "array \<Rightarrow> updateNode \<Rightarrow> expr \<Rightarrow> expr option"
  b_Select :: "expr \<Rightarrow> expr \<Rightarrow> expr \<Rightarrow> expr option"
  b_Concat :: "expr \<Rightarrow> expr \<Rightarrow> expr option"
  b_Extract :: "expr \<Rightarrow> nat \<Rightarrow> nat \<Rightarrow> expr option"
  b_ZExt :: "expr \<Rightarrow> nat \<Rightarrow> expr option"
  b_SExt :: "expr \<Rightarrow> nat \<Rightarrow> expr option"
  b_Not :: "expr \<Rightarrow> expr option"
  b_Binary :: "bkind \<Rightarrow> expr \<Rightarrow> expr \<Rightarrow> expr option"

definition ExprBuilder__True :: expr where
  "ExprBuilder__True = ConstantExpr (ConstantExpr__alloc 1 1)"

definition DefaultExprBuilder :: builder where
  "DefaultExprBuilder = \<lparr>
     b_Constant = (\<lambda>Value. Some (ConstantExpr Value)),
     b_NotOptimized = (\<lambda>Index. Some (NotOptimizedExpr Index)),
     b_Read = (\<lambda>root head Index. Some (ReadExpr root head Index)),
     b_Select = (\<lambda>Cond LHS RHS. Some (SelectExpr Cond LHS RHS)),
     b_Concat = (\<lambda>LHS RHS. Some (ConcatExpr LHS RHS)),
     b_Extract = (\<lambda>LHS Offset W. Some (ExtractExpr LHS Offset W)),
     b_ZExt = (\<lambda>LHS W. Some (ZExtExpr LHS W)),
     b_SExt = (\<lambda>LHS W. Some (SExtExpr LHS W)),
     b_Not = (\<lambda>LHS. Some (NotExpr LHS)),
     b_Binary = (\<lambda>k LHS RHS. Some (BinaryExpr k LHS RHS))\<rparr>"

text \<open>A call past the allowed depth.\<close>

definition no_builder :: builder where
  "no_builder = \<lparr>
     b_Constant = (\<lambda>_. None), b_NotOptimized = (\<lambda>_. None), b_Read = (\<lambda>_ _ _. None),
     b_Select = (\<lambda>_ _ _. None), b_Concat = (\<lambda>_ _. None), b_Extract = (\<lambda>_ _ _. None),
     b_ZExt = (\<lambda>_ _. None), b_SExt = (\<lambda>_ _. None), b_Not = (\<lambda>_. None), b_Binary = (\<lambda>_ _ _. None)\<rparr>"

section \<open>Dispatch on constant operands\<close>

text \<open>
  The helper class of a \<open>ConstantSpecializedExprBuilder\<close>: the overloads of its binary
  methods for a constant and a non-constant operand (\<open>CN\<close>, \<open>NC\<close>, \<open>NN\<close>), its method
  \<open>Not\<close>, and the methods it inherits. \<open>ChainedBuilder\<close> sends everything to the base
  builder.
\<close>

record specialized =
  s_chained :: builder
  s_Not :: "expr \<Rightarrow> expr option"
  s_CN :: "bkind \<Rightarrow> apint \<Rightarrow> expr \<Rightarrow> expr option"
  s_NC :: "bkind \<Rightarrow> expr \<Rightarrow> apint \<Rightarrow> expr option"
  s_NN :: "bkind \<Rightarrow> expr \<Rightarrow> expr \<Rightarrow> expr option"

definition ChainedBuilder :: "builder \<Rightarrow> specialized" where
  "ChainedBuilder Base = \<lparr>
     s_chained = Base,
     s_Not = b_Not Base,
     s_CN = (\<lambda>k LHS RHS. b_Binary Base k (ConstantExpr LHS) RHS),
     s_NC = (\<lambda>k LHS RHS. b_Binary Base k LHS (ConstantExpr RHS)),
     s_NN = b_Binary Base\<rparr>"

text \<open>The loop of \<open>Read\<close> that rolls back through writes.\<close>

fun roll_back :: "(expr \<Rightarrow> expr \<Rightarrow> expr option) \<Rightarrow> expr \<Rightarrow> updateNode \<Rightarrow> updateNode option" where
  "roll_back Eq' Index NoUpdate = Some NoUpdate"
| "roll_back Eq' Index (UpdateNode i v next) = do {
     e \<leftarrow> Eq' Index i;
     b \<leftarrow> Expr__isFalse e;
     if b then roll_back Eq' Index next else Some (UpdateNode i v next)
   }"

definition ConstantSpecializedExprBuilder__Read ::
  "builder \<Rightarrow> specialized \<Rightarrow> array \<Rightarrow> updateNode \<Rightarrow> expr \<Rightarrow> expr option" where
  "ConstantSpecializedExprBuilder__Read this Builder root head Index = do {
     head1 \<leftarrow> roll_back (b_Binary this Eq) Index head;
     b_Read (s_chained Builder) root head1 Index
   }"

definition ConstantSpecializedExprBuilder__Select :: "specialized \<Rightarrow> expr \<Rightarrow> expr \<Rightarrow> expr \<Rightarrow> expr option" where
  "ConstantSpecializedExprBuilder__Select Builder Cond LHS RHS =
     (case Cond of
        ConstantExpr CE \<Rightarrow> Some (if ConstantExpr__isTrue CE then LHS else RHS)
      | _ \<Rightarrow> b_Select (s_chained Builder) Cond LHS RHS)"

definition ConstantSpecializedExprBuilder__Concat :: "specialized \<Rightarrow> expr \<Rightarrow> expr \<Rightarrow> expr option" where
  "ConstantSpecializedExprBuilder__Concat Builder LHS RHS =
     (case (LHS, RHS) of
        (ConstantExpr LCE, ConstantExpr RCE) \<Rightarrow> Some (ConstantExpr (ConstantExpr__Concat LCE RCE))
      | _ \<Rightarrow> b_Concat (s_chained Builder) LHS RHS)"

definition ConstantSpecializedExprBuilder__Extract :: "specialized \<Rightarrow> expr \<Rightarrow> nat \<Rightarrow> nat \<Rightarrow> expr option" where
  "ConstantSpecializedExprBuilder__Extract Builder LHS Offset W =
     (case LHS of
        ConstantExpr CE \<Rightarrow> Some (ConstantExpr (ConstantExpr__Extract CE Offset W))
      | _ \<Rightarrow> b_Extract (s_chained Builder) LHS Offset W)"

definition ConstantSpecializedExprBuilder__ZExt :: "specialized \<Rightarrow> expr \<Rightarrow> nat \<Rightarrow> expr option" where
  "ConstantSpecializedExprBuilder__ZExt Builder LHS W =
     (case LHS of
        ConstantExpr CE \<Rightarrow> Some (ConstantExpr (ConstantExpr__ZExt CE W))
      | _ \<Rightarrow> b_ZExt (s_chained Builder) LHS W)"

definition ConstantSpecializedExprBuilder__SExt :: "specialized \<Rightarrow> expr \<Rightarrow> nat \<Rightarrow> expr option" where
  "ConstantSpecializedExprBuilder__SExt Builder LHS W =
     (case LHS of
        ConstantExpr CE \<Rightarrow> Some (ConstantExpr (ConstantExpr__SExt CE W))
      | _ \<Rightarrow> b_SExt (s_chained Builder) LHS W)"

definition ConstantSpecializedExprBuilder__Not :: "specialized \<Rightarrow> expr \<Rightarrow> expr option" where
  "ConstantSpecializedExprBuilder__Not Builder LHS =
     (case LHS of
        NotExpr e \<Rightarrow> Some e
      | ConstantExpr CE \<Rightarrow> Some (ConstantExpr (ConstantExpr__Not CE))
      | _ \<Rightarrow> s_Not Builder LHS)"

definition ConstantSpecializedExprBuilder__Binary :: "specialized \<Rightarrow> bkind \<Rightarrow> expr \<Rightarrow> expr \<Rightarrow> expr option" where
  "ConstantSpecializedExprBuilder__Binary Builder k LHS RHS =
     (case LHS of
        ConstantExpr LCE \<Rightarrow>
          (case RHS of
             ConstantExpr RCE \<Rightarrow> map_option ConstantExpr (ConstantExpr__op k LCE RCE)
           | _ \<Rightarrow> s_CN Builder k LCE RHS)
      | _ \<Rightarrow>
          (case RHS of
             ConstantExpr RCE \<Rightarrow> s_NC Builder k LHS RCE
           | _ \<Rightarrow> s_NN Builder k LHS RHS))"

definition ConstantSpecializedExprBuilder :: "builder \<Rightarrow> specialized \<Rightarrow> builder" where
  "ConstantSpecializedExprBuilder this Builder = \<lparr>
     b_Constant = b_Constant (s_chained Builder),
     b_NotOptimized = b_NotOptimized (s_chained Builder),
     b_Read = ConstantSpecializedExprBuilder__Read this Builder,
     b_Select = ConstantSpecializedExprBuilder__Select Builder,
     b_Concat = ConstantSpecializedExprBuilder__Concat Builder,
     b_Extract = ConstantSpecializedExprBuilder__Extract Builder,
     b_ZExt = ConstantSpecializedExprBuilder__ZExt Builder,
     b_SExt = ConstantSpecializedExprBuilder__SExt Builder,
     b_Not = ConstantSpecializedExprBuilder__Not Builder,
     b_Binary = ConstantSpecializedExprBuilder__Binary Builder\<rparr>"

lemmas specialized_defs = ConstantSpecializedExprBuilder_def ConstantSpecializedExprBuilder__Read_def
  ConstantSpecializedExprBuilder__Select_def ConstantSpecializedExprBuilder__Concat_def
  ConstantSpecializedExprBuilder__Extract_def ConstantSpecializedExprBuilder__ZExt_def
  ConstantSpecializedExprBuilder__SExt_def ConstantSpecializedExprBuilder__Not_def
  ConstantSpecializedExprBuilder__Binary_def

section \<open>Constant folding\<close>

text \<open>
  The \<open>switch\<close> on a sum or difference with a constant on its left or right that the
  methods \<open>Add\<close> and \<open>Sub\<close> share.
\<close>

definition switch_Add_Sub ::
  "expr \<Rightarrow> (apint \<Rightarrow> expr \<Rightarrow> 'a) \<Rightarrow> (expr \<Rightarrow> apint \<Rightarrow> 'a) \<Rightarrow> (apint \<Rightarrow> expr \<Rightarrow> 'a) \<Rightarrow> (expr \<Rightarrow> apint \<Rightarrow> 'a) \<Rightarrow> 'a \<Rightarrow> 'a" where
  "switch_Add_Sub e add_left add_right sub_left sub_right other =
     (case e of
        BinaryExpr Add l r \<Rightarrow>
          (case l of ConstantExpr CE \<Rightarrow> add_left CE r
           | _ \<Rightarrow> (case r of ConstantExpr CE \<Rightarrow> add_right l CE | _ \<Rightarrow> other))
      | BinaryExpr Sub l r \<Rightarrow>
          (case l of ConstantExpr CE \<Rightarrow> sub_left CE r
           | _ \<Rightarrow> (case r of ConstantExpr CE \<Rightarrow> sub_right l CE | _ \<Rightarrow> other))
      | _ \<Rightarrow> other)"

definition ConstantFoldingBuilder__Add_CN :: "builder \<Rightarrow> builder \<Rightarrow> apint \<Rightarrow> expr \<Rightarrow> expr option" where
  "ConstantFoldingBuilder__Add_CN Builder Base LHS RHS =
     (if ConstantExpr__isZero LHS then Some RHS
      else switch_Add_Sub RHS
        (\<lambda>CE X. b_Binary Builder Add (ConstantExpr (ConstantExpr__Add LHS CE)) X)
        (\<lambda>X CE. b_Binary Builder Add (ConstantExpr (ConstantExpr__Add LHS CE)) X)
        (\<lambda>CE X. b_Binary Builder Sub (ConstantExpr (ConstantExpr__Add LHS CE)) X)
        (\<lambda>X CE. b_Binary Builder Add (ConstantExpr (ConstantExpr__Sub LHS CE)) X)
        (b_Binary Base Add (ConstantExpr LHS) RHS))"

definition ConstantFoldingBuilder__Add_NN :: "builder \<Rightarrow> builder \<Rightarrow> expr \<Rightarrow> expr \<Rightarrow> expr option" where
  "ConstantFoldingBuilder__Add_NN Builder Base LHS RHS =
     (case LHS of
        BinaryExpr Add X Y \<Rightarrow> do { e \<leftarrow> b_Binary Builder Add Y RHS; b_Binary Builder Add X e }
      | BinaryExpr Sub X Y \<Rightarrow> do { e \<leftarrow> b_Binary Builder Sub RHS Y; b_Binary Builder Add X e }
      | _ \<Rightarrow> switch_Add_Sub RHS
          (\<lambda>CE Y. do { e \<leftarrow> b_Binary Builder Add LHS Y; b_Binary Builder Add (ConstantExpr CE) e })
          (\<lambda>Y CE. do { e \<leftarrow> b_Binary Builder Add LHS Y; b_Binary Builder Add (ConstantExpr CE) e })
          (\<lambda>CE Y. do { e \<leftarrow> b_Binary Builder Sub LHS Y; b_Binary Builder Add (ConstantExpr CE) e })
          (\<lambda>Y CE. do { e \<leftarrow> b_Binary Builder Add LHS Y; b_Binary Builder Add (ConstantExpr (ConstantExpr__Neg CE)) e })
          (b_Binary Base Add LHS RHS))"

definition ConstantFoldingBuilder__Sub_CN :: "builder \<Rightarrow> builder \<Rightarrow> apint \<Rightarrow> expr \<Rightarrow> expr option" where
  "ConstantFoldingBuilder__Sub_CN Builder Base LHS RHS =
     switch_Add_Sub RHS
       (\<lambda>CE X. b_Binary Builder Sub (ConstantExpr (ConstantExpr__Sub LHS CE)) X)
       (\<lambda>X CE. b_Binary Builder Sub (ConstantExpr (ConstantExpr__Sub LHS CE)) X)
       (\<lambda>CE X. b_Binary Builder Add (ConstantExpr (ConstantExpr__Sub LHS CE)) X)
       (\<lambda>X CE. b_Binary Builder Sub (ConstantExpr (ConstantExpr__Add LHS CE)) X)
       (b_Binary Base Sub (ConstantExpr LHS) RHS)"

definition ConstantFoldingBuilder__Sub_NN :: "builder \<Rightarrow> builder \<Rightarrow> expr \<Rightarrow> expr \<Rightarrow> expr option" where
  "ConstantFoldingBuilder__Sub_NN Builder Base LHS RHS =
     (case LHS of
        BinaryExpr Add X Y \<Rightarrow> do { e \<leftarrow> b_Binary Builder Sub Y RHS; b_Binary Builder Add X e }
      | BinaryExpr Sub X Y \<Rightarrow> do { e \<leftarrow> b_Binary Builder Add Y RHS; b_Binary Builder Sub X e }
      | _ \<Rightarrow> switch_Add_Sub RHS
          (\<lambda>CE Y. do { e \<leftarrow> b_Binary Builder Sub LHS Y; b_Binary Builder Add (ConstantExpr (ConstantExpr__Neg CE)) e })
          (\<lambda>Y CE. do { e \<leftarrow> b_Binary Builder Sub LHS Y; b_Binary Builder Add (ConstantExpr (ConstantExpr__Neg CE)) e })
          (\<lambda>CE Y. do { e \<leftarrow> b_Binary Builder Add LHS Y; b_Binary Builder Add (ConstantExpr (ConstantExpr__Neg CE)) e })
          (\<lambda>Y CE. do { e \<leftarrow> b_Binary Builder Sub LHS Y; b_Binary Builder Add (ConstantExpr CE) e })
          (b_Binary Base Sub LHS RHS))"

definition ConstantFoldingBuilder__Mul_CN :: "builder \<Rightarrow> apint \<Rightarrow> expr \<Rightarrow> expr option" where
  "ConstantFoldingBuilder__Mul_CN Base LHS RHS =
     (if ConstantExpr__isZero LHS then Some (ConstantExpr LHS)
      else if ConstantExpr__isOne LHS then Some RHS
      else b_Binary Base Mul (ConstantExpr LHS) RHS)"

definition ConstantFoldingBuilder__And_CN :: "builder \<Rightarrow> apint \<Rightarrow> expr \<Rightarrow> expr option" where
  "ConstantFoldingBuilder__And_CN Base LHS RHS =
     (if ConstantExpr__isZero LHS then Some (ConstantExpr LHS)
      else if ConstantExpr__isAllOnes LHS then Some RHS
      else b_Binary Base And (ConstantExpr LHS) RHS)"

definition ConstantFoldingBuilder__Or_CN :: "builder \<Rightarrow> apint \<Rightarrow> expr \<Rightarrow> expr option" where
  "ConstantFoldingBuilder__Or_CN Base LHS RHS =
     (if ConstantExpr__isZero LHS then Some RHS
      else if ConstantExpr__isAllOnes LHS then Some (ConstantExpr LHS)
      else b_Binary Base Or (ConstantExpr LHS) RHS)"

definition ConstantFoldingBuilder__Xor_CN :: "builder \<Rightarrow> apint \<Rightarrow> expr \<Rightarrow> expr option" where
  "ConstantFoldingBuilder__Xor_CN Base LHS RHS =
     (if ConstantExpr__isZero LHS then Some RHS else b_Binary Base Xor (ConstantExpr LHS) RHS)"

definition ConstantFoldingBuilder__Eq_CN :: "builder \<Rightarrow> apint \<Rightarrow> expr \<Rightarrow> expr option" where
  "ConstantFoldingBuilder__Eq_CN Base LHS RHS =
     (if getBitWidth LHS = 1 then
        if ConstantExpr__isTrue LHS then Some RHS else b_Not Base RHS
      else b_Binary Base Eq (ConstantExpr LHS) RHS)"

definition ConstantFoldingBuilder :: "builder \<Rightarrow> builder \<Rightarrow> specialized" where
  "ConstantFoldingBuilder Builder Base = (ChainedBuilder Base)\<lparr>
     s_CN := (\<lambda>k LHS RHS. case k of
         Add \<Rightarrow> ConstantFoldingBuilder__Add_CN Builder Base LHS RHS
       | Sub \<Rightarrow> ConstantFoldingBuilder__Sub_CN Builder Base LHS RHS
       | Mul \<Rightarrow> ConstantFoldingBuilder__Mul_CN Base LHS RHS
       | And \<Rightarrow> ConstantFoldingBuilder__And_CN Base LHS RHS
       | Or \<Rightarrow> ConstantFoldingBuilder__Or_CN Base LHS RHS
       | Xor \<Rightarrow> ConstantFoldingBuilder__Xor_CN Base LHS RHS
       | Eq \<Rightarrow> ConstantFoldingBuilder__Eq_CN Base LHS RHS
       | _ \<Rightarrow> s_CN (ChainedBuilder Base) k LHS RHS),
     s_NC := (\<lambda>k LHS RHS. case k of
         Add \<Rightarrow> ConstantFoldingBuilder__Add_CN Builder Base RHS LHS
       | Sub \<Rightarrow> ConstantFoldingBuilder__Add_CN Builder Base (ConstantExpr__Neg RHS) LHS
       | Mul \<Rightarrow> ConstantFoldingBuilder__Mul_CN Base RHS LHS
       | And \<Rightarrow> ConstantFoldingBuilder__And_CN Base RHS LHS
       | Or \<Rightarrow> ConstantFoldingBuilder__Or_CN Base RHS LHS
       | Xor \<Rightarrow> ConstantFoldingBuilder__Xor_CN Base RHS LHS
       | Eq \<Rightarrow> ConstantFoldingBuilder__Eq_CN Base RHS LHS
       | _ \<Rightarrow> s_NC (ChainedBuilder Base) k LHS RHS),
     s_NN := (\<lambda>k LHS RHS. case k of
         Add \<Rightarrow> ConstantFoldingBuilder__Add_NN Builder Base LHS RHS
       | Sub \<Rightarrow> ConstantFoldingBuilder__Sub_NN Builder Base LHS RHS
       | _ \<Rightarrow> s_NN (ChainedBuilder Base) k LHS RHS)\<rparr>"

primrec createConstantFoldingExprBuilder :: "(nat \<Rightarrow> builder) \<Rightarrow> nat \<Rightarrow> builder" where
  "createConstantFoldingExprBuilder Base 0 = no_builder"
| "createConstantFoldingExprBuilder Base (Suc n) =
     ConstantSpecializedExprBuilder (createConstantFoldingExprBuilder Base n)
       (ConstantFoldingBuilder (createConstantFoldingExprBuilder Base n) (Base n))"

section \<open>Simplification\<close>

definition SimplifyingBuilder__Eq_CN :: "builder \<Rightarrow> apint \<Rightarrow> expr \<Rightarrow> expr option" where
  "SimplifyingBuilder__Eq_CN Base LHS RHS =
     (if getBitWidth LHS = 1 then
        if ConstantExpr__isTrue LHS then Some RHS else b_Not Base RHS
      else b_Binary Base Eq (ConstantExpr LHS) RHS)"

definition SimplifyingBuilder__Eq_NN :: "builder \<Rightarrow> expr \<Rightarrow> expr \<Rightarrow> expr option" where
  "SimplifyingBuilder__Eq_NN Base LHS RHS =
     (if LHS = RHS then Some ExprBuilder__True else b_Binary Base Eq LHS RHS)"

definition SimplifyingBuilder__Not :: "builder \<Rightarrow> builder \<Rightarrow> expr \<Rightarrow> expr option" where
  "SimplifyingBuilder__Not Builder Base LHS =
     (case LHS of
        BinaryExpr Or l r \<Rightarrow> do {
          a \<leftarrow> b_Not Builder l;
          b \<leftarrow> b_Not Builder r;
          b_Binary Builder And a b
        }
      | _ \<Rightarrow> b_Not Base LHS)"

definition SimplifyingBuilder__cmp :: "builder \<Rightarrow> bkind \<Rightarrow> expr \<Rightarrow> expr \<Rightarrow> expr option option" where
  "SimplifyingBuilder__cmp Builder k LHS RHS =
     (case k of
        Ne \<Rightarrow> Some (do { e \<leftarrow> b_Binary Builder Eq LHS RHS; b_Not Builder e })
      | Ugt \<Rightarrow> Some (b_Binary Builder Ult RHS LHS)
      | Uge \<Rightarrow> Some (b_Binary Builder Ule RHS LHS)
      | Sgt \<Rightarrow> Some (b_Binary Builder Slt RHS LHS)
      | Sge \<Rightarrow> Some (b_Binary Builder Sle RHS LHS)
      | _ \<Rightarrow> None)"

definition SimplifyingBuilder :: "builder \<Rightarrow> builder \<Rightarrow> specialized" where
  "SimplifyingBuilder Builder Base = (ChainedBuilder Base)\<lparr>
     s_Not := SimplifyingBuilder__Not Builder Base,
     s_CN := (\<lambda>k LHS RHS.
        if k = Eq then SimplifyingBuilder__Eq_CN Base LHS RHS
        else case SimplifyingBuilder__cmp Builder k (ConstantExpr LHS) RHS of
          Some m \<Rightarrow> m | None \<Rightarrow> s_CN (ChainedBuilder Base) k LHS RHS),
     s_NC := (\<lambda>k LHS RHS.
        if k = Eq then SimplifyingBuilder__Eq_CN Base RHS LHS
        else case SimplifyingBuilder__cmp Builder k LHS (ConstantExpr RHS) of
          Some m \<Rightarrow> m | None \<Rightarrow> s_NC (ChainedBuilder Base) k LHS RHS),
     s_NN := (\<lambda>k LHS RHS.
        if k = Eq then SimplifyingBuilder__Eq_NN Base LHS RHS
        else case SimplifyingBuilder__cmp Builder k LHS RHS of
          Some m \<Rightarrow> m | None \<Rightarrow> s_NN (ChainedBuilder Base) k LHS RHS)\<rparr>"

primrec createSimplifyingExprBuilder :: "(nat \<Rightarrow> builder) \<Rightarrow> nat \<Rightarrow> builder" where
  "createSimplifyingExprBuilder Base 0 = no_builder"
| "createSimplifyingExprBuilder Base (Suc n) =
     ConstantSpecializedExprBuilder (createSimplifyingExprBuilder Base n)
       (SimplifyingBuilder (createSimplifyingExprBuilder Base n) (Base n))"

definition createDefaultExprBuilder :: "nat \<Rightarrow> builder" where
  "createDefaultExprBuilder n = DefaultExprBuilder"

section \<open>The interface\<close>

text \<open>\<open>same_as e0 e\<close>: \<open>e\<close> is well formed and has the width and all values of \<open>e0\<close>.\<close>

definition same_as :: "expr \<Rightarrow> expr \<Rightarrow> bool" where
  "same_as e0 e \<longleftrightarrow> wf e \<and> getWidth e = getWidth e0 \<and> (\<forall>\<sigma>. den \<sigma> e = den \<sigma> e0)"

text \<open>\<open>delivers P m\<close>: with enough depth the call returns one and the same expression, and it satisfies \<open>P\<close>.\<close>

definition delivers :: "(expr \<Rightarrow> bool) \<Rightarrow> (nat \<Rightarrow> expr option) \<Rightarrow> bool" where
  "delivers P m \<longleftrightarrow> (\<exists>e. P e \<and> (\<exists>n0. \<forall>n \<ge> n0. m n = Some e))"

text \<open>A constant divisor is not zero.\<close>

definition div_ok :: "bkind \<Rightarrow> expr \<Rightarrow> bool" where
  "div_ok k r \<longleftrightarrow> (is_div k \<longrightarrow> (\<forall>c. r = ConstantExpr c \<longrightarrow> getValue c \<noteq> 0))"

text \<open>Every method of a builder builds what plain allocation builds, up to its shape.\<close>

locale expr_builder =
  fixes B :: "nat \<Rightarrow> builder"
  assumes Constant_law: "wf (ConstantExpr v) \<Longrightarrow> delivers (same_as (ConstantExpr v)) (\<lambda>n. b_Constant (B n) v)"
    and NotOptimized_law: "wf e \<Longrightarrow> delivers (same_as (NotOptimizedExpr e)) (\<lambda>n. b_NotOptimized (B n) e)"
    and Read_law: "wf (ReadExpr root us i) \<Longrightarrow> delivers (same_as (ReadExpr root us i)) (\<lambda>n. b_Read (B n) root us i)"
    and Select_law: "wf (SelectExpr c t f) \<Longrightarrow> delivers (same_as (SelectExpr c t f)) (\<lambda>n. b_Select (B n) c t f)"
    and Concat_law: "wf (ConcatExpr l r) \<Longrightarrow> delivers (same_as (ConcatExpr l r)) (\<lambda>n. b_Concat (B n) l r)"
    and Extract_law: "wf (ExtractExpr e off w) \<Longrightarrow> delivers (same_as (ExtractExpr e off w)) (\<lambda>n. b_Extract (B n) e off w)"
    and ZExt_law: "wf (ZExtExpr e w) \<Longrightarrow> delivers (same_as (ZExtExpr e w)) (\<lambda>n. b_ZExt (B n) e w)"
    and SExt_law: "wf (SExtExpr e w) \<Longrightarrow> delivers (same_as (SExtExpr e w)) (\<lambda>n. b_SExt (B n) e w)"
    and Not_law: "wf (NotExpr e) \<Longrightarrow> delivers (same_as (NotExpr e)) (\<lambda>n. b_Not (B n) e)"
    and Binary_law: "wf (BinaryExpr k l r) \<Longrightarrow> div_ok k r \<Longrightarrow>
          delivers (same_as (BinaryExpr k l r)) (\<lambda>n. b_Binary (B n) k l r)"

lemma same_as_refl [simp]: "wf e \<Longrightarrow> same_as e e"
  by (simp add: same_as_def)

lemma same_as_trans: "same_as e0 e1 \<Longrightarrow> same_as e1 e2 \<Longrightarrow> same_as e0 e2"
  by (simp add: same_as_def)

lemma same_as_Binary:
  "same_as l l' \<Longrightarrow> same_as r r' \<Longrightarrow> wf (BinaryExpr k l r) \<Longrightarrow> same_as (BinaryExpr k l r) (BinaryExpr k l' r')"
  by (auto simp: same_as_def)

lemma delivers_Some: "P e \<Longrightarrow> delivers P (\<lambda>n. Some e)"
  by (auto simp: delivers_def)

lemma delivers_mono: "delivers P m \<Longrightarrow> (\<And>e. P e \<Longrightarrow> Q e) \<Longrightarrow> delivers Q m"
  by (auto simp: delivers_def)

lemma delivers_Suc: "delivers P (\<lambda>n. m (Suc n)) \<Longrightarrow> delivers P m"
  unfolding delivers_def by (metis Suc_le_D Suc_le_mono)

lemma delivers_bind:
  assumes "delivers P m" "\<And>e. P e \<Longrightarrow> delivers Q (\<lambda>n. k n e)"
  shows "delivers Q (\<lambda>n. m n \<bind> k n)"
proof -
  obtain e n0 where e: "P e" "\<forall>n \<ge> n0. m n = Some e" using assms(1) by (auto simp: delivers_def)
  obtain e' n1 where "Q e'" "\<forall>n \<ge> n1. k n e = Some e'" using assms(2) [OF e(1)] by (auto simp: delivers_def)
  with e(2) have "Q e'" "\<forall>n \<ge> max n0 n1. (m n \<bind> k n) = Some e'" by auto
  then show ?thesis unfolding delivers_def by blast
qed

lemma delivers_if:
  "(b \<Longrightarrow> delivers P m) \<Longrightarrow> (\<not> b \<Longrightarrow> delivers P m') \<Longrightarrow> delivers P (\<lambda>n. if b then m n else m' n)"
  by (cases b) simp_all

interpretation default: expr_builder createDefaultExprBuilder
  by unfold_locales (auto simp: createDefaultExprBuilder_def DefaultExprBuilder_def intro!: delivers_Some same_as_refl)

end
