(* ===== verification/Expr_Builder_Sound.thy ===== *)
theory Expr_Builder_Sound
  imports Expr_Builder
begin

text \<open>
  The builders of \<open>Expr_Builder\<close> meet their interface: the dispatch on constant
  operands, the constant-folding builder (whose calls to itself end) and the simplifying
  builder on top of it.
\<close>

section \<open>Dispatch is sound\<close>

lemma same_as_Const:
  "same_as e0 (ConstantExpr c) \<longleftrightarrow> wf_apint c \<and> getBitWidth c = getWidth e0 \<and> (\<forall>\<sigma>. den \<sigma> e0 = getValue c)"
  by (auto simp: same_as_def)

lemma fold_delivers:
  assumes "wf (BinaryExpr k (ConstantExpr l) (ConstantExpr r))" "div_ok k (ConstantExpr r)"
  shows "\<exists>c. ConstantExpr__op k l r = Some c \<and> same_as (BinaryExpr k (ConstantExpr l) (ConstantExpr r)) (ConstantExpr c)"
proof -
  let ?w = "getBitWidth l"
  have wf: "wf_apint l" "wf_apint r" "getBitWidth r = ?w" using assms by auto
  have d: "is_div k \<Longrightarrow> getValue r \<noteq> 0" using assms by (auto simp: div_ok_def)
  have "0 < result_width k ?w" using wf by (auto simp: result_width_def wf_apint_def)
  moreover have "in_width (result_width k ?w) (bv_op k ?w (getValue l) (getValue r))"
    using wf by (intro bv_op_in_width) (auto simp: wf_apint_def)
  moreover have "getWidth (BinaryExpr k (ConstantExpr l) (ConstantExpr r)) = result_width k ?w"
    by (simp add: result_width_def)
  ultimately show ?thesis
    using ConstantExpr__op_sound [OF wf(1,2) refl wf(3) d] by (simp add: same_as_Const)
qed

lemma const_cases:
  obtains (C) c where "e = ConstantExpr c" | (N) "\<not> is_const e"
  by (cases e) auto

lemma Binary_delivers:
  assumes "wf (BinaryExpr k l r)" "div_ok k r"
    and "\<And>c d. l = ConstantExpr c \<Longrightarrow> r = ConstantExpr d \<Longrightarrow>
      \<forall>a. ConstantExpr__op k c d = Some a \<longrightarrow> same_as (BinaryExpr k l r) (ConstantExpr a) \<longrightarrow> P (ConstantExpr a)"
    and "\<And>c. l = ConstantExpr c \<Longrightarrow> \<not> is_const r \<Longrightarrow> delivers P (\<lambda>n. s_CN (S n) k c r)"
    and "\<And>c. \<not> is_const l \<Longrightarrow> r = ConstantExpr c \<Longrightarrow> delivers P (\<lambda>n. s_NC (S n) k l c)"
    and "\<not> is_const l \<Longrightarrow> \<not> is_const r \<Longrightarrow> delivers P (\<lambda>n. s_NN (S n) k l r)"
  shows "delivers P (\<lambda>n. b_Binary (ConstantSpecializedExprBuilder (T n) (S n)) k l r)"
proof (cases l rule: const_cases)
  case (C c)
  show ?thesis
  proof (cases r rule: const_cases)
    case (C d)
    obtain a where "ConstantExpr__op k c d = Some a" "P (ConstantExpr a)"
      using fold_delivers [of k c d] assms(1-3) C \<open>l = ConstantExpr c\<close> by blast
    then show ?thesis
      using C \<open>l = ConstantExpr c\<close> by (simp add: specialized_defs delivers_Some)
  next
    case N
    with C assms(4) show ?thesis by (cases r) (auto simp: specialized_defs)
  qed
next
  case N
  show ?thesis
  proof (cases r rule: const_cases)
    case (C d)
    with N assms(5) show ?thesis by (cases l) (auto simp: specialized_defs)
  next
    case N'': N
    with N assms(6) show ?thesis by (cases l; cases r) (auto simp: specialized_defs)
  qed
qed

lemma is_const_simps: "\<not> is_const e \<Longrightarrow> e \<noteq> ConstantExpr c"
  by auto

text \<open>The methods with one dispatched operand, over any helper that chains to a builder.\<close>

context expr_builder
begin

lemma chained_delivers:
  assumes S: "\<And>n. s_chained (S n) = B n"
  shows "wf (ConstantExpr c) \<Longrightarrow> delivers (same_as (ConstantExpr c)) (\<lambda>n. b_Constant (ConstantSpecializedExprBuilder (T n) (S n)) c)"
    and "wf e \<Longrightarrow> delivers (same_as (NotOptimizedExpr e)) (\<lambda>n. b_NotOptimized (ConstantSpecializedExprBuilder (T n) (S n)) e)"
    and "wf (SelectExpr b t f) \<Longrightarrow> delivers (same_as (SelectExpr b t f)) (\<lambda>n. b_Select (ConstantSpecializedExprBuilder (T n) (S n)) b t f)"
    and "wf (ConcatExpr l r) \<Longrightarrow> delivers (same_as (ConcatExpr l r)) (\<lambda>n. b_Concat (ConstantSpecializedExprBuilder (T n) (S n)) l r)"
    and "wf (ExtractExpr e off w) \<Longrightarrow> delivers (same_as (ExtractExpr e off w)) (\<lambda>n. b_Extract (ConstantSpecializedExprBuilder (T n) (S n)) e off w)"
    and "wf (ZExtExpr e w) \<Longrightarrow> delivers (same_as (ZExtExpr e w)) (\<lambda>n. b_ZExt (ConstantSpecializedExprBuilder (T n) (S n)) e w)"
    and "wf (SExtExpr e w) \<Longrightarrow> delivers (same_as (SExtExpr e w)) (\<lambda>n. b_SExt (ConstantSpecializedExprBuilder (T n) (S n)) e w)"
proof -
  note d = specialized_defs S
  show "wf (ConstantExpr c) \<Longrightarrow> delivers (same_as (ConstantExpr c)) (\<lambda>n. b_Constant (ConstantSpecializedExprBuilder (T n) (S n)) c)"
    and "wf e \<Longrightarrow> delivers (same_as (NotOptimizedExpr e)) (\<lambda>n. b_NotOptimized (ConstantSpecializedExprBuilder (T n) (S n)) e)"
    using Constant_law NotOptimized_law by (simp_all add: d)
  show "delivers (same_as (SelectExpr b t f)) (\<lambda>n. b_Select (ConstantSpecializedExprBuilder (T n) (S n)) b t f)"
    if wf: "wf (SelectExpr b t f)"
  proof (cases b rule: const_cases)
    case (C a)
    with wf have "same_as (SelectExpr b t f) (if ConstantExpr__isTrue a then t else f)"
      by (auto simp: same_as_def ConstantExpr__isTrue_def)
    with C show ?thesis by (simp add: d delivers_Some)
  next
    case N
    then show ?thesis using Select_law [OF wf] by (cases b) (auto simp: d)
  qed
  show "delivers (same_as (ConcatExpr l r)) (\<lambda>n. b_Concat (ConstantSpecializedExprBuilder (T n) (S n)) l r)"
    if wf: "wf (ConcatExpr l r)"
  proof (cases "is_const l \<and> is_const r")
    case True
    then obtain a b where "l = ConstantExpr a" "r = ConstantExpr b" by (cases l; cases r) auto
    with wf show ?thesis by (simp add: d delivers_Some same_as_Const wf_apint_Concat ConstantExpr__Concat_value)
  next
    case False
    then show ?thesis using Concat_law [OF wf] by (cases l; cases r) (auto simp: d)
  qed
  show "delivers (same_as (ExtractExpr e off w)) (\<lambda>n. b_Extract (ConstantSpecializedExprBuilder (T n) (S n)) e off w)"
    if wf: "wf (ExtractExpr e off w)"
    using Extract_law [OF wf] wf
    by (cases e) (auto simp: d same_as_Const wf_apint_Extract ConstantExpr__Extract_value intro!: delivers_Some)
  show "delivers (same_as (ZExtExpr e w)) (\<lambda>n. b_ZExt (ConstantSpecializedExprBuilder (T n) (S n)) e w)"
    if wf: "wf (ZExtExpr e w)"
  proof (cases e rule: const_cases)
    case (C a)
    with wf have "0 < w" "in_width w (getValue a)" using in_width_mono [of "getBitWidth a" "getValue a" w] by (auto simp: wf_apint_def)
    with C wf have "same_as (ZExtExpr e w) (ConstantExpr (ConstantExpr__ZExt a w))"
      by (simp add: same_as_Const wf_apint_ops ConstantExpr__ZExt_def in_width_take_bit_eq)
    with C show ?thesis by (simp add: d delivers_Some)
  next
    case N
    then show ?thesis using ZExt_law [OF wf] by (cases e) (auto simp: d)
  qed
  show "delivers (same_as (SExtExpr e w)) (\<lambda>n. b_SExt (ConstantSpecializedExprBuilder (T n) (S n)) e w)"
    if wf: "wf (SExtExpr e w)"
  proof (cases e rule: const_cases)
    case (C a)
    with wf have "0 < w" by (auto simp: wf_apint_def)
    with C wf have "same_as (SExtExpr e w) (ConstantExpr (ConstantExpr__SExt a w))"
      by (simp add: same_as_Const wf_apint_ops ConstantExpr__SExt_def getSigned_eq take_bit_eq_mod)
    with C show ?thesis by (simp add: d delivers_Some)
  next
    case N
    then show ?thesis using SExt_law [OF wf] by (cases e) (auto simp: d)
  qed
qed

lemma Read_delivers:
  assumes S: "\<And>n. s_chained (S n) = B n"
    and Eq: "\<And>l r. wf (BinaryExpr Eq l r) \<Longrightarrow> delivers (same_as (BinaryExpr Eq l r)) (\<lambda>n. b_Binary (T n) Eq l r)"
    and wf: "wf (ReadExpr root us i)"
  shows "delivers (same_as (ReadExpr root us i)) (\<lambda>n. b_Read (ConstantSpecializedExprBuilder (T n) (S n)) root us i)"
proof -
  have "delivers (same_as (ReadExpr root us i)) (\<lambda>n. roll_back (b_Binary (T n) Eq) i us \<bind> (\<lambda>head1. b_Read (B n) root head1 i))"
    using wf
  proof (induction us rule: UpdateNode__getSize.induct)
    case (2 j v us)
    have wf': "wf (BinaryExpr Eq i j)" "wf (ReadExpr root us i)" using 2(2) by auto
    have "delivers (same_as (ReadExpr root (UpdateNode j v us) i))
        (\<lambda>n. b_Binary (T n) Eq i j \<bind> (\<lambda>e. (Expr__isFalse e \<bind> (\<lambda>b. if b then roll_back (b_Binary (T n) Eq) i us
            else Some (UpdateNode j v us))) \<bind> (\<lambda>head1. b_Read (B n) root head1 i)))"
    proof (rule delivers_bind [OF Eq [OF wf'(1)]])
      fix e assume e: "same_as (BinaryExpr Eq i j) e"
      then have w: "getWidth e = 1" by (simp add: same_as_def)
      show "delivers (same_as (ReadExpr root (UpdateNode j v us) i))
        (\<lambda>n. (Expr__isFalse e \<bind> (\<lambda>b. if b then roll_back (b_Binary (T n) Eq) i us
            else Some (UpdateNode j v us))) \<bind> (\<lambda>head1. b_Read (B n) root head1 i))"
      proof (cases "Expr__isFalse e = Some True")
        case True
        then obtain c where c: "e = ConstantExpr c" "getValue c = 0"
          using w by (cases e) (auto simp: Expr__isFalse_def ConstantExpr__isFalse_def)
        with e have "den \<sigma> i \<noteq> den \<sigma> j" for \<sigma> by (auto simp: same_as_def)
        then have "same_as (ReadExpr root (UpdateNode j v us) i) = same_as (ReadExpr root us i)"
          by (simp add: same_as_def fun_eq_iff) metis
        with 2(1) [OF wf'(2)] True show ?thesis by simp
      next
        case False
        then have "Expr__isFalse e = Some False" using w by (simp add: Expr__isFalse_def)
        with Read_law [OF 2(2)] show ?thesis by simp
      qed
    qed
    then show ?case by simp
  qed (use Read_law in simp_all)
  then show ?thesis by (simp add: specialized_defs S)
qed

end

section \<open>Constant folding terminates and keeps values\<close>

text \<open>
  The weight of an operand: nested sums and differences count, a constant is lighter than
  any other leaf. Calls that \<open>Add\<close> and \<open>Sub\<close> make to themselves have operands of smaller
  total weight, or of the same weight and a lighter left operand.
\<close>

fun weight :: "expr \<Rightarrow> nat" where
  "weight (ConstantExpr c) = 1"
| "weight (BinaryExpr Add l r) = weight l + weight r + 1"
| "weight (BinaryExpr Sub l r) = weight l + weight r + 1"
| "weight e = 2"

lemma weight_ge_1: "1 \<le> weight e"
  by (induction e rule: weight.induct) auto

lemma weight_nonconst: "\<not> is_const e \<Longrightarrow> 2 \<le> weight e"
  using weight_ge_1 by (cases e rule: weight.cases) (auto simp: Suc_le_eq add_pos_pos intro: le_trans)

locale folding_base = expr_builder +
  assumes weight_law: "k \<in> {Add, Sub} \<Longrightarrow> wf (BinaryExpr k l r) \<Longrightarrow>
    delivers (\<lambda>e. same_as (BinaryExpr k l r) e \<and> weight e \<le> weight l + weight r + 1) (\<lambda>n. b_Binary (B n) k l r)"

interpretation default: folding_base createDefaultExprBuilder
  by unfold_locales (auto simp: createDefaultExprBuilder_def DefaultExprBuilder_def intro!: delivers_Some)

definition light :: "nat \<Rightarrow> expr \<Rightarrow> expr \<Rightarrow> bool" where
  "light s e0 e \<longleftrightarrow> same_as e0 e \<and> weight e \<le> s"

lemma lightI: "same_as e0 e \<Longrightarrow> weight e \<le> s \<Longrightarrow> light s e0 e"
  by (simp add: light_def)

lemma case_nonconst:
  "\<not> is_const e \<Longrightarrow> (case e of ConstantExpr c \<Rightarrow> f c | NotOptimizedExpr a \<Rightarrow> d | ReadExpr a1 a2 a3 \<Rightarrow> d
     | SelectExpr a4 a5 a6 \<Rightarrow> d | ConcatExpr a7 a8 \<Rightarrow> d | ExtractExpr a9 b1 b2 \<Rightarrow> d | ZExtExpr b3 b4 \<Rightarrow> d
     | SExtExpr b5 b6 \<Rightarrow> d | NotExpr b7 \<Rightarrow> d | BinaryExpr b8 b9 b0 \<Rightarrow> d) = d"
  by (cases e) simp_all

lemma case_nonarith:
  "k \<notin> {Add, Sub} \<Longrightarrow> switch_Add_Sub (BinaryExpr k l r) al ar sl sr d = d"
  by (cases k) (simp_all add: switch_Add_Sub_def)

lemma switch_Add_Sub_cases:
  obtains (al) c x where "e = BinaryExpr Add (ConstantExpr c) x" "\<And>al ar sl sr d. switch_Add_Sub e al ar sl sr d = (al c x :: 'a)"
  | (ar) c x where "e = BinaryExpr Add x (ConstantExpr c)" "\<And>al ar sl sr d. switch_Add_Sub e al ar sl sr d = (ar x c :: 'a)"
  | (sl) c x where "e = BinaryExpr Sub (ConstantExpr c) x" "\<And>al ar sl sr d. switch_Add_Sub e al ar sl sr d = (sl c x :: 'a)"
  | (sr) c x where "e = BinaryExpr Sub x (ConstantExpr c)" "\<And>al ar sl sr d. switch_Add_Sub e al ar sl sr d = (sr x c :: 'a)"
  | (other) "\<And>al ar sl sr d. switch_Add_Sub e al ar sl sr d = (d :: 'a)"
proof (cases e)
  case (BinaryExpr k l r)
  show thesis
  proof (cases "k \<in> {Add, Sub}")
    case False
    with BinaryExpr that(5) show thesis by (simp add: case_nonarith)
  next
    case k: True
    show thesis
    proof (cases l rule: const_cases)
      case (C c)
      with BinaryExpr k that(1) [of c r] that(3) [of c r] show thesis by (auto simp: switch_Add_Sub_def)
    next
      case N
      show thesis
      proof (cases r rule: const_cases)
        case (C c)
        with N BinaryExpr k that(2) [of l c] that(4) [of l c] show thesis
          by (auto simp: switch_Add_Sub_def case_nonconst)
      next
        case N'': N
        with N BinaryExpr k that(5) show thesis by (auto simp: switch_Add_Sub_def case_nonconst)
      qed
    qed
  qed
qed (use that(5) in \<open>simp_all add: switch_Add_Sub_def\<close>)

lemma switch_delivers:
  assumes "\<And>c x. e = BinaryExpr Add (ConstantExpr c) x \<Longrightarrow> delivers P (\<lambda>n. al n c x)"
    and "\<And>c x. e = BinaryExpr Add x (ConstantExpr c) \<Longrightarrow> delivers P (\<lambda>n. ar n x c)"
    and "\<And>c x. e = BinaryExpr Sub (ConstantExpr c) x \<Longrightarrow> delivers P (\<lambda>n. sl n c x)"
    and "\<And>c x. e = BinaryExpr Sub x (ConstantExpr c) \<Longrightarrow> delivers P (\<lambda>n. sr n x c)"
    and "delivers P d"
  shows "delivers P (\<lambda>n. switch_Add_Sub e (al n) (ar n) (sl n) (sr n) (d n))"
  using assms by (cases e rule: switch_Add_Sub_cases [where 'a = "expr option"]) simp_all

lemma ConstantExpr__arith:
  "getBitWidth (ConstantExpr__Add a b) = getBitWidth a" "getBitWidth (ConstantExpr__Sub a b) = getBitWidth a"
  "getBitWidth (ConstantExpr__Neg a) = getBitWidth a"
  "getValue (ConstantExpr__Add a b) = (getValue a + getValue b) mod 2 ^ getBitWidth a"
  "getValue (ConstantExpr__Sub a b) = (getValue a - getValue b) mod 2 ^ getBitWidth a"
  "getValue (ConstantExpr__Neg a) = (- getValue a) mod 2 ^ getBitWidth a"
  "wf_apint a \<Longrightarrow> wf_apint (ConstantExpr__Add a b)" "wf_apint a \<Longrightarrow> wf_apint (ConstantExpr__Sub a b)"
  "wf_apint a \<Longrightarrow> wf_apint (ConstantExpr__Neg a)"
  by (auto simp: ConstantExpr__Add_def ConstantExpr__Sub_def ConstantExpr__Neg_def take_bit_eq_mod wf_apint_def)

lemma mod_sum_simps:
  "((a :: int) + b mod m) mod m = (a + b) mod m" "(a mod m + b) mod m = (a + b) mod m"
  "(a - b mod m) mod m = (a - b) mod m" "(a mod m - b) mod m = (a - b) mod m"
  by (simp_all add: mod_simps)

lemmas arith_same = same_as_def ConstantExpr__arith mod_sum_simps

context folding_base
begin

definition folds :: "bkind \<Rightarrow> expr \<Rightarrow> expr \<Rightarrow> bool" where
  "folds k l r \<longleftrightarrow> (wf (BinaryExpr k l r) \<longrightarrow>
     delivers (light (weight l + weight r + 1) (BinaryExpr k l r)) (\<lambda>n. b_Binary (createConstantFoldingExprBuilder B n) k l r))"

lemma folds_call:
  assumes "folds k l r" "wf (BinaryExpr k l r)" "same_as e0 (BinaryExpr k l r)" "weight l + weight r + 1 \<le> s"
  shows "delivers (light s e0) (\<lambda>n. b_Binary (createConstantFoldingExprBuilder B n) k l r)"
  using assms unfolding folds_def
  by (auto simp: light_def elim!: delivers_mono intro: same_as_trans)

lemma folds_nested:
  assumes "folds k1 a b" "wf (BinaryExpr k1 a b)" "weight a + weight b + 1 \<le> m" "weight x + m + 1 \<le> s"
    and "\<And>e. same_as (BinaryExpr k1 a b) e \<Longrightarrow> weight e \<le> m \<Longrightarrow> folds k2 x e"
    and "\<And>e. same_as (BinaryExpr k1 a b) e \<Longrightarrow> wf (BinaryExpr k2 x e) \<and> same_as e0 (BinaryExpr k2 x e)"
  shows "delivers (light s e0) (\<lambda>n. do { e \<leftarrow> b_Binary (createConstantFoldingExprBuilder B n) k1 a b;
    b_Binary (createConstantFoldingExprBuilder B n) k2 x e })"
proof (rule delivers_bind [OF folds_call [OF assms(1,2) same_as_refl [OF assms(2)] assms(3)]])
  fix e assume "light m (BinaryExpr k1 a b) e"
  then have e: "same_as (BinaryExpr k1 a b) e" "weight e \<le> m" by (auto simp: light_def)
  show "delivers (light s e0) (\<lambda>n. b_Binary (createConstantFoldingExprBuilder B n) k2 x e)"
    using assms(4) assms(6) [OF e(1)] e(2) by (intro folds_call [OF assms(5) [OF e]]) auto
qed

lemma base_light:
  assumes "k \<in> {Add, Sub}" "wf (BinaryExpr k l r)" "same_as e0 (BinaryExpr k l r)" "weight l + weight r + 1 \<le> s"
  shows "delivers (light s e0) (\<lambda>n. b_Binary (B n) k l r)"
  by (rule delivers_mono [OF weight_law [OF assms(1,2)]]) (use assms(3,4) in \<open>auto simp: light_def intro: same_as_trans\<close>)

lemma Add_CN_light:
  assumes IH: "\<And>k x y. k \<in> {Add, Sub} \<Longrightarrow> weight x + weight y < N \<Longrightarrow> folds k x y"
    and N: "weight r + 1 \<le> N" and wf: "wf (BinaryExpr Add (ConstantExpr c) r)" and e0: "same_as e0 (BinaryExpr Add (ConstantExpr c) r)"
  shows "delivers (light (weight r + 2) e0)
    (\<lambda>n. ConstantFoldingBuilder__Add_CN (createConstantFoldingExprBuilder B n) (B n) c r)"
  unfolding ConstantFoldingBuilder__Add_CN_def
proof (intro delivers_if switch_delivers)
  assume "ConstantExpr__isZero c"
  with wf have "same_as (BinaryExpr Add (ConstantExpr c) r) r"
    using in_width_den [of r] by (auto simp: same_as_def ConstantExpr__isZero_def in_width_def)
  with e0 show "delivers (light (weight r + 2) e0) (\<lambda>n. Some r)"
    by (intro delivers_Some lightI) (auto intro: same_as_trans)
next
  fix d x assume r: "r = BinaryExpr Add (ConstantExpr d) x"
  show "delivers (light (weight r + 2) e0)
      (\<lambda>n. b_Binary (createConstantFoldingExprBuilder B n) Add (ConstantExpr (ConstantExpr__Add c d)) x)"
    using r N wf e0 by (intro folds_call IH) (auto simp: arith_same algebra_simps)
next
  fix d x assume r: "r = BinaryExpr Add x (ConstantExpr d)"
  show "delivers (light (weight r + 2) e0)
      (\<lambda>n. b_Binary (createConstantFoldingExprBuilder B n) Add (ConstantExpr (ConstantExpr__Add c d)) x)"
    using r N wf e0 by (intro folds_call IH) (auto simp: arith_same algebra_simps)
next
  fix d x assume r: "r = BinaryExpr Sub (ConstantExpr d) x"
  show "delivers (light (weight r + 2) e0)
      (\<lambda>n. b_Binary (createConstantFoldingExprBuilder B n) Sub (ConstantExpr (ConstantExpr__Add c d)) x)"
    using r N wf e0 by (intro folds_call IH) (auto simp: arith_same algebra_simps)
next
  fix d x assume r: "r = BinaryExpr Sub x (ConstantExpr d)"
  show "delivers (light (weight r + 2) e0)
      (\<lambda>n. b_Binary (createConstantFoldingExprBuilder B n) Add (ConstantExpr (ConstantExpr__Sub c d)) x)"
    using r N wf e0 by (intro folds_call IH) (auto simp: arith_same algebra_simps)
next
  show "delivers (light (weight r + 2) e0) (\<lambda>n. b_Binary (B n) Add (ConstantExpr c) r)"
    using wf e0 by (intro base_light) auto
qed

lemma Sub_CN_light:
  assumes IH: "\<And>k x y. k \<in> {Add, Sub} \<Longrightarrow> weight x + weight y < N \<Longrightarrow> folds k x y"
    and N: "weight r + 1 \<le> N" and wf: "wf (BinaryExpr Sub (ConstantExpr c) r)"
  shows "delivers (light (weight r + 2) (BinaryExpr Sub (ConstantExpr c) r))
    (\<lambda>n. ConstantFoldingBuilder__Sub_CN (createConstantFoldingExprBuilder B n) (B n) c r)"
  unfolding ConstantFoldingBuilder__Sub_CN_def
proof (intro switch_delivers)
  fix d x assume r: "r = BinaryExpr Add (ConstantExpr d) x"
  show "delivers (light (weight r + 2) (BinaryExpr Sub (ConstantExpr c) r))
      (\<lambda>n. b_Binary (createConstantFoldingExprBuilder B n) Sub (ConstantExpr (ConstantExpr__Sub c d)) x)"
    using r N wf by (intro folds_call IH) (auto simp: arith_same algebra_simps)
next
  fix d x assume r: "r = BinaryExpr Add x (ConstantExpr d)"
  show "delivers (light (weight r + 2) (BinaryExpr Sub (ConstantExpr c) r))
      (\<lambda>n. b_Binary (createConstantFoldingExprBuilder B n) Sub (ConstantExpr (ConstantExpr__Sub c d)) x)"
    using r N wf by (intro folds_call IH) (auto simp: arith_same algebra_simps)
next
  fix d x assume r: "r = BinaryExpr Sub (ConstantExpr d) x"
  show "delivers (light (weight r + 2) (BinaryExpr Sub (ConstantExpr c) r))
      (\<lambda>n. b_Binary (createConstantFoldingExprBuilder B n) Add (ConstantExpr (ConstantExpr__Sub c d)) x)"
    using r N wf by (intro folds_call IH) (auto simp: arith_same algebra_simps)
next
  fix d x assume r: "r = BinaryExpr Sub x (ConstantExpr d)"
  show "delivers (light (weight r + 2) (BinaryExpr Sub (ConstantExpr c) r))
      (\<lambda>n. b_Binary (createConstantFoldingExprBuilder B n) Sub (ConstantExpr (ConstantExpr__Add c d)) x)"
    using r N wf by (intro folds_call IH) (auto simp: arith_same algebra_simps)
next
  show "delivers (light (weight r + 2) (BinaryExpr Sub (ConstantExpr c) r)) (\<lambda>n. b_Binary (B n) Sub (ConstantExpr c) r)"
    using wf by (intro base_light) auto
qed

end

lemma arith_cases_delivers:
  assumes "\<And>x y. l = BinaryExpr Add x y \<Longrightarrow> delivers P (\<lambda>n. f n x y)"
    and "\<And>x y. l = BinaryExpr Sub x y \<Longrightarrow> delivers P (\<lambda>n. g n x y)" and "delivers P h"
  shows "delivers P (\<lambda>n. case l of BinaryExpr Add x y \<Rightarrow> f n x y | BinaryExpr Sub x y \<Rightarrow> g n x y | _ \<Rightarrow> h n)"
proof (cases l)
  case (BinaryExpr k x y)
  with assms show ?thesis by (cases k) simp_all
qed (use assms in simp_all)

context folding_base
begin

lemma NN_light:
  assumes IH: "\<And>k x y. k \<in> {Add, Sub} \<Longrightarrow> weight x + weight y < weight l + weight r \<Longrightarrow> folds k x y"
    and IH2: "\<And>k x y. k \<in> {Add, Sub} \<Longrightarrow> weight x + weight y \<le> weight l + weight r \<Longrightarrow> weight x < weight l \<Longrightarrow> folds k x y"
    and l: "2 \<le> weight l" and w: "wf l" "wf r" "getWidth l = getWidth r"
  shows "delivers (light (weight l + weight r + 1) (BinaryExpr Add l r))
      (\<lambda>n. ConstantFoldingBuilder__Add_NN (createConstantFoldingExprBuilder B n) (B n) l r)" (is ?A)
    and "delivers (light (weight l + weight r + 1) (BinaryExpr Sub l r))
      (\<lambda>n. ConstantFoldingBuilder__Sub_NN (createConstantFoldingExprBuilder B n) (B n) l r)" (is ?S)
proof -
  have nested: "delivers (light (weight l + weight r + 1) e0) (\<lambda>n. do { e \<leftarrow> b_Binary (createConstantFoldingExprBuilder B n) k1 a b;
      b_Binary (createConstantFoldingExprBuilder B n) k2 x e })"
    if "k1 \<in> {Add, Sub}" "k2 \<in> {Add, Sub}" "weight a + weight b < weight l + weight r" "wf (BinaryExpr k1 a b)"
      "weight x + weight a + weight b + 1 \<le> weight l + weight r" "weight x < weight l"
      "\<And>e. same_as (BinaryExpr k1 a b) e \<Longrightarrow> wf (BinaryExpr k2 x e) \<and> same_as e0 (BinaryExpr k2 x e)"
    for e0 k1 a b k2 x
    using that by (intro folds_nested [where m = "weight a + weight b + 1"] IH IH2) auto
  show ?A
    unfolding ConstantFoldingBuilder__Add_NN_def
  proof (intro arith_cases_delivers switch_delivers)
    show "delivers (light (weight l + weight r + 1) (BinaryExpr Add l r)) (\<lambda>n. b_Binary (B n) Add l r)"
      using w by (intro base_light) auto
  qed ((rule nested; use l w in \<open>auto simp: arith_same; simp add: algebra_simps\<close>)+)
  show ?S
    unfolding ConstantFoldingBuilder__Sub_NN_def
  proof (intro arith_cases_delivers switch_delivers)
    show "delivers (light (weight l + weight r + 1) (BinaryExpr Sub l r)) (\<lambda>n. b_Binary (B n) Sub l r)"
      using w by (intro base_light) auto
  qed ((rule nested; use l w in \<open>auto simp: arith_same; simp add: algebra_simps\<close>)+)
qed

lemma same_as_comm: "wf (BinaryExpr Add x y) \<Longrightarrow> same_as (BinaryExpr Add x y) (BinaryExpr Add y x)"
  by (auto simp: same_as_def algebra_simps)

lemma folds_Add_Sub: "k \<in> {Add, Sub} \<Longrightarrow> folds k l r"
proof (induction "(weight l + weight r, weight l)" arbitrary: k l r rule: wf_induct_rule [OF wf_lex_prod [OF wf_less_than wf_less_than]])
  case 1
  have IH: "folds k x y" if "k \<in> {Add, Sub}" "weight x + weight y < weight l + weight r" for k x y
    using 1(1) [OF _ that(1)] that(2) by simp
  have IH2: "folds k x y" if "k \<in> {Add, Sub}" "weight x + weight y \<le> weight l + weight r" "weight x < weight l" for k x y
    using 1(1) [OF _ that(1)] that(2,3) by (simp add: le_less)
  show ?case
    unfolding folds_def
  proof (intro impI delivers_Suc [where m = "\<lambda>n. b_Binary (createConstantFoldingExprBuilder B n) k l r"])
    assume wf: "wf (BinaryExpr k l r)"
    let ?P = "light (weight l + weight r + 1) (BinaryExpr k l r)"
    have "delivers ?P (\<lambda>n. b_Binary (ConstantSpecializedExprBuilder (createConstantFoldingExprBuilder B n)
        (ConstantFoldingBuilder (createConstantFoldingExprBuilder B n) (B n))) k l r)"
    proof (rule Binary_delivers [OF wf])
      show "div_ok k r" using 1(2) by (auto simp: div_ok_def is_div_def)
      show "\<forall>a. ConstantExpr__op k c d = Some a \<longrightarrow> same_as (BinaryExpr k l r) (ConstantExpr a) \<longrightarrow> ?P (ConstantExpr a)"
        for c d using weight_ge_1 by (auto simp: light_def)
      have add: "delivers (light (weight x + 2) e0) (\<lambda>n. ConstantFoldingBuilder__Add_CN (createConstantFoldingExprBuilder B n) (B n) c x)"
        if "weight x + 1 \<le> weight l + weight r" "wf (BinaryExpr Add (ConstantExpr c) x)" "same_as e0 (BinaryExpr Add (ConstantExpr c) x)"
        for c x e0 using that by (intro Add_CN_light [where N = "weight l + weight r"] IH)
      show "delivers ?P (\<lambda>n. s_CN (ConstantFoldingBuilder (createConstantFoldingExprBuilder B n) (B n)) k c r)"
        if c: "l = ConstantExpr c" for c
      proof (cases "k = Add")
        case True
        then show ?thesis using add [of r c "BinaryExpr k l r"] c wf by (simp add: ConstantFoldingBuilder_def)
      next
        case False
        then have k: "k = Sub" using 1(2) by simp
        have "delivers (light (weight r + 2) (BinaryExpr Sub (ConstantExpr c) r))
            (\<lambda>n. ConstantFoldingBuilder__Sub_CN (createConstantFoldingExprBuilder B n) (B n) c r)"
          using c k wf by (intro Sub_CN_light [where N = "weight l + weight r"] IH) auto
        then show ?thesis using k c by (simp add: ConstantFoldingBuilder_def)
      qed
      show "delivers ?P (\<lambda>n. s_NC (ConstantFoldingBuilder (createConstantFoldingExprBuilder B n) (B n)) k l c)"
        if c: "r = ConstantExpr c" for c
      proof (cases "k = Add")
        case True
        then show ?thesis using add [of l c "BinaryExpr k l r"] c wf same_as_comm [of l r]
          by (simp add: ConstantFoldingBuilder_def)
      next
        case False
        then have k: "k = Sub" using 1(2) by simp
        have "same_as (BinaryExpr k l r) (BinaryExpr Add (ConstantExpr (ConstantExpr__Neg c)) l)"
            "wf (BinaryExpr Add (ConstantExpr (ConstantExpr__Neg c)) l)"
          using c k wf by (auto simp: arith_same)
        then show ?thesis
          using add [of l "ConstantExpr__Neg c" "BinaryExpr k l r"] c k by (simp add: ConstantFoldingBuilder_def)
      qed
      show "delivers ?P (\<lambda>n. s_NN (ConstantFoldingBuilder (createConstantFoldingExprBuilder B n) (B n)) k l r)"
        if "\<not> is_const l"
      proof -
        have w: "2 \<le> weight l" "wf l" "wf r" "getWidth l = getWidth r" using weight_nonconst that wf by auto
        have "delivers (light (weight l + weight r + 1) (BinaryExpr Add l r))
            (\<lambda>n. ConstantFoldingBuilder__Add_NN (createConstantFoldingExprBuilder B n) (B n) l r)"
          by (rule NN_light(1) [OF _ _ w]) (blast intro: IH IH2)+
        moreover have "delivers (light (weight l + weight r + 1) (BinaryExpr Sub l r))
            (\<lambda>n. ConstantFoldingBuilder__Sub_NN (createConstantFoldingExprBuilder B n) (B n) l r)"
          by (rule NN_light(2) [OF _ _ w]) (blast intro: IH IH2)+
        ultimately show ?thesis using 1(2) by (auto simp: ConstantFoldingBuilder_def)
      qed
    qed
    then show "delivers ?P (\<lambda>n. b_Binary (createConstantFoldingExprBuilder B (Suc n)) k l r)" by simp
  qed
qed

end

context expr_builder
begin

lemma binary_same:
  assumes "wf (BinaryExpr k l r)" "div_ok k r" "same_as e0 (BinaryExpr k l r)"
  shows "delivers (same_as e0) (\<lambda>n. b_Binary (B n) k l r)"
  by (rule delivers_mono [OF Binary_law [OF assms(1,2)]]) (rule same_as_trans [OF assms(3)])

lemma not_same:
  assumes "wf e" "same_as e0 (NotExpr e)"
  shows "delivers (same_as e0) (\<lambda>n. b_Not (B n) e)"
  using Not_law [of e] assms by (auto elim!: delivers_mono intro: same_as_trans)

lemma Eq_CN_same:
  assumes wf: "wf (BinaryExpr Eq (ConstantExpr c) r)" and e0: "same_as e0 (BinaryExpr Eq (ConstantExpr c) r)"
  shows "delivers (same_as e0) (\<lambda>n. ConstantFoldingBuilder__Eq_CN (B n) c r)"
    "delivers (same_as e0) (\<lambda>n. SimplifyingBuilder__Eq_CN (B n) c r)"
proof -
  have c: "wf_apint c" "wf r" "getWidth r = getBitWidth c" using wf by auto
  have bool: "den \<sigma> r = 0 \<or> den \<sigma> r = 1" if "getBitWidth c = 1" for \<sigma>
    using in_width_den [OF c(2), of \<sigma>] c(3) that by (auto simp: in_width_def)
  have "delivers (same_as e0) (\<lambda>n. if getBitWidth c = 1 then if ConstantExpr__isTrue c then Some r else b_Not (B n) r
      else b_Binary (B n) Eq (ConstantExpr c) r)"
  proof (intro delivers_if)
    assume t: "getBitWidth c = 1" "ConstantExpr__isTrue c"
    then have "getValue c = 1" using c(1) by (auto simp: ConstantExpr__isTrue_def wf_apint_def in_width_def)
    moreover have "den \<sigma> r = of_bool (1 = den \<sigma> r)" for \<sigma> using bool [OF t(1), of \<sigma>] by auto
    ultimately show "delivers (same_as e0) (\<lambda>n. Some r)"
      using e0 t c by (intro delivers_Some) (simp add: same_as_def)
  next
    assume t: "getBitWidth c = 1" "\<not> ConstantExpr__isTrue c"
    then have "getValue c = 0" by (auto simp: ConstantExpr__isTrue_def)
    moreover have "1 - den \<sigma> r = of_bool (0 = den \<sigma> r)" for \<sigma> using bool [OF t(1), of \<sigma>] by auto
    ultimately show "delivers (same_as e0) (\<lambda>n. b_Not (B n) r)"
      using t c by (intro not_same same_as_trans [OF e0]) (simp_all add: same_as_def)
  qed (use wf e0 in \<open>auto intro!: binary_same simp: div_ok_def is_div_def\<close>)
  then show "delivers (same_as e0) (\<lambda>n. ConstantFoldingBuilder__Eq_CN (B n) c r)"
    "delivers (same_as e0) (\<lambda>n. SimplifyingBuilder__Eq_CN (B n) c r)"
    by (simp_all add: ConstantFoldingBuilder__Eq_CN_def SimplifyingBuilder__Eq_CN_def)
qed

lemma bitwise_CN_same:
  shows "wf (BinaryExpr Mul (ConstantExpr c) r) \<Longrightarrow> same_as e0 (BinaryExpr Mul (ConstantExpr c) r) \<Longrightarrow>
      delivers (same_as e0) (\<lambda>n. ConstantFoldingBuilder__Mul_CN (B n) c r)"
    and "wf (BinaryExpr And (ConstantExpr c) r) \<Longrightarrow> same_as e0 (BinaryExpr And (ConstantExpr c) r) \<Longrightarrow>
      delivers (same_as e0) (\<lambda>n. ConstantFoldingBuilder__And_CN (B n) c r)"
    and "wf (BinaryExpr Or (ConstantExpr c) r) \<Longrightarrow> same_as e0 (BinaryExpr Or (ConstantExpr c) r) \<Longrightarrow>
      delivers (same_as e0) (\<lambda>n. ConstantFoldingBuilder__Or_CN (B n) c r)"
    and "wf (BinaryExpr Xor (ConstantExpr c) r) \<Longrightarrow> same_as e0 (BinaryExpr Xor (ConstantExpr c) r) \<Longrightarrow>
      delivers (same_as e0) (\<lambda>n. ConstantFoldingBuilder__Xor_CN (B n) c r)"
proof -
  have z: "same_as e0 r" if "wf r" "getWidth r = getBitWidth c" "same_as e0 (BinaryExpr k (ConstantExpr c) r)"
      "\<And>\<sigma>. bv_op k (getBitWidth c) (getValue c) (den \<sigma> r) = den \<sigma> r" "\<not> is_cmp k" for k
    using that by (auto simp: same_as_def)
  have y: "same_as e0 (ConstantExpr c)" if "wf_apint c" "same_as e0 (BinaryExpr k (ConstantExpr c) r)"
      "\<And>\<sigma>. bv_op k (getBitWidth c) (getValue c) (den \<sigma> r) = getValue c" "\<not> is_cmp k" for k
    using that by (auto simp: same_as_def)
  have b: "delivers (same_as e0) (\<lambda>n. b_Binary (B n) k (ConstantExpr c) r)"
    if "wf (BinaryExpr k (ConstantExpr c) r)" "same_as e0 (BinaryExpr k (ConstantExpr c) r)" "\<not> is_div k" for k
    using that by (intro binary_same) (auto simp: div_ok_def)
  note d = ConstantFoldingBuilder__Mul_CN_def ConstantFoldingBuilder__And_CN_def ConstantFoldingBuilder__Or_CN_def
    ConstantFoldingBuilder__Xor_CN_def
  show "delivers (same_as e0) (\<lambda>n. ConstantFoldingBuilder__Mul_CN (B n) c r)"
    if wf: "wf (BinaryExpr Mul (ConstantExpr c) r)" and e0: "same_as e0 (BinaryExpr Mul (ConstantExpr c) r)"
    unfolding d
  proof (intro delivers_if delivers_Some)
    have w: "in_width (getBitWidth c) (den \<sigma> r)" for \<sigma> using wf in_width_den [of r \<sigma>] by auto
    show "same_as e0 (ConstantExpr c)" if "ConstantExpr__isZero c"
      using that wf by (intro y [OF _ e0]) (auto simp: ConstantExpr__isZero_def)
    show "same_as e0 r" if "ConstantExpr__isOne c"
      using that wf w by (intro z [OF _ _ e0]) (auto simp: ConstantExpr__isOne_iff in_width_def)
    show "delivers (same_as e0) (\<lambda>n. b_Binary (B n) Mul (ConstantExpr c) r)"
      using wf e0 by (intro b) (auto simp: is_div_def)
  qed
  show "delivers (same_as e0) (\<lambda>n. ConstantFoldingBuilder__And_CN (B n) c r)"
    if wf: "wf (BinaryExpr And (ConstantExpr c) r)" and e0: "same_as e0 (BinaryExpr And (ConstantExpr c) r)"
    unfolding d
  proof (intro delivers_if delivers_Some)
    have w: "in_width (getBitWidth c) (den \<sigma> r)" for \<sigma> using wf in_width_den [of r \<sigma>] by auto
    show "same_as e0 (ConstantExpr c)" if "ConstantExpr__isZero c"
      using that wf by (intro y [OF _ e0]) (auto simp: ConstantExpr__isZero_def)
    show "same_as e0 r" if "ConstantExpr__isAllOnes c"
      using that wf w in_width_and_mask [OF w] by (intro z [OF _ _ e0]) (auto simp: ConstantExpr__isAllOnes_iff and.commute)
    show "delivers (same_as e0) (\<lambda>n. b_Binary (B n) And (ConstantExpr c) r)"
      using wf e0 by (intro b) (auto simp: is_div_def)
  qed
  show "delivers (same_as e0) (\<lambda>n. ConstantFoldingBuilder__Or_CN (B n) c r)"
    if wf: "wf (BinaryExpr Or (ConstantExpr c) r)" and e0: "same_as e0 (BinaryExpr Or (ConstantExpr c) r)"
    unfolding d
  proof (intro delivers_if delivers_Some)
    have w: "in_width (getBitWidth c) (den \<sigma> r)" for \<sigma> using wf in_width_den [of r \<sigma>] by auto
    show "same_as e0 r" if "ConstantExpr__isZero c"
      using that wf by (intro z [OF _ _ e0]) (auto simp: ConstantExpr__isZero_def)
    show "same_as e0 (ConstantExpr c)" if "ConstantExpr__isAllOnes c"
      using that wf w in_width_or_mask [OF w] by (intro y [OF _ e0]) (auto simp: ConstantExpr__isAllOnes_iff or.commute)
    show "delivers (same_as e0) (\<lambda>n. b_Binary (B n) Or (ConstantExpr c) r)"
      using wf e0 by (intro b) (auto simp: is_div_def)
  qed
  show "delivers (same_as e0) (\<lambda>n. ConstantFoldingBuilder__Xor_CN (B n) c r)"
    if wf: "wf (BinaryExpr Xor (ConstantExpr c) r)" and e0: "same_as e0 (BinaryExpr Xor (ConstantExpr c) r)"
    unfolding d
  proof (intro delivers_if delivers_Some)
    show "same_as e0 r" if "ConstantExpr__isZero c"
      using that wf by (intro z [OF _ _ e0]) (auto simp: ConstantExpr__isZero_def)
    show "delivers (same_as e0) (\<lambda>n. b_Binary (B n) Xor (ConstantExpr c) r)"
      using wf e0 by (intro b) (auto simp: is_div_def)
  qed
qed

lemma Not_delivers:
  assumes wf: "wf e" and S: "\<not> is_const e \<Longrightarrow> delivers (same_as (NotExpr e)) (\<lambda>n. s_Not (S n) e)"
  shows "delivers (same_as (NotExpr e)) (\<lambda>n. b_Not (ConstantSpecializedExprBuilder (T n) (S n)) e)"
proof (cases e)
  case (NotExpr a)
  with wf show ?thesis by (auto simp: specialized_defs same_as_def intro!: delivers_Some)
next
  case (ConstantExpr c)
  then have "same_as (NotExpr e) (ConstantExpr (ConstantExpr__Not c))"
    using wf NotExpr__create_denotes [of False "\<lambda>_. True" "getBitWidth c" e]
    by (auto simp: NotExpr__create_def same_as_def denotes_def good_def)
  with ConstantExpr show ?thesis by (simp add: specialized_defs delivers_Some)
qed (use S in \<open>simp_all add: specialized_defs\<close>)

end

lemma ConstantFoldingBuilder_other:
  assumes "k \<notin> {Add, Sub, Mul, And, Or, Xor, Eq}"
  shows "s_CN (ConstantFoldingBuilder T Base) k c r = b_Binary Base k (ConstantExpr c) r"
    and "s_NC (ConstantFoldingBuilder T Base) k l c = b_Binary Base k l (ConstantExpr c)"
  using assms by (cases k; simp add: ConstantFoldingBuilder_def ChainedBuilder_def)+

lemma ConstantFoldingBuilder_other_NN:
  "k \<notin> {Add, Sub} \<Longrightarrow> s_NN (ConstantFoldingBuilder T Base) k l r = b_Binary Base k l r"
  by (cases k) (simp_all add: ConstantFoldingBuilder_def ChainedBuilder_def)

lemma same_as_swap:
  "k \<in> {Mul, And, Or, Xor, Eq} \<Longrightarrow> wf (BinaryExpr k l r) \<Longrightarrow> same_as (BinaryExpr k l r) (BinaryExpr k r l)"
  by (auto simp: same_as_def mult.commute and.commute or.commute xor.commute)

context folding_base
begin

lemma folding_Binary:
  assumes wf: "wf (BinaryExpr k l r)" and d: "div_ok k r"
  shows "delivers (same_as (BinaryExpr k l r)) (\<lambda>n. b_Binary (createConstantFoldingExprBuilder B n) k l r)"
proof (cases "k \<in> {Add, Sub}")
  case True
  from folds_Add_Sub [OF True, of l r] wf show ?thesis
    by (auto simp: folds_def light_def elim: delivers_mono)
next
  case False
  show ?thesis
  proof (intro delivers_Suc [where m = "\<lambda>n. b_Binary (createConstantFoldingExprBuilder B n) k l r"], simp only: createConstantFoldingExprBuilder.simps,
      rule Binary_delivers [OF wf d])
    fix c assume c: "l = ConstantExpr c"
    show "delivers (same_as (BinaryExpr k l r)) (\<lambda>n. s_CN (ConstantFoldingBuilder (createConstantFoldingExprBuilder B n) (B n)) k c r)"
    proof (cases "k \<in> {Mul, And, Or, Xor, Eq}")
      case True
      with wf c show ?thesis
        using bitwise_CN_same [of c r "BinaryExpr k l r"] Eq_CN_same(1) [of c r "BinaryExpr k l r"]
        by (auto simp: ConstantFoldingBuilder_def)
    next
      case other: False
      with Binary_law [OF wf d] False c show ?thesis by (simp add: ConstantFoldingBuilder_other)
    qed
  next
    fix c assume c: "r = ConstantExpr c"
    show "delivers (same_as (BinaryExpr k l r)) (\<lambda>n. s_NC (ConstantFoldingBuilder (createConstantFoldingExprBuilder B n) (B n)) k l c)"
    proof (cases "k \<in> {Mul, And, Or, Xor, Eq}")
      case True
      with same_as_swap [OF True wf] wf c show ?thesis
        using bitwise_CN_same [of c l "BinaryExpr k l r"] Eq_CN_same(1) [of c l "BinaryExpr k l r"]
        by (auto simp: ConstantFoldingBuilder_def)
    next
      case other: False
      with Binary_law [OF wf d] False c show ?thesis by (simp add: ConstantFoldingBuilder_other)
    qed
  qed (use Binary_law [OF wf d] False in \<open>simp_all add: ConstantFoldingBuilder_other_NN\<close>)
qed

lemma folding: "expr_builder (createConstantFoldingExprBuilder B)"
proof (unfold_locales, goal_cases)
  case (10 k l r)
  then show ?case by (rule folding_Binary)
next
  case (9 e)
  then show ?case
    using not_same [of e "NotExpr e"]
    by (intro delivers_Suc [where m = "\<lambda>n. b_Not (createConstantFoldingExprBuilder B n) e"])
      (simp add: Not_delivers ConstantFoldingBuilder_def ChainedBuilder_def)
next
  case (3 root us i)
  have "delivers (same_as (ReadExpr root us i)) (\<lambda>n. b_Read (ConstantSpecializedExprBuilder (createConstantFoldingExprBuilder B n)
      (ConstantFoldingBuilder (createConstantFoldingExprBuilder B n) (B n))) root us i)"
    by (rule Read_delivers [OF _ folding_Binary 3]) (simp_all add: ConstantFoldingBuilder_def ChainedBuilder_def div_ok_def is_div_def)
  then show ?case
    by (intro delivers_Suc [where m = "\<lambda>n. b_Read (createConstantFoldingExprBuilder B n) root us i"]) simp
qed (rule delivers_Suc, simp only: createConstantFoldingExprBuilder.simps, rule chained_delivers,
    simp add: ConstantFoldingBuilder_def ChainedBuilder_def, assumption)+

end

interpretation folding: expr_builder "createConstantFoldingExprBuilder createDefaultExprBuilder"
  by (rule default.folding)

section \<open>Simplification terminates and keeps values\<close>

lemma take_bit_NOT: "in_width w x \<Longrightarrow> take_bit w (NOT x) = 2 ^ w - 1 - x"
  unfolding take_bit_eq_mod not_int_def by (intro int_mod_pos_eq [where q = "- 1"]) (auto simp: in_width_def)

lemma de_Morgan:
  "in_width w x \<Longrightarrow> in_width w y \<Longrightarrow> 2 ^ w - 1 - (x OR y) = (2 ^ w - 1 - x) AND (2 ^ w - 1 - y)"
  by (simp flip: take_bit_NOT add: in_width_or take_bit_and)

lemma same_as_Not_Or:
  assumes "wf (BinaryExpr Or l r)" "same_as (NotExpr l) a" "same_as (NotExpr r) b"
  shows "same_as (NotExpr (BinaryExpr Or l r)) (BinaryExpr And a b)"
  using assms in_width_den [of l] in_width_den [of r] by (auto simp: same_as_def de_Morgan)

lemma same_as_Ne:
  "wf (BinaryExpr Ne l r) \<Longrightarrow> same_as (BinaryExpr Eq l r) e \<Longrightarrow> same_as (BinaryExpr Ne l r) (NotExpr e)"
  by (auto simp: same_as_def)

lemma same_as_flip:
  assumes "(k, k') \<in> {(Ugt, Ult), (Uge, Ule), (Sgt, Slt), (Sge, Sle)}" "wf (BinaryExpr k l r)"
  shows "same_as (BinaryExpr k l r) (BinaryExpr k' r l)"
  using assms by (auto simp: same_as_def)

text \<open>The comparisons that are rewritten, and what they are rewritten to.\<close>

lemma SimplifyingBuilder_kinds:
  assumes "k \<notin> {Eq, Ne, Ugt, Uge, Sgt, Sge}"
  shows "s_CN (SimplifyingBuilder T Base) k c r = b_Binary Base k (ConstantExpr c) r"
    and "s_NC (SimplifyingBuilder T Base) k l c = b_Binary Base k l (ConstantExpr c)"
    and "s_NN (SimplifyingBuilder T Base) k l r = b_Binary Base k l r"
  using assms by (cases k; simp add: SimplifyingBuilder_def SimplifyingBuilder__cmp_def ChainedBuilder_def)+

lemma SimplifyingBuilder_cmp:
  assumes "SimplifyingBuilder__cmp T k l r = Some m"
  shows "l = ConstantExpr c \<Longrightarrow> s_CN (SimplifyingBuilder T Base) k c r = m"
    and "r = ConstantExpr c \<Longrightarrow> s_NC (SimplifyingBuilder T Base) k l c = m"
    and "s_NN (SimplifyingBuilder T Base) k l r = m"
  using assms by (cases k; simp add: SimplifyingBuilder_def SimplifyingBuilder__cmp_def)+

context expr_builder
begin

lemma simplifying_Binary_plain:
  assumes wf: "wf (BinaryExpr k l r)" and d: "div_ok k r" and k: "k \<notin> {Ne, Ugt, Uge, Sgt, Sge}"
  shows "delivers (same_as (BinaryExpr k l r)) (\<lambda>n. b_Binary (createSimplifyingExprBuilder B n) k l r)"
proof (intro delivers_Suc [where m = "\<lambda>n. b_Binary (createSimplifyingExprBuilder B n) k l r"], simp only: createSimplifyingExprBuilder.simps,
      rule Binary_delivers [OF wf d])
  fix c assume c: "l = ConstantExpr c"
  show "delivers (same_as (BinaryExpr k l r)) (\<lambda>n. s_CN (SimplifyingBuilder (createSimplifyingExprBuilder B n) (B n)) k c r)"
  proof (cases "k = Eq")
    case True
    with wf c Eq_CN_same(2) [of c r "BinaryExpr k l r"] show ?thesis by (simp add: SimplifyingBuilder_def)
  qed (use Binary_law [OF wf d] k c in \<open>simp add: SimplifyingBuilder_kinds\<close>)
next
  fix c assume c: "r = ConstantExpr c"
  show "delivers (same_as (BinaryExpr k l r)) (\<lambda>n. s_NC (SimplifyingBuilder (createSimplifyingExprBuilder B n) (B n)) k l c)"
  proof (cases "k = Eq")
    case True
    with wf c Eq_CN_same(2) [of c l "BinaryExpr k l r"] same_as_swap [of Eq l r] show ?thesis
      by (simp add: SimplifyingBuilder_def)
  qed (use Binary_law [OF wf d] k c in \<open>simp add: SimplifyingBuilder_kinds\<close>)
next
  show "delivers (same_as (BinaryExpr k l r)) (\<lambda>n. s_NN (SimplifyingBuilder (createSimplifyingExprBuilder B n) (B n)) k l r)"
  proof (cases "k = Eq")
    case True
    have "same_as (BinaryExpr Eq e e) ExprBuilder__True" for e
      by (simp add: same_as_def ExprBuilder__True_def ConstantExpr__alloc_def in_width_def)
    then have "delivers (same_as (BinaryExpr Eq l r)) (\<lambda>n. SimplifyingBuilder__Eq_NN (B n) l r)"
      using Binary_law [OF wf d] True
      unfolding SimplifyingBuilder__Eq_NN_def by (intro delivers_if delivers_Some) auto
    with True show ?thesis by (simp add: SimplifyingBuilder_def)
  qed (use Binary_law [OF wf d] k in \<open>simp add: SimplifyingBuilder_kinds\<close>)
qed simp

lemma simplifying_Not:
  "wf e \<Longrightarrow> delivers (same_as (NotExpr e)) (\<lambda>n. b_Not (createSimplifyingExprBuilder B n) e)"
proof (induction "size e" arbitrary: e rule: less_induct)
  case less
  have base: "delivers (same_as (NotExpr e)) (\<lambda>n. b_Not (B n) e)"
    using less.prems by (intro not_same same_as_refl) simp_all
  have "delivers (same_as (NotExpr e)) (\<lambda>n. SimplifyingBuilder__Not (createSimplifyingExprBuilder B n) (B n) e)"
  proof (cases "\<exists>l r. e = BinaryExpr Or l r")
    case True
    then obtain l r where e: "e = BinaryExpr Or l r" by blast
    have wf: "wf l" "wf r" "getWidth l = getWidth r" using less.prems e by auto
    have "delivers (same_as (NotExpr e)) (\<lambda>n. b_Not (createSimplifyingExprBuilder B n) l \<bind> (\<lambda>a.
        b_Not (createSimplifyingExprBuilder B n) r \<bind> (\<lambda>b. b_Binary (createSimplifyingExprBuilder B n) And a b)))"
    proof (intro delivers_bind)
      show "delivers (same_as (NotExpr l)) (\<lambda>n. b_Not (createSimplifyingExprBuilder B n) l)"
        "delivers (same_as (NotExpr r)) (\<lambda>n. b_Not (createSimplifyingExprBuilder B n) r)"
        using less.hyps [of l] less.hyps [of r] wf e by auto
      fix a b assume a: "same_as (NotExpr l) a" "same_as (NotExpr r) b"
      then have "same_as (NotExpr e) (BinaryExpr And a b)" using same_as_Not_Or less.prems e by auto
      moreover have "wf (BinaryExpr And a b)" using a wf by (auto simp: same_as_def)
      ultimately show "delivers (same_as (NotExpr e)) (\<lambda>n. b_Binary (createSimplifyingExprBuilder B n) And a b)"
        using simplifying_Binary_plain [of And a b]
        by (auto simp: div_ok_def is_div_def elim!: delivers_mono intro: same_as_trans)
    qed
    with e show ?thesis by (simp add: SimplifyingBuilder__Not_def)
  next
    case False
    then have "SimplifyingBuilder__Not T Base e = b_Not Base e" for T Base
      by (auto simp: SimplifyingBuilder__Not_def split: expr.splits bkind.splits)
    with base show ?thesis by simp
  qed
  then show ?case
    using less.prems
    by (intro delivers_Suc [where m = "\<lambda>n. b_Not (createSimplifyingExprBuilder B n) e"])
      (simp add: Not_delivers SimplifyingBuilder_def)
qed

lemma simplifying_cmp:
  assumes wf: "wf (BinaryExpr k l r)" and k: "k \<in> {Ne, Ugt, Uge, Sgt, Sge}"
  obtains m where "\<forall>n. SimplifyingBuilder__cmp (createSimplifyingExprBuilder B n) k l r = Some (m n)" "delivers (same_as (BinaryExpr k l r)) m"
proof -
  have flip: "delivers (same_as (BinaryExpr k l r)) (\<lambda>n. b_Binary (createSimplifyingExprBuilder B n) k' r l)"
    if "(k, k') \<in> {(Ugt, Ult), (Uge, Ule), (Sgt, Slt), (Sge, Sle)}" for k'
  proof (rule delivers_mono)
    show "delivers (same_as (BinaryExpr k' r l)) (\<lambda>n. b_Binary (createSimplifyingExprBuilder B n) k' r l)"
      using wf that by (intro simplifying_Binary_plain) (auto simp: div_ok_def is_div_def)
    show "same_as (BinaryExpr k l r) e" if "same_as (BinaryExpr k' r l) e" for e
      using same_as_flip [OF \<open>(k, k') \<in> _\<close> wf] that by (rule same_as_trans)
  qed
  have ne: "delivers (same_as (BinaryExpr Ne l r)) (\<lambda>n. b_Binary (createSimplifyingExprBuilder B n) Eq l r \<bind> b_Not (createSimplifyingExprBuilder B n))"
  proof (rule delivers_bind)
    show "delivers (same_as (BinaryExpr Eq l r)) (\<lambda>n. b_Binary (createSimplifyingExprBuilder B n) Eq l r)"
      using wf by (intro simplifying_Binary_plain) (auto simp: div_ok_def is_div_def)
    fix e assume e: "same_as (BinaryExpr Eq l r) e"
    then have "wf e" by (simp add: same_as_def)
    from simplifying_Not [OF this] same_as_Ne [OF _ e] wf
    show "delivers (same_as (BinaryExpr Ne l r)) (\<lambda>n. b_Not (createSimplifyingExprBuilder B n) e)"
      by (auto elim!: delivers_mono intro: same_as_trans)
  qed
  show thesis
  proof (cases "k = Ne")
    case True
    with ne show ?thesis by (intro that) (auto simp: SimplifyingBuilder__cmp_def)
  next
    case False
    with k obtain k' where k': "(k, k') \<in> {(Ugt, Ult), (Uge, Ule), (Sgt, Slt), (Sge, Sle)}" by auto
    show ?thesis by (rule that [OF _ flip [OF k']]) (use k' in \<open>auto simp: SimplifyingBuilder__cmp_def\<close>)
  qed
qed

lemma simplifying_Binary:
  assumes wf: "wf (BinaryExpr k l r)" and d: "div_ok k r"
  shows "delivers (same_as (BinaryExpr k l r)) (\<lambda>n. b_Binary (createSimplifyingExprBuilder B n) k l r)"
proof (cases "k \<in> {Ne, Ugt, Uge, Sgt, Sge}")
  case True
  obtain m where m: "\<forall>n. SimplifyingBuilder__cmp (createSimplifyingExprBuilder B n) k l r = Some (m n)" "delivers (same_as (BinaryExpr k l r)) m"
    by (rule simplifying_cmp [OF wf True])
  show ?thesis
    by (intro delivers_Suc [where m = "\<lambda>n. b_Binary (createSimplifyingExprBuilder B n) k l r"], simp only: createSimplifyingExprBuilder.simps,
        rule Binary_delivers [OF wf d]) (use m(2) in \<open>simp_all add: SimplifyingBuilder_cmp [OF spec [OF m(1)]]\<close>)
qed (use simplifying_Binary_plain [OF wf d] in simp)

lemma simplifying: "expr_builder (createSimplifyingExprBuilder B)"
proof (unfold_locales, goal_cases)
  case (10 k l r)
  then show ?case by (rule simplifying_Binary)
next
  case (9 e)
  then show ?case using simplifying_Not by simp
next
  case (3 root us i)
  have "delivers (same_as (ReadExpr root us i)) (\<lambda>n. b_Read (ConstantSpecializedExprBuilder (createSimplifyingExprBuilder B n)
      (SimplifyingBuilder (createSimplifyingExprBuilder B n) (B n))) root us i)"
    by (rule Read_delivers [OF _ simplifying_Binary 3]) (simp_all add: SimplifyingBuilder_def ChainedBuilder_def div_ok_def is_div_def)
  then show ?case
    by (intro delivers_Suc [where m = "\<lambda>n. b_Read (createSimplifyingExprBuilder B n) root us i"]) simp
qed (rule delivers_Suc, simp only: createSimplifyingExprBuilder.simps, rule chained_delivers,
    simp add: SimplifyingBuilder_def ChainedBuilder_def, assumption)+

end

interpretation simplifying: expr_builder
  "createSimplifyingExprBuilder (createConstantFoldingExprBuilder createDefaultExprBuilder)"
  by (rule folding.simplifying)

section \<open>Properties\<close>

lemma deliversE:
  assumes "delivers (same_as e0) m"
  obtains e n0 where "\<forall>n \<ge> n0. m n = Some e" "wf e" "getWidth e = getWidth e0" "\<forall>\<sigma>. den \<sigma> e = den \<sigma> e0"
  using assms by (auto simp: delivers_def same_as_def)

text \<open>
  (C9) Stacking builders does not change values: for every binary operation, the
  constant-folding builder and the simplifying builder on top of it return (their mutual
  calls end), and what they return is well formed and has the width and, on every
  assignment, the value of the node that the default builder allocates. Only a division by
  the constant zero is excluded.
\<close>

theorem builders_Binary_agree:
  assumes "wf l" "wf r" "getWidth l = getWidth r"
    and "is_div k \<Longrightarrow> \<forall>c. r = ConstantExpr c \<longrightarrow> getValue c \<noteq> 0"
  shows "\<exists>n0 e f. (\<forall>n \<ge> n0. b_Binary (createConstantFoldingExprBuilder createDefaultExprBuilder n) k l r = Some e
        \<and> b_Binary (createSimplifyingExprBuilder (createConstantFoldingExprBuilder createDefaultExprBuilder) n) k l r = Some f)
    \<and> wf e \<and> wf f \<and> getWidth e = result_width k (getWidth l) \<and> getWidth f = result_width k (getWidth l)
    \<and> (\<forall>\<sigma>. den \<sigma> e = bv_op k (getWidth l) (den \<sigma> l) (den \<sigma> r) \<and> den \<sigma> f = bv_op k (getWidth l) (den \<sigma> l) (den \<sigma> r))"
proof -
  have wf: "wf (BinaryExpr k l r)" "div_ok k r" using assms by (auto simp: div_ok_def)
  obtain e n1 where e: "\<forall>n \<ge> n1. b_Binary (createConstantFoldingExprBuilder createDefaultExprBuilder n) k l r = Some e"
      "wf e" "getWidth e = getWidth (BinaryExpr k l r)" "\<forall>\<sigma>. den \<sigma> e = den \<sigma> (BinaryExpr k l r)"
    by (rule deliversE [OF folding.Binary_law [OF wf]])
  obtain f n2 where f: "\<forall>n \<ge> n2. b_Binary (createSimplifyingExprBuilder (createConstantFoldingExprBuilder createDefaultExprBuilder) n) k l r = Some f"
      "wf f" "getWidth f = getWidth (BinaryExpr k l r)" "\<forall>\<sigma>. den \<sigma> f = den \<sigma> (BinaryExpr k l r)"
    by (rule deliversE [OF simplifying.Binary_law [OF wf]])
  show ?thesis
    by (intro exI [of _ "max n1 n2"] exI [of _ e] exI [of _ f]) (use e f in \<open>auto simp: result_width_def\<close>)
qed

theorem builders_Binary_agree_witness:
  "\<exists>n0 e f. (\<forall>n \<ge> n0. b_Binary (createConstantFoldingExprBuilder createDefaultExprBuilder n) Sub
        (BinaryExpr Add (ConstantExpr (APInt 8 3)) (ex_byte 0)) (BinaryExpr Sub (ex_byte 1) (ConstantExpr (APInt 8 5))) = Some e
      \<and> b_Binary (createSimplifyingExprBuilder (createConstantFoldingExprBuilder createDefaultExprBuilder) n) Sub
        (BinaryExpr Add (ConstantExpr (APInt 8 3)) (ex_byte 0)) (BinaryExpr Sub (ex_byte 1) (ConstantExpr (APInt 8 5))) = Some f)
    \<and> getWidth e = 8 \<and> (\<forall>\<sigma>. den \<sigma> e = den \<sigma> f)"
  using builders_Binary_agree [of "BinaryExpr Add (ConstantExpr (APInt 8 3)) (ex_byte 0)"
      "BinaryExpr Sub (ex_byte 1) (ConstantExpr (APInt 8 5))" Sub]
  by (fastforce simp: in_width_def is_div_def result_width_def)

text \<open>
  (C28) A read built by the simplifying builder, which skips the updates whose index it
  folds to a different one, has the value at the index after all updates of the list.
\<close>

theorem builders_Read_agree:
  assumes "wf (ReadExpr root us i)"
  shows "\<exists>n0 e. (\<forall>n \<ge> n0. b_Read (createSimplifyingExprBuilder (createConstantFoldingExprBuilder createDefaultExprBuilder) n) root us i = Some e)
    \<and> wf e \<and> getWidth e = arr_range root \<and> (\<forall>\<sigma>. den \<sigma> e = den_upd \<sigma> root us (den \<sigma> i))"
  by (rule deliversE [OF simplifying.Read_law [OF assms]]) auto

theorem builders_Read_agree_witness:
  "\<exists>n0 e. (\<forall>n \<ge> n0. b_Read (createSimplifyingExprBuilder (createConstantFoldingExprBuilder createDefaultExprBuilder) n) ex_array
        (UpdateNode (ConstantExpr (APInt 32 4)) (ConstantExpr (APInt 8 7)) NoUpdate) (ConstantExpr (APInt 32 3)) = Some e)
    \<and> (\<forall>\<sigma>. den \<sigma> e = \<sigma> ex_array 3 mod 256)"
proof -
  have "wf (ReadExpr ex_array (UpdateNode (ConstantExpr (APInt 32 4)) (ConstantExpr (APInt 8 7)) NoUpdate) (ConstantExpr (APInt 32 3)))"
    by (simp add: in_width_def)
  from builders_Read_agree [OF this] show ?thesis by (auto simp: init_val_def)
qed



end
