(* ===== verification/Searchers.thy ===== *)
theory Searchers
  imports Prelude
begin

text \<open>
  The state schedulers of \<open>lib/Core/Searcher.cpp\<close> that do not look at the process
  tree: depth-first, breadth-first and random search, and the searchers that wrap another
  one (batching, iterative deepening, merging, interleaving, splitting).

  An \<open>ExecutionState\<close> is its address; whether it is a simulation state is read through
  the function \<open>sim\<close>. Wall-clock times and spans are nanoseconds, and the time, the
  instruction count and the random words that a call reads are its arguments. \<open>None\<close> is
  a failed assertion or an access outside a container.

  The locale \<open>searcher\<close> is the interface the executor relies on; every wrapper is
  verified once against it.
\<close>

type_synonym es = nat

section \<open>Depth-first search\<close>

definition DFSSearcher__selectState :: "es list \<Rightarrow> es option" where
  "DFSSearcher__selectState states = (if states = [] then None else Some (last states))"

fun DFSSearcher__remove :: "(es \<Rightarrow> bool) \<Rightarrow> es list \<Rightarrow> es list \<Rightarrow> es list option" where
  "DFSSearcher__remove sim [] states = Some states"
| "DFSSearcher__remove sim (state # removed) states =
     (if sim state then DFSSearcher__remove sim removed states
      else if states = [] then None
      else if state = last states then DFSSearcher__remove sim removed (butlast states)
      else if state \<in> set states then DFSSearcher__remove sim removed (remove1 state states)
      else None)"

definition DFSSearcher__update ::
  "(es \<Rightarrow> bool) \<Rightarrow> es option \<Rightarrow> es list \<Rightarrow> es list \<Rightarrow> es list \<Rightarrow> es list option" where
  "DFSSearcher__update sim current addedStates removedStates states =
     DFSSearcher__remove sim removedStates (states @ addedStates)"

definition DFSSearcher__empty :: "es list \<Rightarrow> bool" where
  "DFSSearcher__empty states \<longleftrightarrow> states = []"

section \<open>Breadth-first search\<close>

definition BFSSearcher__selectState :: "es list \<Rightarrow> es option" where
  "BFSSearcher__selectState states = (if states = [] then None else Some (hd states))"

fun BFSSearcher__remove :: "es list \<Rightarrow> es list \<Rightarrow> es list option" where
  "BFSSearcher__remove [] states = Some states"
| "BFSSearcher__remove (state # removed) states =
     (if states = [] then None
      else if state = hd states then BFSSearcher__remove removed (tl states)
      else if state \<in> set states then BFSSearcher__remove removed (remove1 state states)
      else None)"

definition BFSSearcher__update ::
  "es option \<Rightarrow> es list \<Rightarrow> es list \<Rightarrow> es list \<Rightarrow> es list option" where
  "BFSSearcher__update current addedStates removedStates states = do {
     states \<leftarrow>
       (case current of
          Some c \<Rightarrow>
            if addedStates \<noteq> [] \<and> c \<notin> set removedStates then do {
              assert_that (c \<in> set states);
              Some (remove1 c states @ [c])
            }
            else Some states
        | None \<Rightarrow> Some states);
     BFSSearcher__remove removedStates (states @ addedStates)
   }"

definition BFSSearcher__empty :: "es list \<Rightarrow> bool" where
  "BFSSearcher__empty states \<longleftrightarrow> states = []"

section \<open>Random search\<close>

text \<open>\<open>r\<close> is the word that \<open>theRNG.getInt32()\<close> returns.\<close>

definition RandomSearcher__selectState :: "32 word \<Rightarrow> es list \<Rightarrow> es option" where
  "RandomSearcher__selectState r states =
     (if states = [] then None else Some (states ! (unat r mod length states)))"

fun RandomSearcher__remove :: "(es \<Rightarrow> bool) \<Rightarrow> es list \<Rightarrow> es list \<Rightarrow> es list option" where
  "RandomSearcher__remove sim [] states = Some states"
| "RandomSearcher__remove sim (state # removed) states =
     (if state \<in> set states \<and> sim state then RandomSearcher__remove sim removed states
      else if state \<in> set states then RandomSearcher__remove sim removed (remove1 state states)
      else None)"

definition RandomSearcher__update ::
  "(es \<Rightarrow> bool) \<Rightarrow> es option \<Rightarrow> es list \<Rightarrow> es list \<Rightarrow> es list \<Rightarrow> es list option" where
  "RandomSearcher__update sim current addedStates removedStates states =
     RandomSearcher__remove sim removedStates (states @ addedStates)"

definition RandomSearcher__empty :: "es list \<Rightarrow> bool" where
  "RandomSearcher__empty states \<longleftrightarrow> states = []"

section \<open>The searcher a user asks for\<close>

text \<open>
  Virtual calls on the result of \<open>getNewSearcher\<close>, for the three types above. Each
  call gets the word that it may draw from the generator.
\<close>

datatype core_searcher =
    DFSSearcher "es list" | BFSSearcher "es list" | RandomSearcher "es list"

datatype coreSearchType = DFS | BFS | RandomState

fun getNewSearcher :: "coreSearchType \<Rightarrow> core_searcher" where
  "getNewSearcher DFS = DFSSearcher []"
| "getNewSearcher BFS = BFSSearcher []"
| "getNewSearcher RandomState = RandomSearcher []"

fun selectState :: "32 word \<Rightarrow> core_searcher \<Rightarrow> (es \<times> core_searcher) option" where
  "selectState r (DFSSearcher states) =
     map_option (\<lambda>x. (x, DFSSearcher states)) (DFSSearcher__selectState states)"
| "selectState r (BFSSearcher states) =
     map_option (\<lambda>x. (x, BFSSearcher states)) (BFSSearcher__selectState states)"
| "selectState r (RandomSearcher states) =
     map_option (\<lambda>x. (x, RandomSearcher states)) (RandomSearcher__selectState r states)"

fun update ::
  "(es \<Rightarrow> bool) \<Rightarrow> es option \<Rightarrow> es list \<Rightarrow> es list \<Rightarrow> core_searcher \<Rightarrow> core_searcher option" where
  "update sim current addedStates removedStates (DFSSearcher states) =
     map_option DFSSearcher (DFSSearcher__update sim current addedStates removedStates states)"
| "update sim current addedStates removedStates (BFSSearcher states) =
     map_option BFSSearcher (BFSSearcher__update current addedStates removedStates states)"
| "update sim current addedStates removedStates (RandomSearcher states) =
     map_option RandomSearcher (RandomSearcher__update sim current addedStates removedStates states)"

fun is_empty :: "core_searcher \<Rightarrow> bool" where
  "is_empty (DFSSearcher states) = DFSSearcher__empty states"
| "is_empty (BFSSearcher states) = BFSSearcher__empty states"
| "is_empty (RandomSearcher states) = RandomSearcher__empty states"

section \<open>Batching\<close>

text \<open>
  What a selection of the batching searcher reads: the clock, three times in this order,
  the instruction counter (64 bits), and the environment of the base searcher.
\<close>

record 'r batching_env =
  base_env :: 'r
  wallTime1 :: int
  wallTime2 :: int
  wallTime3 :: int
  instructions :: "64 word"

record 's batching =
  baseSearcher :: 's
  timeBudgetEnabled :: bool
  timeBudget :: int
  instructionBudgetEnabled :: bool
  instructionBudget :: "32 word"
  lastState :: "es option"
  lastStartTime :: int
  lastStartInstructions :: "32 word"

definition BatchingSearcher__BatchingSearcher :: "'s \<Rightarrow> int \<Rightarrow> 32 word \<Rightarrow> 's batching" where
  "BatchingSearcher__BatchingSearcher base tb ib =
     \<lparr>baseSearcher = base, timeBudgetEnabled = (tb \<noteq> 0), timeBudget = tb,
      instructionBudgetEnabled = (ib > 0), instructionBudget = ib, lastState = None,
      lastStartTime = 0, lastStartInstructions = 0\<rparr>"

definition withinTimeBudget :: "int \<Rightarrow> 's batching \<Rightarrow> bool" where
  "withinTimeBudget now b \<longleftrightarrow> \<not> timeBudgetEnabled b \<or> now - lastStartTime b \<le> timeBudget b"

text \<open>
  The counter has 64 bits; \<open>lastStartInstructions\<close> is an \<open>unsigned\<close> and is widened for
  the subtraction.
\<close>

definition withinInstructionBudget :: "64 word \<Rightarrow> 's batching \<Rightarrow> bool" where
  "withinInstructionBudget instr b \<longleftrightarrow>
     \<not> instructionBudgetEnabled b \<or> instr - ucast (lastStartInstructions b) \<le> ucast (instructionBudget b)"

text \<open>\<open>t *= 1.1\<close> on a span goes through whole microseconds.\<close>

definition span_times_1_1 :: "int \<Rightarrow> int" where
  "span_times_1_1 t = 1000 * ((t div 1000) * 11 div 10)"

definition BatchingSearcher__selectState ::
  "('r \<Rightarrow> 's \<Rightarrow> (es \<times> 's) option) \<Rightarrow> 'r batching_env \<Rightarrow> 's batching \<Rightarrow> (es \<times> 's batching) option" where
  "BatchingSearcher__selectState base_select env b =
     (if lastState b \<noteq> None \<and> withinTimeBudget (wallTime1 env) b
         \<and> withinInstructionBudget (instructions env) b
      then Some (the (lastState b), b)
      else
        let b = (if lastState b \<noteq> None \<and> timeBudgetEnabled b then
                   let delta = wallTime2 env - lastStartTime b;
                       t = span_times_1_1 (timeBudget b)
                   in if delta > t then b\<lparr>timeBudget := delta\<rparr> else b
                 else b)
        in do {
          (x, s) \<leftarrow> base_select (base_env env) (baseSearcher b);
          let b = b\<lparr>baseSearcher := s, lastState := Some x\<rparr>;
          let b = (if timeBudgetEnabled b then b\<lparr>lastStartTime := wallTime3 env\<rparr> else b);
          let b = (if instructionBudgetEnabled b
                   then b\<lparr>lastStartInstructions := ucast (instructions env)\<rparr> else b);
          Some (x, b)
        })"

definition BatchingSearcher__update ::
  "(es option \<Rightarrow> es list \<Rightarrow> es list \<Rightarrow> 's \<Rightarrow> 's option)
   \<Rightarrow> es option \<Rightarrow> es list \<Rightarrow> es list \<Rightarrow> 's batching \<Rightarrow> 's batching option" where
  "BatchingSearcher__update base_update current addedStates removedStates b =
     (let b = (case lastState b of
                 Some x \<Rightarrow> if x \<in> set removedStates then b\<lparr>lastState := None\<rparr> else b
               | None \<Rightarrow> b)
      in do {
        s \<leftarrow> base_update current addedStates removedStates (baseSearcher b);
        Some (b\<lparr>baseSearcher := s\<rparr>)
      })"

definition BatchingSearcher__empty :: "('s \<Rightarrow> bool) \<Rightarrow> 's batching \<Rightarrow> bool" where
  "BatchingSearcher__empty base_empty b = base_empty (baseSearcher b)"

section \<open>Iterative deepening\<close>

text \<open>The paused states are a set ordered by address.\<close>

record 's iterative =
  id_baseSearcher :: 's
  startTime :: int
  id_time :: int
  pausedStates :: "es set"

definition IterativeDeepeningTimeSearcher__selectState ::
  "('r \<Rightarrow> 's \<Rightarrow> (es \<times> 's) option) \<Rightarrow> 'r \<times> int \<Rightarrow> 's iterative \<Rightarrow> (es \<times> 's iterative) option" where
  "IterativeDeepeningTimeSearcher__selectState base_select env i = do {
     (res, s) \<leftarrow> base_select (fst env) (id_baseSearcher i);
     Some (res, i\<lparr>id_baseSearcher := s, startTime := snd env\<rparr>)
   }"

text \<open>The loop that takes paused states out of the removed ones.\<close>

fun filter_paused :: "es list \<Rightarrow> es set \<Rightarrow> es list \<Rightarrow> es set \<times> es list" where
  "filter_paused [] paused alt = (paused, alt)"
| "filter_paused (state # removed) paused alt =
     (if state \<in> paused
      then filter_paused removed (paused - {state}) (filter (\<lambda>x. x \<noteq> state) alt)
      else filter_paused removed paused alt)"

definition IterativeDeepeningTimeSearcher__update ::
  "(es option \<Rightarrow> es list \<Rightarrow> es list \<Rightarrow> 's \<Rightarrow> 's option) \<Rightarrow> ('s \<Rightarrow> bool)
   \<Rightarrow> int \<Rightarrow> es option \<Rightarrow> es list \<Rightarrow> es list \<Rightarrow> 's iterative \<Rightarrow> 's iterative option" where
  "IterativeDeepeningTimeSearcher__update base_update base_empty now current addedStates removedStates i =
     (let elapsed = now - startTime i;
          (paused, alt) = filter_paused removedStates (pausedStates i) removedStates
      in do {
        s \<leftarrow> base_update current addedStates alt (id_baseSearcher i);
        (s, paused) \<leftarrow>
          (case current of
             Some c \<Rightarrow>
               if c \<notin> set removedStates \<and> elapsed > id_time i then do {
                 s \<leftarrow> base_update None [] [c] s;
                 Some (s, insert c paused)
               }
               else Some (s, paused)
           | None \<Rightarrow> Some (s, paused));
        if base_empty s then do {
          s \<leftarrow> base_update None (sorted_list_of_set paused) [] s;
          Some (i\<lparr>id_baseSearcher := s, id_time := id_time i * 2, pausedStates := {}\<rparr>)
        }
        else Some (i\<lparr>id_baseSearcher := s, pausedStates := paused\<rparr>)
      })"

definition IterativeDeepeningTimeSearcher__empty :: "('s \<Rightarrow> bool) \<Rightarrow> 's iterative \<Rightarrow> bool" where
  "IterativeDeepeningTimeSearcher__empty base_empty i \<longleftrightarrow>
     base_empty (id_baseSearcher i) \<and> pausedStates i = {}"

section \<open>Interleaving\<close>

record 's interleaved =
  searchers :: "'s list"
  index :: nat

definition InterleavedSearcher__InterleavedSearcher :: "'s list \<Rightarrow> 's interleaved" where
  "InterleavedSearcher__InterleavedSearcher ss = \<lparr>searchers = ss, index = 1\<rparr>"

definition InterleavedSearcher__selectState ::
  "('r \<Rightarrow> 's \<Rightarrow> (es \<times> 's) option) \<Rightarrow> 'r \<Rightarrow> 's interleaved \<Rightarrow> (es \<times> 's interleaved) option" where
  "InterleavedSearcher__selectState base_select r i = do {
     assert_that (0 < index i \<and> index i \<le> length (searchers i));
     let k = index i - 1;
     let new_index = (if k = 0 then length (searchers i) else k);
     (x, s) \<leftarrow> base_select r (searchers i ! k);
     Some (x, i\<lparr>searchers := (searchers i)[k := s], index := new_index\<rparr>)
   }"

fun update_all ::
  "(es option \<Rightarrow> es list \<Rightarrow> es list \<Rightarrow> 's \<Rightarrow> 's option)
   \<Rightarrow> es option \<Rightarrow> es list \<Rightarrow> es list \<Rightarrow> 's list \<Rightarrow> 's list option" where
  "update_all base_update current addedStates removedStates [] = Some []"
| "update_all base_update current addedStates removedStates (s # ss) = do {
     s \<leftarrow> base_update current addedStates removedStates s;
     ss \<leftarrow> update_all base_update current addedStates removedStates ss;
     Some (s # ss)
   }"

definition InterleavedSearcher__update ::
  "(es option \<Rightarrow> es list \<Rightarrow> es list \<Rightarrow> 's \<Rightarrow> 's option)
   \<Rightarrow> es option \<Rightarrow> es list \<Rightarrow> es list \<Rightarrow> 's interleaved \<Rightarrow> 's interleaved option" where
  "InterleavedSearcher__update base_update current addedStates removedStates i = do {
     ss \<leftarrow> update_all base_update current addedStates removedStates (searchers i);
     Some (i\<lparr>searchers := ss\<rparr>)
   }"

definition InterleavedSearcher__empty :: "('s \<Rightarrow> bool) \<Rightarrow> 's interleaved \<Rightarrow> bool" where
  "InterleavedSearcher__empty base_empty i = base_empty (searchers i ! 0)"

section \<open>Splitting\<close>

record ('s, 't) splitted =
  mctsSearcher :: 's
  simulationSearcher :: 't

text \<open>\<open>is_simulation_mode\<close> is a global flag of the executor.\<close>

definition SplittedSearcher__selectState ::
  "('r \<Rightarrow> 's \<Rightarrow> (es \<times> 's) option) \<Rightarrow> ('q \<Rightarrow> 't \<Rightarrow> (es \<times> 't) option)
   \<Rightarrow> bool \<Rightarrow> 'r \<Rightarrow> 'q \<Rightarrow> ('s, 't) splitted \<Rightarrow> (es \<times> ('s, 't) splitted) option" where
  "SplittedSearcher__selectState mcts_select simulation_select is_simulation_mode r q p =
     (if \<not> is_simulation_mode then do {
        (x, s) \<leftarrow> mcts_select r (mctsSearcher p);
        Some (x, p\<lparr>mctsSearcher := s\<rparr>)
      }
      else do {
        (x, t) \<leftarrow> simulation_select q (simulationSearcher p);
        Some (x, p\<lparr>simulationSearcher := t\<rparr>)
      })"

definition SplittedSearcher__update ::
  "(es \<Rightarrow> bool) \<Rightarrow> (es option \<Rightarrow> es list \<Rightarrow> es list \<Rightarrow> 's \<Rightarrow> 's option)
   \<Rightarrow> (es option \<Rightarrow> es list \<Rightarrow> es list \<Rightarrow> 't \<Rightarrow> 't option)
   \<Rightarrow> es option \<Rightarrow> es list \<Rightarrow> es list \<Rightarrow> ('s, 't) splitted \<Rightarrow> ('s, 't) splitted option" where
  "SplittedSearcher__update sim mcts_update simulation_update current addedStates removedStates p =
     (let addedSimulationStates = filter sim addedStates;
          addedOriginatingStates = filter (\<lambda>x. \<not> sim x) addedStates;
          removedSimulationStates = filter sim removedStates;
          removedOriginatingStates = filter (\<lambda>x. \<not> sim x) removedStates
      in do {
        s \<leftarrow> mcts_update (case current of Some c \<Rightarrow> if sim c then None else Some c | None \<Rightarrow> None)
               addedOriginatingStates removedOriginatingStates (mctsSearcher p);
        t \<leftarrow> simulation_update (case current of Some c \<Rightarrow> if \<not> sim c then None else Some c | None \<Rightarrow> None)
               addedSimulationStates removedSimulationStates (simulationSearcher p);
        Some \<lparr>mctsSearcher = s, simulationSearcher = t\<rparr>
      })"

definition SplittedSearcher__empty :: "('s \<Rightarrow> bool) \<Rightarrow> ('t \<Rightarrow> bool) \<Rightarrow> ('s, 't) splitted \<Rightarrow> bool" where
  "SplittedSearcher__empty mcts_empty simulation_empty p \<longleftrightarrow>
     mcts_empty (mctsSearcher p) \<and> simulation_empty (simulationSearcher p)"

section \<open>The interface\<close>

text \<open>
  What the executor promises when it reports a step: new states are new, removed states were
  there, and the current state is one that could be selected.
\<close>

definition valid_update :: "es set \<Rightarrow> es set \<Rightarrow> es option \<Rightarrow> es list \<Rightarrow> es list \<Rightarrow> bool" where
  "valid_update cont act current added removed \<longleftrightarrow>
     distinct added \<and> distinct removed \<and> set added \<inter> cont = {} \<and> set removed \<subseteq> cont \<union> set added
     \<and> (\<forall>c. current = Some c \<longrightarrow> c \<in> act)"

text \<open>
  \<open>content\<close> are the states a searcher holds, \<open>active\<close> those it may select next,
  \<open>inv\<close> its invariant, \<open>removable\<close> the states whose removal it honours. \<open>'r\<close> and
  \<open>'u\<close> are what a selection and an update read from outside (random words, the clock,
  the instruction counter).
\<close>

locale searcher =
  fixes select :: "'r \<Rightarrow> 's \<Rightarrow> (es \<times> 's) option"
    and upd :: "'u \<Rightarrow> es option \<Rightarrow> es list \<Rightarrow> es list \<Rightarrow> 's \<Rightarrow> 's option"
    and emp :: "'s \<Rightarrow> bool"
    and content :: "'s \<Rightarrow> es set"
    and active :: "'s \<Rightarrow> es set"
    and inv :: "'s \<Rightarrow> bool"
    and removable :: "es \<Rightarrow> bool"
  assumes empty_iff: "inv s \<Longrightarrow> emp s \<longleftrightarrow> content s = {}"
    and active_content: "inv s \<Longrightarrow> active s \<subseteq> content s"
    and select_ok: "inv s \<Longrightarrow> content s \<noteq> {} \<Longrightarrow>
          \<exists>x s'. select r s = Some (x, s') \<and> x \<in> active s \<and> content s' = content s \<and> active s' = active s \<and> inv s'"
    and update_ok: "inv s \<Longrightarrow> valid_update (content s) (active s) current added removed \<Longrightarrow>
          \<forall>x \<in> set removed \<union> set_option current. removable x \<Longrightarrow>
          \<exists>s'. upd u current added removed s = Some s' \<and> inv s' \<and> content s' = (content s \<union> set added) - set removed"

text \<open>A searcher that may select any state it holds.\<close>

locale stable_searcher = searcher +
  assumes active_all: "inv s \<Longrightarrow> active s = content s"

subsection \<open>The core searchers implement it\<close>

fun states_of :: "core_searcher \<Rightarrow> es list" where
  "states_of (DFSSearcher states) = states"
| "states_of (BFSSearcher states) = states"
| "states_of (RandomSearcher states) = states"

text \<open>\<open>removes xs rs res\<close>: \<open>res\<close> is \<open>xs\<close> without the elements \<open>rs\<close>.\<close>

definition removes :: "es list \<Rightarrow> es list \<Rightarrow> es list option \<Rightarrow> bool" where
  "removes xs rs res \<longleftrightarrow> (distinct xs \<longrightarrow> distinct rs \<longrightarrow> set rs \<subseteq> set xs \<longrightarrow>
     (\<exists>ys. res = Some ys \<and> distinct ys \<and> set ys = set xs - set rs))"

lemma removes_Nil [simp]: "removes xs [] (Some xs)"
  by (simp add: removes_def)

lemma removes_None: "x \<notin> set xs \<Longrightarrow> removes xs (x # rs) None"
  by (simp add: removes_def)

lemma distinct_butlast_last: "xs \<noteq> [] \<Longrightarrow> distinct xs \<Longrightarrow> set (butlast xs) = set xs - {last xs}"
  by (induction xs rule: rev_induct) auto

lemma distinct_tl_hd: "xs \<noteq> [] \<Longrightarrow> distinct xs \<Longrightarrow> set (tl xs) = set xs - {hd xs}"
  by (cases xs) auto

lemma removes_step:
  assumes r: "removes xs' rs res" and xs': "distinct xs \<Longrightarrow> distinct xs' \<and> set xs' = set xs - {x}"
  shows "removes xs (x # rs) res"
  unfolding removes_def
proof (intro impI)
  assume a: "distinct xs" "distinct (x # rs)" "set (x # rs) \<subseteq> set xs"
  with xs' r obtain ys where "res = Some ys" "distinct ys" "set ys = set xs' - set rs"
    unfolding removes_def by auto
  with xs' a show "\<exists>ys. res = Some ys \<and> distinct ys \<and> set ys = set xs - set (x # rs)"
    by auto
qed

lemma removes_steps:
  "removes (remove1 x xs) rs res \<Longrightarrow> x \<in> set xs \<Longrightarrow> removes xs (x # rs) res"
  "removes (butlast xs) rs res \<Longrightarrow> xs \<noteq> [] \<Longrightarrow> removes xs (last xs # rs) res"
  "removes (tl xs) rs res \<Longrightarrow> xs \<noteq> [] \<Longrightarrow> removes xs (hd xs # rs) res"
  by (erule removes_step, simp add: distinct_butlast_last distinct_butlast distinct_tl_hd distinct_tl)+

lemma DFSSearcher__remove_ok:
  "\<forall>x \<in> set removed. \<not> sim x \<Longrightarrow> removes states removed (DFSSearcher__remove sim removed states)"
  by (induction removed arbitrary: states) (auto intro: removes_None removes_steps)

lemma BFSSearcher__remove_ok: "removes states removed (BFSSearcher__remove removed states)"
  by (induction removed arbitrary: states) (auto intro: removes_None removes_steps)

lemma RandomSearcher__remove_ok:
  "\<forall>x \<in> set removed. \<not> sim x \<Longrightarrow> removes states removed (RandomSearcher__remove sim removed states)"
  by (induction removed arbitrary: states) (auto intro: removes_None removes_steps)

lemma removesD:
  assumes "removes (states @ added) removed res" "distinct states"
    "valid_update (set states) act current added removed"
  shows "\<exists>ys. res = Some ys \<and> distinct ys \<and> set ys = (set states \<union> set added) - set removed"
  using assms by (auto simp: removes_def valid_update_def)

lemma BFSSearcher__update_ok:
  assumes "distinct states" "valid_update (set states) (set states) current added removed"
  shows "\<exists>ys. BFSSearcher__update current added removed states = Some ys \<and> distinct ys
    \<and> set ys = (set states \<union> set added) - set removed"
proof -
  let ?st = "case current of Some c \<Rightarrow>
      if added \<noteq> [] \<and> c \<notin> set removed then remove1 c states @ [c] else states | None \<Rightarrow> states"
  have c: "c \<in> set states" if "current = Some c" for c using assms(2) that by (auto simp: valid_update_def)
  then have st: "set ?st = set states" "distinct ?st" using assms(1) by (auto split: option.splits)
  have "BFSSearcher__update current added removed states = BFSSearcher__remove removed (?st @ added)"
    using c by (auto simp: BFSSearcher__update_def split: option.splits)
  moreover have "valid_update (set ?st) (set states) current added removed" unfolding st(1) by (rule assms(2))
  from removesD [OF BFSSearcher__remove_ok st(2) this] have "\<exists>ys. BFSSearcher__remove removed (?st @ added) = Some ys
      \<and> distinct ys \<and> set ys = (set states \<union> set added) - set removed" unfolding st(1) .
  ultimately show ?thesis by (simp only:)
qed

interpretation core: stable_searcher selectState "\<lambda>u :: unit. update sim" is_empty
  "\<lambda>s. set (states_of s)" "\<lambda>s. set (states_of s)" "\<lambda>s. distinct (states_of s)" "\<lambda>x. \<not> sim x" for sim
proof (unfold_locales, goal_cases)
  case (1 s)
  then show ?case
    by (cases s) (auto simp: DFSSearcher__empty_def BFSSearcher__empty_def RandomSearcher__empty_def)
next
  case (3 s r)
  then show ?case
    by (cases s) (auto simp: DFSSearcher__selectState_def BFSSearcher__selectState_def RandomSearcher__selectState_def)
next
  case (4 s current added removed u)
  then have ns: "\<forall>x \<in> set removed. \<not> sim x" by simp
  show ?case
  proof (cases s)
    case (DFSSearcher states)
    with 4(1,2) have d: "distinct states" and v: "valid_update (set states) (set states) current added removed" by simp_all
    obtain ys where "DFSSearcher__remove sim removed (states @ added) = Some ys" "distinct ys"
        "set ys = (set states \<union> set added) - set removed"
      using removesD [OF DFSSearcher__remove_ok [OF ns] d v] by blast
    with DFSSearcher show ?thesis by (simp add: DFSSearcher__update_def)
  next
    case (BFSSearcher states)
    with 4(1,2) have d: "distinct states" and v: "valid_update (set states) (set states) current added removed" by simp_all
    obtain ys where "BFSSearcher__update current added removed states = Some ys" "distinct ys"
        "set ys = (set states \<union> set added) - set removed"
      using BFSSearcher__update_ok [OF d v] by blast
    with BFSSearcher show ?thesis by simp
  next
    case (RandomSearcher states)
    with 4(1,2) have d: "distinct states" and v: "valid_update (set states) (set states) current added removed" by simp_all
    obtain ys where "RandomSearcher__remove sim removed (states @ added) = Some ys" "distinct ys"
        "set ys = (set states \<union> set added) - set removed"
      using removesD [OF RandomSearcher__remove_ok [OF ns] d v] by blast
    with RandomSearcher show ?thesis by (simp add: RandomSearcher__update_def)
  qed
qed simp_all

section \<open>The wrappers implement it\<close>

definition batching_inv :: "('s \<Rightarrow> bool) \<Rightarrow> ('s \<Rightarrow> es set) \<Rightarrow> 's batching \<Rightarrow> bool" where
  "batching_inv ok cont b \<longleftrightarrow> ok (baseSearcher b) \<and> (\<forall>x. lastState b = Some x \<longrightarrow> x \<in> cont (baseSearcher b))"

definition interleaved_inv :: "('s \<Rightarrow> bool) \<Rightarrow> ('s \<Rightarrow> es set) \<Rightarrow> 's interleaved \<Rightarrow> bool" where
  "interleaved_inv ok cont i \<longleftrightarrow> 0 < index i \<and> index i \<le> length (searchers i)
     \<and> (\<exists>c. \<forall>s \<in> set (searchers i). ok s \<and> cont s = c)"

definition iterative_inv :: "('s \<Rightarrow> bool) \<Rightarrow> ('s \<Rightarrow> es set) \<Rightarrow> (es \<Rightarrow> bool) \<Rightarrow> 's iterative \<Rightarrow> bool" where
  "iterative_inv ok cont rem i \<longleftrightarrow> ok (id_baseSearcher i) \<and> finite (pausedStates i)
     \<and> pausedStates i \<inter> cont (id_baseSearcher i) = {}
     \<and> (cont (id_baseSearcher i) = {} \<longrightarrow> pausedStates i = {}) \<and> (\<forall>x \<in> pausedStates i. rem x)"

lemma filter_paused_eq:
  "filter_paused removed paused alt = (paused - set removed, filter (\<lambda>x. x \<notin> paused \<or> x \<notin> set removed) alt)"
proof (induction removed arbitrary: paused alt)
  case (Cons x removed)
  then show ?case by (auto intro!: filter_cong)
qed simp

context stable_searcher
begin

lemma select_stable:
  assumes "inv s" "content s \<noteq> {}"
  obtains x s' where "select r s = Some (x, s')" "x \<in> content s" "content s' = content s" "inv s'"
  using select_ok [OF assms, of r] active_all [OF assms(1)] by auto

lemma update_stable:
  assumes "inv s" "valid_update (content s) (content s) current added removed" "\<forall>x \<in> set removed \<union> set_option current. removable x"
  obtains s' where "upd u current added removed s = Some s'" "inv s'" "content s' = (content s \<union> set added) - set removed"
  using update_ok [OF assms(1) _ assms(3), of added u] assms(2) active_all [OF assms(1)] by auto

lemma batching:
  "stable_searcher (BatchingSearcher__selectState select) (\<lambda>u. BatchingSearcher__update (upd u))
     (BatchingSearcher__empty emp) (\<lambda>b. content (baseSearcher b)) (\<lambda>b. content (baseSearcher b)) (batching_inv inv content) removable"
proof (unfold_locales, goal_cases)
  case (1 b)
  then show ?case by (simp add: BatchingSearcher__empty_def batching_inv_def empty_iff)
next
  case (3 b r)
  then have i: "inv (baseSearcher b)" by (simp add: batching_inv_def)
  obtain x s' where s: "select (base_env r) (baseSearcher b) = Some (x, s')" "x \<in> content (baseSearcher b)"
      "content s' = content (baseSearcher b)" "inv s'"
    by (rule select_stable [OF i 3(2)])
  have "(let delta = wallTime2 r - lastStartTime b; t = span_times_1_1 (timeBudget b)
        in if delta > t then b\<lparr>timeBudget := delta\<rparr> else b) \<in> {b, b\<lparr>timeBudget := wallTime2 r - lastStartTime b\<rparr>}"
    by (simp add: Let_def)
  with 3 s show ?case
    by (auto simp: BatchingSearcher__selectState_def batching_inv_def Let_def)
next
  case (4 b current added removed u)
  then have i: "inv (baseSearcher b)" by (simp add: batching_inv_def)
  obtain s' where s: "upd u current added removed (baseSearcher b) = Some s'" "inv s'"
      "content s' = (content (baseSearcher b) \<union> set added) - set removed"
    by (rule update_stable [OF i 4(2,3)])
  with 4(1) show ?case
    by (auto simp: BatchingSearcher__update_def batching_inv_def Let_def split: option.splits)
qed simp_all

lemma update_all_ok:
  assumes "valid_update c c current added removed" "\<forall>x \<in> set removed \<union> set_option current. removable x"
  shows "\<forall>s \<in> set ss. inv s \<and> content s = c \<Longrightarrow>
    \<exists>ss'. update_all (upd u) current added removed ss = Some ss' \<and> length ss' = length ss
      \<and> (\<forall>s \<in> set ss'. inv s \<and> content s = (c \<union> set added) - set removed)"
proof (induction ss)
  case (Cons s ss)
  then have s: "inv s" "valid_update (content s) (content s) current added removed" using assms(1) by auto
  obtain s' where "upd u current added removed s = Some s'" "inv s'" "content s' = (content s \<union> set added) - set removed"
    by (rule update_stable [OF s assms(2)])
  with Cons show ?case by auto
qed simp

lemma interleaved_invD:
  assumes "interleaved_inv inv content i"
  shows "0 < index i" "index i \<le> length (searchers i)" "searchers i ! 0 \<in> set (searchers i)"
    "s \<in> set (searchers i) \<Longrightarrow> inv s" "s \<in> set (searchers i) \<Longrightarrow> content s = content (searchers i ! 0)"
proof -
  show z: "searchers i ! 0 \<in> set (searchers i)" using assms by (intro nth_mem) (auto simp: interleaved_inv_def)
  show "0 < index i" "index i \<le> length (searchers i)" "s \<in> set (searchers i) \<Longrightarrow> inv s"
    "s \<in> set (searchers i) \<Longrightarrow> content s = content (searchers i ! 0)"
    using assms z by (auto simp: interleaved_inv_def)
qed

lemma interleaved_invI:
  assumes "0 < index i" "index i \<le> length (searchers i)" "\<And>s. s \<in> set (searchers i) \<Longrightarrow> inv s \<and> content s = c"
  shows "interleaved_inv inv content i"
  using assms by (auto simp: interleaved_inv_def)

lemma interleaved:
  "stable_searcher (InterleavedSearcher__selectState select) (\<lambda>u. InterleavedSearcher__update (upd u))
     (InterleavedSearcher__empty emp) (\<lambda>i. content (searchers i ! 0)) (\<lambda>i. content (searchers i ! 0))
     (interleaved_inv inv content) removable"
proof (unfold_locales, goal_cases)
  case (1 i)
  from empty_iff [OF interleaved_invD(4) [OF 1 interleaved_invD(3) [OF 1]]] show ?case
    by (simp add: InterleavedSearcher__empty_def)
next
  case (3 i r)
  let ?k = "index i - 1" and ?c = "content (searchers i ! 0)"
  note d = interleaved_invD [OF 3(1)]
  have k: "0 < index i" "index i \<le> length (searchers i)" "?k < length (searchers i)"
    using d(1,2) by auto
  then have "searchers i ! ?k \<in> set (searchers i)" by (intro nth_mem)
  then have s: "inv (searchers i ! ?k)" "content (searchers i ! ?k) = ?c" by (rule d(4), rule d(5))
  have ne: "content (searchers i ! ?k) \<noteq> {}" using s 3(2) by simp
  obtain x s' where x: "select r (searchers i ! ?k) = Some (x, s')" "x \<in> content (searchers i ! ?k)"
      "content s' = content (searchers i ! ?k)" "inv s'"
    by (rule select_stable [OF s(1) ne])
  have c0: "content ((searchers i)[?k := s'] ! 0) = ?c"
    using x s k by (cases "?k = 0") auto
  have all: "inv t \<and> content t = ?c" if t: "t \<in> set ((searchers i)[?k := s'])" for t
  proof (cases "t = s'")
    case True
    with x s show ?thesis by simp
  next
    case False
    with t have "t \<in> set (searchers i)" using set_update_subset_insert [of "searchers i" ?k s'] by blast
    with d(4,5) show ?thesis by blast
  qed
  have "interleaved_inv inv content (i\<lparr>searchers := (searchers i)[?k := s'], index := if ?k = 0 then length (searchers i) else ?k\<rparr>)"
    using k all by (intro interleaved_invI [of _ ?c]) auto
  with x s k c0 show ?case
    by (cases "index i = 1") (auto simp: InterleavedSearcher__selectState_def Let_def assert_that_def Suc_le_eq)
next
  case (4 i current added removed u)
  let ?c = "content (searchers i ! 0)"
  have "\<forall>s \<in> set (searchers i). inv s \<and> content s = ?c"
    using interleaved_invD(4,5) [OF 4(1)] by blast
  from update_all_ok [OF 4(2,3) this] obtain ss where ss: "update_all (upd u) current added removed (searchers i) = Some ss"
      "length ss = length (searchers i)" "\<forall>s \<in> set ss. inv s \<and> content s = (?c \<union> set added) - set removed"
    by blast
  have k: "0 < index i" "index i \<le> length (searchers i)" by (rule interleaved_invD(1,2) [OF 4(1)])+
  then have "ss ! 0 \<in> set ss" using ss(2) by (intro nth_mem) auto
  moreover have "interleaved_inv inv content (i\<lparr>searchers := ss\<rparr>)"
    using ss k by (intro interleaved_invI [of _ "(?c \<union> set added) - set removed"]) auto
  ultimately show ?case using ss by (simp add: InterleavedSearcher__update_def)
qed simp_all

lemma iterative:
  "searcher (IterativeDeepeningTimeSearcher__selectState select)
     (\<lambda>(u, now). IterativeDeepeningTimeSearcher__update (upd u) emp now)
     (IterativeDeepeningTimeSearcher__empty emp)
     (\<lambda>i. content (id_baseSearcher i) \<union> pausedStates i) (\<lambda>i. content (id_baseSearcher i))
     (iterative_inv inv content removable) removable"
proof (unfold_locales, goal_cases)
  case (1 i)
  then show ?case by (auto simp: IterativeDeepeningTimeSearcher__empty_def iterative_inv_def empty_iff)
next
  case (3 i r)
  then have i: "inv (id_baseSearcher i)" "content (id_baseSearcher i) \<noteq> {}" by (auto simp: iterative_inv_def)
  obtain x s' where "select (fst r) (id_baseSearcher i) = Some (x, s')" "x \<in> content (id_baseSearcher i)"
      "content s' = content (id_baseSearcher i)" "inv s'"
    by (rule select_stable [OF i])
  with 3 show ?case by (auto simp: IterativeDeepeningTimeSearcher__selectState_def iterative_inv_def)
next
  case (4 i current added removed u)
  obtain v now where u: "u = (v, now)" by (cases u)
  let ?s = "id_baseSearcher i" and ?p = "pausedStates i"
  let ?alt = "filter (\<lambda>x. x \<notin> ?p \<or> x \<notin> set removed) removed" and ?p1 = "?p - set removed"
  have i: "inv ?s" "finite ?p" "?p \<inter> content ?s = {}" "\<forall>x \<in> ?p. removable x"
    using 4(1) by (auto simp: iterative_inv_def)
  have v1: "valid_update (content ?s) (content ?s) current added ?alt"
    "\<forall>x \<in> set ?alt \<union> set_option current. removable x"
    using 4(2,3) by (auto simp: valid_update_def)
  obtain s1 where s1: "upd v current added ?alt ?s = Some s1" "inv s1" "content s1 = (content ?s \<union> set added) - set ?alt"
    by (rule update_stable [OF i(1) v1])
  have disj: "?p1 \<inter> content s1 = {}" "content s1 \<union> ?p1 = (content ?s \<union> ?p \<union> set added) - set removed"
    using s1(3) i(3) 4(2) by (auto simp: valid_update_def)
  define pause where "pause \<longleftrightarrow> (\<exists>c. current = Some c \<and> c \<notin> set removed \<and> now - startTime i > id_time i)"
  define p2 where "p2 = (if pause then insert (the current) ?p1 else ?p1)"
  have "\<exists>s2. (case current of
             Some c \<Rightarrow>
               if c \<notin> set removed \<and> now - startTime i > id_time i then do {
                 s \<leftarrow> upd v None [] [c] s1;
                 Some (s, insert c ?p1)
               }
               else Some (s1, ?p1)
           | None \<Rightarrow> Some (s1, ?p1)) = Some (s2, p2) \<and> inv s2 \<and> p2 \<inter> content s2 = {} \<and> finite p2
      \<and> (\<forall>x \<in> p2. removable x) \<and> content s2 \<union> p2 = content s1 \<union> ?p1"
  proof (cases pause)
    case True
    then obtain c where c: "current = Some c" "c \<notin> set removed" "now - startTime i > id_time i" by (auto simp: pause_def)
    then have cs: "c \<in> content s1" "removable c" using 4(2,3) s1(3) by (auto simp: valid_update_def)
    obtain s2 where "upd v None [] [c] s1 = Some s2" "inv s2" "content s2 = content s1 - {c}"
      by (rule update_stable [OF s1(2), where current = None and added = "[]" and removed = "[c]"])
        (use cs in \<open>auto simp: valid_update_def\<close>)
    with True c cs disj i(2,4) show ?thesis by (auto simp: p2_def)
  next
    case False
    with s1 disj i show ?thesis by (auto simp: p2_def pause_def split: option.splits)
  qed
  then obtain s2 where s2: "(case current of
             Some c \<Rightarrow>
               if c \<notin> set removed \<and> now - startTime i > id_time i then do {
                 s \<leftarrow> upd v None [] [c] s1;
                 Some (s, insert c ?p1)
               }
               else Some (s1, ?p1)
           | None \<Rightarrow> Some (s1, ?p1)) = Some (s2, p2)" "inv s2" "p2 \<inter> content s2 = {}" "finite p2"
      "\<forall>x \<in> p2. removable x" "content s2 \<union> p2 = content s1 \<union> ?p1"
    by blast
  show ?case
  proof (cases "emp s2")
    case True
    then have e: "content s2 = {}" using empty_iff [OF s2(2)] by simp
    obtain s3 where "upd v None (sorted_list_of_set p2) [] s2 = Some s3" "inv s3" "content s3 = p2"
      by (rule update_stable [OF s2(2), where current = None and added = "sorted_list_of_set p2" and removed = "[]"])
        (use e s2(4) in \<open>auto simp: valid_update_def\<close>)
    with s1(1) s2 e True disj(2) i show ?thesis
      by (auto simp: u IterativeDeepeningTimeSearcher__update_def filter_paused_eq Let_def iterative_inv_def)
  next
    case False
    then have "content s2 \<noteq> {}" using empty_iff [OF s2(2)] by simp
    with s1(1) s2 False disj(2) show ?thesis
      by (auto simp: u IterativeDeepeningTimeSearcher__update_def filter_paused_eq Let_def iterative_inv_def)
  qed
qed auto

end

section \<open>The searcher of a run\<close>

text \<open>
  \<open>constructUserSearcher\<close> with batching and iterative deepening switched on: the core
  searchers the user names, interleaved, in batches, with time slices. The initial slice is
  one second.
\<close>

type_synonym user_searcher = "core_searcher interleaved batching iterative"

definition constructUserSearcher :: "coreSearchType list \<Rightarrow> int \<Rightarrow> 32 word \<Rightarrow> user_searcher" where
  "constructUserSearcher CoreSearch BatchTime BatchInstructions =
     \<lparr>id_baseSearcher =
        BatchingSearcher__BatchingSearcher
          (InterleavedSearcher__InterleavedSearcher (map getNewSearcher CoreSearch))
          BatchTime BatchInstructions,
      startTime = 0, id_time = 1000000000, pausedStates = {}\<rparr>"

definition user_selectState ::
  "32 word batching_env \<times> int \<Rightarrow> user_searcher \<Rightarrow> (es \<times> user_searcher) option" where
  "user_selectState = IterativeDeepeningTimeSearcher__selectState
     (BatchingSearcher__selectState (InterleavedSearcher__selectState selectState))"

definition user_update ::
  "(es \<Rightarrow> bool) \<Rightarrow> int \<Rightarrow> es option \<Rightarrow> es list \<Rightarrow> es list \<Rightarrow> user_searcher \<Rightarrow> user_searcher option" where
  "user_update sim = IterativeDeepeningTimeSearcher__update
     (BatchingSearcher__update (InterleavedSearcher__update (update sim)))
     (BatchingSearcher__empty (InterleavedSearcher__empty is_empty))"

definition user_empty :: "user_searcher \<Rightarrow> bool" where
  "user_empty = IterativeDeepeningTimeSearcher__empty
     (BatchingSearcher__empty (InterleavedSearcher__empty is_empty))"

text \<open>
  One turn of the main loop of \<open>Executor::run\<close> with \<open>updateStates\<close>, seen from the
  searcher: a state is selected and executed, and the states that were added and removed
  meanwhile are reported; \<open>live\<close> is the executor's set \<open>states\<close>. After the turn,
  states may be terminated early under memory pressure, which is reported without a current
  state. No state is suspended or resumed.
\<close>

inductive run_step ::
  "('r \<Rightarrow> 's \<Rightarrow> (es \<times> 's) option) \<Rightarrow> ('u \<Rightarrow> es option \<Rightarrow> es list \<Rightarrow> es list \<Rightarrow> 's \<Rightarrow> 's option)
   \<Rightarrow> (es \<Rightarrow> bool) \<Rightarrow> es set \<times> 's \<Rightarrow> es set \<times> 's \<Rightarrow> bool"
  for select upd removable where
  step: "run_step select upd removable (live, s) ((live \<union> set added) - set removed, s2)"
    if "live \<noteq> {}" "select r s = Some (x, s1)"
      "distinct added" "distinct removed" "set added \<inter> live = {}" "set removed \<subseteq> live \<union> set added"
      "\<forall>y \<in> insert x (set removed). removable y"
      "upd u (Some x) added removed s1 = Some s2"
| early: "run_step select upd removable (live, s) (live - set removed, s2)"
    if "distinct removed" "set removed \<subseteq> live" "\<forall>y \<in> set removed. removable y"
      "upd u None [] removed s = Some s2"

context searcher
begin

lemma run_step_inv:
  assumes "run_step select upd removable (content s, s) (live', s')" "inv s"
  shows "live' = content s' \<and> inv s'"
  using assms(1)
proof (cases rule: run_step.cases)
  case (step r x s1 added removed u)
  have s1: "x \<in> active s" "content s1 = content s" "active s1 = active s" "inv s1"
    using select_ok [OF assms(2) step(2), of r] step(3) by auto
  have "valid_update (content s1) (active s1) (Some x) added removed"
    using step s1 by (simp add: valid_update_def)
  moreover have "\<forall>z \<in> set removed \<union> set_option (Some x). removable z" using step by auto
  ultimately show ?thesis using update_ok [OF s1(4), of "Some x" added removed u] step s1(2) by auto
next
  case (early removed u)
  then have "valid_update (content s) (active s) None [] removed" by (simp add: valid_update_def)
  then show ?thesis using update_ok [OF assms(2), of None "[]" removed u] early by auto
qed

lemma run_inv:
  assumes "(run_step select upd removable)\<^sup>*\<^sup>* p q" "fst p = content (snd p)" "inv (snd p)"
  shows "fst q = content (snd q) \<and> inv (snd q)"
  using assms
proof (induction rule: rtranclp_induct)
  case (step y z)
  then have "run_step select upd removable (content (snd y), snd y) (fst z, snd z)" "inv (snd y)"
    by (metis prod.collapse)+
  then show ?case by (rule run_step_inv)
qed simp

text \<open>A turn is possible whatever the executed state did.\<close>

lemma run_progress:
  assumes "inv s" "content s \<noteq> {}"
  obtains x s1 where "select r s = Some (x, s1)" "x \<in> content s"
    "\<And>added removed u. distinct added \<Longrightarrow> distinct removed \<Longrightarrow> set added \<inter> content s = {} \<Longrightarrow>
      set removed \<subseteq> content s \<union> set added \<Longrightarrow> \<forall>y \<in> insert x (set removed). removable y \<Longrightarrow>
      \<exists>s2. upd u (Some x) added removed s1 = Some s2"
proof -
  obtain x s1 where x: "select r s = Some (x, s1)" "x \<in> active s" "content s1 = content s" "active s1 = active s" "inv s1"
    using select_ok [OF assms] by blast
  show thesis
  proof (rule that [OF x(1)])
    show "x \<in> content s" using x(2) active_content [OF assms(1)] by blast
    fix added removed u
    assume "distinct added" "distinct removed" "set added \<inter> content s = {}" "set removed \<subseteq> content s \<union> set added"
      and r: "\<forall>y \<in> insert x (set removed). removable y"
    then have "valid_update (content s1) (active s1) (Some x) added removed"
      using x by (simp add: valid_update_def)
    moreover have "\<forall>z \<in> set removed \<union> set_option (Some x). removable z" using r by auto
    ultimately show "\<exists>s2. upd u (Some x) added removed s1 = Some s2"
      using update_ok [OF x(5)] by blast
  qed
qed

end

interpretation inter: stable_searcher "InterleavedSearcher__selectState selectState"
  "\<lambda>u :: unit. InterleavedSearcher__update (update sim)" "InterleavedSearcher__empty is_empty"
  "\<lambda>i. set (states_of (searchers i ! 0))" "\<lambda>i. set (states_of (searchers i ! 0))"
  "interleaved_inv (\<lambda>s. distinct (states_of s)) (\<lambda>s. set (states_of s))" "\<lambda>x. \<not> sim x" for sim
  by (rule core.interleaved)

interpretation batch: stable_searcher "BatchingSearcher__selectState (InterleavedSearcher__selectState selectState)"
  "\<lambda>u :: unit. BatchingSearcher__update (InterleavedSearcher__update (update sim))"
  "BatchingSearcher__empty (InterleavedSearcher__empty is_empty)"
  "\<lambda>b. set (states_of (searchers (baseSearcher b) ! 0))" "\<lambda>b. set (states_of (searchers (baseSearcher b) ! 0))"
  "batching_inv (interleaved_inv (\<lambda>s. distinct (states_of s)) (\<lambda>s. set (states_of s)))
     (\<lambda>i. set (states_of (searchers i ! 0)))" "\<lambda>x. \<not> sim x" for sim
  by (rule inter.batching)

definition user_content :: "user_searcher \<Rightarrow> es set" where
  "user_content i = set (states_of (searchers (baseSearcher (id_baseSearcher i)) ! 0)) \<union> pausedStates i"

definition user_inv :: "(es \<Rightarrow> bool) \<Rightarrow> user_searcher \<Rightarrow> bool" where
  "user_inv sim = iterative_inv
     (batching_inv (interleaved_inv (\<lambda>s. distinct (states_of s)) (\<lambda>s. set (states_of s)))
       (\<lambda>i. set (states_of (searchers i ! 0))))
     (\<lambda>b. set (states_of (searchers (baseSearcher b) ! 0))) (\<lambda>x. \<not> sim x)"

interpretation user: searcher user_selectState "\<lambda>(u :: unit, now). user_update sim now" user_empty
  user_content "\<lambda>i. set (states_of (searchers (baseSearcher (id_baseSearcher i)) ! 0))" "user_inv sim" "\<lambda>x. \<not> sim x" for sim
  unfolding user_selectState_def user_update_def user_empty_def user_content_def user_inv_def
  by (rule batch.iterative)

lemma user_inv_init: "types \<noteq> [] \<Longrightarrow> user_inv sim (constructUserSearcher types tb ib) \<and> user_content (constructUserSearcher types tb ib) = {}"
proof -
  assume t: "types \<noteq> []"
  have e: "states_of (getNewSearcher x) = []" for x by (cases x) simp_all
  have "states_of (map getNewSearcher types ! 0) = []" using t e by (simp add: nth_map)
  with t e show ?thesis
    by (auto simp: user_inv_def user_content_def constructUserSearcher_def iterative_inv_def batching_inv_def
        interleaved_inv_def BatchingSearcher__BatchingSearcher_def InterleavedSearcher__InterleavedSearcher_def Suc_le_eq)
qed

section \<open>Properties\<close>

text \<open>
  (C4) The searcher of a run never loses and never invents a state. However the executor
  interleaves selections with the creation and termination of states, the nested
  iterative-deepening, batching and interleaved searchers together hold exactly the
  executor's live states; the searcher reports empty exactly when no state is left; and as
  long as one is left, a selection succeeds and returns a live state.
\<close>

theorem user_searcher_run:
  assumes "2 \<le> length CoreSearch" "distinct init"
    and "user_update sim now None init [] (constructUserSearcher CoreSearch BatchTime BatchInstructions) = Some s0"
    and "(run_step user_selectState (\<lambda>(u :: unit, t). user_update sim t) (\<lambda>x. \<not> sim x))\<^sup>*\<^sup>* (set init, s0) (live, s)"
  shows "user_content s = live \<and> (user_empty s \<longleftrightarrow> live = {})
    \<and> (live = {} \<or> (\<exists>x s'. user_selectState env s = Some (x, s') \<and> x \<in> live))"
proof -
  let ?c = "constructUserSearcher CoreSearch BatchTime BatchInstructions"
  have c: "user_inv sim ?c" "user_content ?c = {}" using user_inv_init [of CoreSearch] assms(1) by fastforce+
  have "valid_update (user_content ?c) A None init []" for A
    using assms(2) c by (simp add: valid_update_def)
  from user.update_ok [OF c(1) this, of "((), now)"] assms(3) c(2)
  have s0: "user_inv sim s0" "user_content s0 = set init" by auto
  have s: "user_inv sim s" "user_content s = live"
    using user.run_inv [OF assms(4)] s0 by auto
  have "\<exists>x s'. user_selectState env s = Some (x, s') \<and> x \<in> user_content s" if "user_content s \<noteq> {}"
    by (rule user.run_progress [OF s(1) that, of env]) blast
  then show ?thesis
    using user.empty_iff [OF s(1)] s(2) by blast
qed

text \<open>
  Two searchers, three states at the start; after one turn state 3 has forked state 4 and
  terminated.
\<close>

definition example_env :: "32 word batching_env \<times> int" where
  "example_env = (\<lparr>base_env = 5, wallTime1 = 10, wallTime2 = 11, wallTime3 = 12, instructions = 100\<rparr>, 13)"

definition example_start :: "user_searcher option" where
  "example_start = user_update (\<lambda>_. False) 0 None [1, 2, 3] [] (constructUserSearcher [DFS, BFS] 0 1000)"

definition example_turn :: "user_searcher option" where
  "example_turn = do {
     s \<leftarrow> example_start;
     (x, s) \<leftarrow> user_selectState example_env s;
     user_update (\<lambda>_. False) 20 (Some x) [4] [x] s
   }"

theorem user_searcher_run_witness:
  "\<exists>s0 s. example_start = Some s0 \<and> example_turn = Some s
    \<and> user_content s = ({1, 2, 3} \<union> {4}) - {3} \<and> \<not> user_empty s
    \<and> (\<exists>x s'. user_selectState example_env s = Some (x, s') \<and> x \<in> ({1, 2, 3} \<union> {4}) - {3})"
proof -
  obtain s0 x s1 s where s0: "example_start = Some s0" and x: "user_selectState example_env s0 = Some (x, s1)"
    and s: "user_update (\<lambda>_. False) 20 (Some x) [4] [x] s1 = Some s" "example_turn = Some s" and x3: "x = 3"
  proof -
    have "(case example_start of None \<Rightarrow> False | Some s0 \<Rightarrow>
       (case user_selectState example_env s0 of None \<Rightarrow> False | Some (x, s1) \<Rightarrow>
         x = 3 \<and> user_update (\<lambda>_. False) 20 (Some x) [4] [x] s1 \<noteq> None))" by code_simp
    then obtain s0 s1 s where "example_start = Some s0" "user_selectState example_env s0 = Some (3, s1)"
        "user_update (\<lambda>_. False) 20 (Some 3) [4] [3] s1 = Some s"
      by (auto split: option.splits)
    then show thesis by (intro that [of s0 3 s1 s]) (auto simp: example_turn_def bind_eq_Some_conv)
  qed
  have "run_step user_selectState (\<lambda>(u :: unit, t). user_update (\<lambda>_. False) t) (\<lambda>x. \<not> False)
      ({1, 2, 3}, s0) (({1, 2, 3} \<union> set [4]) - set [3], s)"
    by (rule run_step.step [where u = "((), 20)" and r = example_env and x = x and ?s1.0 = s1]) (use x s x3 in auto)
  then have r: "(run_step user_selectState (\<lambda>(u :: unit, t). user_update (\<lambda>_. False) t) (\<lambda>x. \<not> False))\<^sup>*\<^sup>*
      (set [1, 2, 3], s0) (({1, 2, 3} \<union> {4}) - {3}, s)" by simp
  have init: "2 \<le> length [DFS, BFS]" "distinct [1, 2, 3 :: nat]" by simp_all
  let ?live = "({1, 2, 3} \<union> {4}) - {3 :: nat}"
  have "1 \<in> ?live" by simp
  then have "?live \<noteq> {}" by blast
  with user_searcher_run [OF init s0 [unfolded example_start_def] r, of example_env] s0 s(2)
  show ?thesis by blast
qed

text \<open>
  (C30) A turn of the main loop is always possible: from every reachable configuration with
  a live state, for every state that the selection can return and whatever valid set of
  additions and removals its execution reports, no assertion of the searchers fails.
\<close>

theorem user_searcher_progress:
  assumes "user_inv sim s" "user_content s \<noteq> {}"
    and "distinct added" "distinct removed" "set added \<inter> user_content s = {}"
    and "set removed \<subseteq> user_content s \<union> set added" "\<forall>y. sim y \<longrightarrow> y \<notin> user_content s \<union> set added"
  shows "\<exists>x s1 s2. user_selectState env s = Some (x, s1) \<and> user_update sim now (Some x) added removed s1 = Some s2
    \<and> user_inv sim s2 \<and> user_content s2 = (user_content s \<union> set added) - set removed"
proof -
  obtain x s1 where x: "user_selectState env s = Some (x, s1)" "x \<in> user_content s" and
    u: "\<And>u. \<forall>y \<in> insert x (set removed). \<not> sim y \<Longrightarrow>
      \<exists>s2. (\<lambda>(u :: unit, now). user_update sim now) u (Some x) added removed s1 = Some s2"
    by (rule user.run_progress [OF assms(1,2), of env]) (use assms(3-6) in blast)
  have ns: "\<forall>y \<in> insert x (set removed). \<not> sim y" using assms x(2) by blast
  obtain s2 where s2: "user_update sim now (Some x) added removed s1 = Some s2"
    using u [OF ns, of "((), now)"] by auto
  have "run_step user_selectState (\<lambda>(u :: unit, t). user_update sim t) (\<lambda>x. \<not> sim x)
      (user_content s, s) ((user_content s \<union> set added) - set removed, s2)"
    by (rule run_step.step [where u = "((), now)" and upd = "\<lambda>(u :: unit, t). user_update sim t"
          and select = user_selectState and removable = "\<lambda>x. \<not> sim x", OF assms(2) x(1) assms(3-6) ns]) (simp add: s2)
  from user.run_step_inv [OF this assms(1)] x s2 show ?thesis by auto
qed

theorem user_searcher_progress_witness:
  "\<exists>s0 x s1 s2. example_start = Some s0 \<and> user_selectState example_env s0 = Some (x, s1)
    \<and> user_update (\<lambda>_. False) 20 (Some x) [4, 5] [1, 4] s1 = Some s2 \<and> user_content s2 = {2, 3, 5}"
proof -
  have "(case example_start of None \<Rightarrow> False | Some s0 \<Rightarrow> True)" by code_simp
  then obtain s0 where s0: "example_start = Some s0" by (auto split: option.splits)
  have "valid_update (user_content (constructUserSearcher [DFS, BFS] 0 1000)) A None [1, 2, 3] []" for A
    by (simp add: valid_update_def user_inv_init)
  from user.update_ok [OF conjunct1 [OF user_inv_init] this, of "\<lambda>_. False" "((), 0)"] s0 [unfolded example_start_def]
  have i: "user_inv (\<lambda>_. False) s0" "user_content s0 = {1, 2, 3}" by (simp_all add: user_inv_init)
  have "({1, 2, 3} \<union> set [4, 5]) - set [1, 4] = {2, 3, 5 :: nat}" by auto
  then show ?thesis
    using user_searcher_progress [OF i(1), of "[4, 5]" "[1, 4]" example_env 20] i(2) s0 by fastforce
qed

text \<open>
  A run of \<open>t\<close> selections of the interleaved searcher, each followed by an update, with the
  positions of the searchers that were asked.
\<close>

primrec interleaved_run ::
  "('r \<Rightarrow> 's \<Rightarrow> (es \<times> 's) option) \<Rightarrow> (es option \<Rightarrow> es list \<Rightarrow> es list \<Rightarrow> 's \<Rightarrow> 's option)
   \<Rightarrow> (nat \<Rightarrow> 'r) \<Rightarrow> (nat \<Rightarrow> es list \<times> es list) \<Rightarrow> nat \<Rightarrow> 's interleaved \<Rightarrow> (nat list \<times> 's interleaved) option" where
  "interleaved_run sel upd r report 0 i = Some ([], i)"
| "interleaved_run sel upd r report (Suc t) i = do {
     (asked, j) \<leftarrow> interleaved_run sel upd r report t i;
     (x, k) \<leftarrow> InterleavedSearcher__selectState sel (r t) j;
     k \<leftarrow> InterleavedSearcher__update upd (Some x) (fst (report t)) (snd (report t)) k;
     Some (asked @ [index j - 1], k)
   }"

lemma update_all_length: "update_all upd c a r ss = Some ss' \<Longrightarrow> length ss' = length ss"
  by (induction ss arbitrary: ss') (auto simp: bind_eq_Some_conv)

lemma interleaved_turn:
  assumes "InterleavedSearcher__selectState sel r j = Some (x, k)" "InterleavedSearcher__update upd c a rm k = Some k'"
  shows "0 < index k'" "index k' \<le> length (searchers k')" "length (searchers k') = length (searchers j)"
    "(int (index k') - 1) mod int (length (searchers j)) = (int (index j) - 2) mod int (length (searchers j))"
proof -
  let ?n = "length (searchers j)"
  have j: "0 < index j" "index j \<le> ?n" and k: "length (searchers k') = ?n" "index k' = (if index j - 1 = 0 then ?n else index j - 1)"
    using assms by (auto simp: InterleavedSearcher__selectState_def InterleavedSearcher__update_def
        bind_eq_Some_conv Let_def assert_that_def split: if_splits dest: update_all_length)
  show "0 < index k'" "index k' \<le> length (searchers k')" "length (searchers k') = ?n" using j k by auto
  show "(int (index k') - 1) mod int ?n = (int (index j) - 2) mod int ?n"
  proof (cases "index j = 1")
    case True
    then show ?thesis using k mod_add_self1 [of "int ?n" "- 1"] by simp
  next
    case False
    then have "int (index k') - 1 = int (index j) - 2" using j k by (auto simp: of_nat_diff)
    then show ?thesis by presburger
  qed
qed

lemma interleaved_run_asked:
  assumes "interleaved_run sel upd r report t i = Some (asked, j)" "0 < index i" "index i \<le> length (searchers i)"
  shows "length (searchers j) = length (searchers i) \<and> 0 < index j \<and> index j \<le> length (searchers i)
    \<and> (int (index j) - 1) mod int (length (searchers i)) = (int (index i) - 1 - int t) mod int (length (searchers i))
    \<and> map int asked = map (\<lambda>u. (int (index i) - 1 - int u) mod int (length (searchers i))) [0..<t]"
  using assms(1)
proof (induction t arbitrary: asked j)
  case 0
  with assms show ?case by simp
next
  case (Suc t)
  let ?n = "int (length (searchers i))"
  obtain as j1 x k where j: "interleaved_run sel upd r report t i = Some (as, j1)"
      "InterleavedSearcher__selectState sel (r t) j1 = Some (x, k)"
      "InterleavedSearcher__update upd (Some x) (fst (report t)) (snd (report t)) k = Some j"
      "asked = as @ [index j1 - 1]"
    using Suc.prems by (auto simp: bind_eq_Some_conv)
  note h = Suc.IH [OF j(1)] and tn = interleaved_turn [OF j(2,3)]
  have "(int (index j1) - 1) mod ?n = int (index j1) - 1" using h by (intro mod_pos_pos_trivial) auto
  then have a: "int (index j1 - 1) = (int (index i) - 1 - int t) mod ?n" using h by (simp add: of_nat_diff)
  have "(int (index j) - 1) mod ?n = ((int (index j1) - 1) mod ?n - 1) mod ?n"
    using tn(4) h by (metis mod_diff_left_eq diff_diff_eq one_add_one)
  also have "\<dots> = (int (index i) - 1 - int (Suc t)) mod ?n"
    using h by (simp add: mod_diff_left_eq algebra_simps)
  finally show ?case using h tn j(4) a by auto
qed



text \<open>
  (C32) The instruction budget of the batching searcher stops working once the program has
  executed \<open>2^32\<close> instructions: \<open>lastStartInstructions\<close> keeps 32 of the 64 bits of the
  counter, so that right after a fresh selection, with no instruction executed since, the
  budget already counts as used up.
\<close>

theorem batching_budget_wraps:
  assumes "BatchingSearcher__selectState sel env b = Some (x, b')"
    and "\<not> (lastState b \<noteq> None \<and> withinTimeBudget (wallTime1 env) b \<and> withinInstructionBudget (instructions env) b)"
    and "instructionBudgetEnabled b" "2 ^ 32 \<le> unat (instructions env)"
  shows "\<not> withinInstructionBudget (instructions env) b'"
proof -
  have b': "lastStartInstructions b' = ucast (instructions env)" "instructionBudgetEnabled b'"
    using assms(1-3) by (auto simp: BatchingSearcher__selectState_def bind_eq_Some_conv Let_def split: if_splits)
  have m: "unat (ucast (lastStartInstructions b') :: 64 word) = unat (instructions env) mod 2 ^ 32"
    using b'(1) by (simp add: unsigned_ucast_eq take_bit_eq_mod unat_mod)
  have le: "(ucast (lastStartInstructions b') :: 64 word) \<le> instructions env"
    by (simp add: word_le_nat_alt m)
  have "unat (instructions env - ucast (lastStartInstructions b')) = unat (instructions env) - unat (instructions env) mod 2 ^ 32"
    using unat_sub [OF le] m by simp
  also have "\<dots> = (unat (instructions env) div 2 ^ 32) * 2 ^ 32"
    by (simp add: minus_mod_eq_div_mult)
  also have "\<dots> \<ge> 2 ^ 32" using assms(4) by (simp add: div_greater_zero_iff)
  finally have "2 ^ 32 \<le> unat (instructions env - ucast (lastStartInstructions b'))" .
  moreover have "unat (ucast (instructionBudget b') :: 64 word) < 2 ^ 32"
    using unsigned_less [of "instructionBudget b'", where ?'a = nat] by (simp add: unsigned_ucast_eq take_bit_eq_mod)
  ultimately show ?thesis using b'(2) by (simp add: withinInstructionBudget_def word_le_nat_alt)
qed

theorem batching_budget_wraps_witness:
  "case BatchingSearcher__selectState selectState
      \<lparr>base_env = 0, wallTime1 = 0, wallTime2 = 0, wallTime3 = 0, instructions = 0x100000005\<rparr>
      (BatchingSearcher__BatchingSearcher (DFSSearcher [1]) 0 10000) of
     None \<Rightarrow> False | Some (x, b) \<Rightarrow> \<not> withinInstructionBudget 0x100000005 b"
proof -
  let ?e = "\<lparr>base_env = 0, wallTime1 = 0, wallTime2 = 0, wallTime3 = 0, instructions = 0x100000005\<rparr> :: 32 word batching_env"
    and ?b = "BatchingSearcher__BatchingSearcher (DFSSearcher [1]) 0 10000"
  have "BatchingSearcher__selectState selectState ?e ?b \<noteq> None" by code_simp
  then obtain x b where "BatchingSearcher__selectState selectState ?e ?b = Some (x, b)" by auto
  with batching_budget_wraps [of selectState ?e ?b x b] show ?thesis
    by (simp add: BatchingSearcher__BatchingSearcher_def)
qed

text \<open>
  (C33) The split searcher with depth-first simulation never lets go of a simulation state:
  \<open>SplittedSearcher::update\<close> hands it the removed simulation states, and
  \<open>DFSSearcher::update\<close> skips exactly these, so every simulation state it ever held stays,
  and the newest of them is the one it selects.
\<close>

theorem splitted_dfs_keeps_simulation:
  assumes "SplittedSearcher__update sim mcts_upd (DFSSearcher__update sim) current added removed p = Some p'"
  shows "simulationSearcher p' = simulationSearcher p @ filter sim added"
proof -
  have "DFSSearcher__remove sim (filter sim rs) states = Some states" for rs states
    by (induction rs) auto
  with assms show ?thesis
    by (auto simp: SplittedSearcher__update_def Let_def bind_eq_Some_conv DFSSearcher__update_def)
qed

theorem splitted_dfs_keeps_simulation_witness:
  "case SplittedSearcher__update (\<lambda>x. x \<ge> 10) (BFSSearcher__update) (DFSSearcher__update (\<lambda>x. x \<ge> 10))
      (Some 12) [] [12, 1] \<lparr>mctsSearcher = [1, 2], simulationSearcher = [11, 12]\<rparr> of
     None \<Rightarrow> False | Some p \<Rightarrow> simulationSearcher p = [11, 12]"
proof -
  have "SplittedSearcher__update (\<lambda>x. x \<ge> 10) (BFSSearcher__update) (DFSSearcher__update (\<lambda>x. x \<ge> 10))
      (Some 12) [] [12, 1] \<lparr>mctsSearcher = [1, 2], simulationSearcher = [11, 12]\<rparr> \<noteq> None" by code_simp
  then obtain p where "SplittedSearcher__update (\<lambda>x. x \<ge> 10) (BFSSearcher__update) (DFSSearcher__update (\<lambda>x. x \<ge> 10))
      (Some 12) [] [12, 1] \<lparr>mctsSearcher = [1, 2], simulationSearcher = [11, 12]\<rparr> = Some p" by auto
  with splitted_dfs_keeps_simulation [OF this] show ?thesis by simp
qed

end
