(* ===== verification/Analysis_State.thy ===== *)
theory Analysis_State
  imports Prelude "HOL-Library.AList"
begin

text \<open>
  The pointer classification of the static analysis: \<open>ccured-src/AnalysisState.cpp\<close>
  records for every pointer variable whether it is used safely, as a sequence or
  dynamically, and \<open>ccured-src/neschecklib.c\<close> is the table of object sizes that the
  instrumented program consults at run time.

  Variables and LLVM values are addresses; \<open>Variables\<close> is an association list with
  distinct keys. \<open>None\<close> is the null dereference of a debug message.
\<close>

section \<open>Classification of pointers\<close>

datatype variableStates = Unknown | Safe | Seq | Dyn

fun variableStates_value :: "variableStates \<Rightarrow> int" where
  "variableStates_value Unknown = -1"
| "variableStates_value Safe = 0"
| "variableStates_value Seq = 1"
| "variableStates_value Dyn = 2"

lemma variableStates_value_inj [simp]: "variableStates_value a = variableStates_value b \<longleftrightarrow> a = b"
  by (cases a; cases b) simp_all

instantiation variableStates :: linorder
begin

definition "a \<le> b \<longleftrightarrow> variableStates_value a \<le> variableStates_value b"
definition "a < b \<longleftrightarrow> variableStates_value a < variableStates_value b"

instance
proof
  fix a b :: variableStates
  assume "a \<le> b" "b \<le> a"
  then have "variableStates_value a = variableStates_value b" by (simp add: less_eq_variableStates_def)
  then show "a = b" by simp
qed (auto simp: less_eq_variableStates_def less_variableStates_def)

end

definition PtrTypeToString :: "variableStates \<Rightarrow> string" where
  "PtrTypeToString ptrType =
     (if ptrType = Safe then ''SAFE''
      else if ptrType = Seq then ''SEQ''
      else if ptrType = Dyn then ''DYN'' else ''UNKNOWN'')"

record variableInfo =
  classification :: variableStates
  vi_size :: nat
  hasMetadataTableEntry :: bool
  hasExplicitSizeVariable :: bool
  instantiatedExplicitSizeVariable :: bool
  explicitSizeVariable :: "nat option"
  isGlobal :: bool
  didClassificationChange :: bool

text \<open>
  \<open>zero\<close> is the address of \<open>ConstantInt::get(sizetype, 0)\<close>. A new entry of the map
  is zero-initialised, which makes its classification \<open>Safe\<close>.
\<close>

record analysisState =
  Variables :: "(nat \<times> variableInfo) list"
  numFunctions :: nat
  zero_size :: nat

definition new_info :: "variableInfo" where
  "new_info = \<lparr>classification = Safe, vi_size = 0, hasMetadataTableEntry = False,
     hasExplicitSizeVariable = False, instantiatedExplicitSizeVariable = False,
     explicitSizeVariable = None, isGlobal = False, didClassificationChange = False\<rparr>"

text \<open>\<open>Variables[Decl].f = v\<close>: an update of the entry, which \<open>operator[]\<close> creates when it is missing.\<close>

definition modify :: "nat \<Rightarrow> (variableInfo \<Rightarrow> variableInfo) \<Rightarrow> analysisState \<Rightarrow> analysisState" where
  "modify Decl f S =
     S\<lparr>Variables := AList.update Decl
         (f (case map_of (Variables S) Decl of Some i \<Rightarrow> i | None \<Rightarrow> new_info)) (Variables S)\<rparr>"

definition RegisterFunction :: "analysisState \<Rightarrow> analysisState" where
  "RegisterFunction S = S\<lparr>numFunctions := numFunctions S + 1\<rparr>"

definition RegisterVariable :: "nat \<Rightarrow> analysisState \<Rightarrow> analysisState" where
  "RegisterVariable Decl S =
     (if map_of (Variables S) Decl \<noteq> None then S
      else modify Decl (\<lambda>i. i\<lparr>classification := Safe, vi_size := zero_size S\<rparr>) S)"

definition ClassifyPointerVariable :: "nat \<Rightarrow> variableStates \<Rightarrow> analysisState \<Rightarrow> analysisState" where
  "ClassifyPointerVariable Decl ptrType S =
     modify Decl
       (\<lambda>i. if classification i < ptrType
            then (let i = i\<lparr>classification := ptrType\<rparr>
                  in if isGlobal i then i\<lparr>didClassificationChange := True\<rparr> else i)
            else i)
       (RegisterVariable Decl S)"

definition SetSizeForPointerVariable :: "nat \<Rightarrow> nat option \<Rightarrow> analysisState \<Rightarrow> analysisState" where
  "SetSizeForPointerVariable Decl sz S =
     modify Decl (\<lambda>i. i\<lparr>vi_size := (case sz of None \<Rightarrow> zero_size S | Some v \<Rightarrow> v)\<rparr>) (RegisterVariable Decl S)"

text \<open>The message prints \<open>*explicitSizeVariable\<close> also when it is null.\<close>

definition SetExplicitSizeVariableForPointerVariable ::
  "nat \<Rightarrow> nat option \<Rightarrow> analysisState \<Rightarrow> analysisState option" where
  "SetExplicitSizeVariableForPointerVariable Decl explicitSize S = do {
     let S = modify Decl (\<lambda>i. i\<lparr>hasExplicitSizeVariable := explicitSize \<noteq> None,
                                 explicitSizeVariable := explicitSize\<rparr>) (RegisterVariable Decl S);
     assert_that (explicitSize \<noteq> None);
     Some S
   }"

definition SetInstantiatedExplicitSizeVariable :: "nat \<Rightarrow> bool \<Rightarrow> analysisState \<Rightarrow> analysisState" where
  "SetInstantiatedExplicitSizeVariable Ref v S =
     modify Ref (\<lambda>i. i\<lparr>instantiatedExplicitSizeVariable := v\<rparr>) (RegisterVariable Ref S)"

definition SetHasMetadataTableEntry :: "nat \<Rightarrow> analysisState \<Rightarrow> analysisState" where
  "SetHasMetadataTableEntry Ref S = modify Ref (\<lambda>i. i\<lparr>hasMetadataTableEntry := True\<rparr>) (RegisterVariable Ref S)"

text \<open>\<open>isNull\<close> says whether the key is the null-pointer constant.\<close>

definition GetPointerVariableInfo :: "bool \<Rightarrow> nat \<Rightarrow> analysisState \<Rightarrow> variableInfo option" where
  "GetPointerVariableInfo isNull Decl S =
     (if isNull then Some (new_info\<lparr>classification := Unknown, vi_size := zero_size S\<rparr>)
      else map_of (Variables S) Decl)"

text \<open>The counters that \<open>GetVariablesStateAsString\<close> computes: safe, sequence, dynamic, with metadata entry.\<close>

fun count_pointers :: "(nat \<times> variableInfo) list \<Rightarrow> nat \<times> nat \<times> nat \<times> nat \<Rightarrow> nat \<times> nat \<times> nat \<times> nat" where
  "count_pointers [] (safe, seq, dyn, meta) = (safe, seq, dyn, meta)"
| "count_pointers ((d, i) # vs) (safe, seq, dyn, meta) =
     count_pointers vs
       (let (safe, seq, dyn) =
              (if classification i = Safe then (safe + 1, seq, dyn)
               else if classification i = Seq then (safe, seq + 1, dyn)
               else if classification i = Dyn then (safe, seq, dyn + 1) else (safe, seq, dyn))
        in (safe, seq, dyn, if hasMetadataTableEntry i then meta + 1 else meta))"

definition GetVariablesStateAsString :: "analysisState \<Rightarrow> nat \<times> nat \<times> nat \<times> nat" where
  "GetVariablesStateAsString S = count_pointers (Variables S) (0, 0, 0, 0)"

section \<open>What an analysis computes\<close>

text \<open>The calls that an analysis makes, in any order.\<close>

datatype analysis_call =
    Register nat | Classify nat variableStates | SetSize nat "nat option" | SetExplicit nat nat
  | SetInstantiated nat bool | SetMetadata nat

fun analyse :: "analysis_call \<Rightarrow> analysisState \<Rightarrow> analysisState option" where
  "analyse (Register d) S = Some (RegisterVariable d S)"
| "analyse (Classify d t) S = Some (ClassifyPointerVariable d t S)"
| "analyse (SetSize d v) S = Some (SetSizeForPointerVariable d v S)"
| "analyse (SetExplicit d v) S = SetExplicitSizeVariableForPointerVariable d (Some v) S"
| "analyse (SetInstantiated d v) S = Some (SetInstantiatedExplicitSizeVariable d v S)"
| "analyse (SetMetadata d) S = Some (SetHasMetadataTableEntry d S)"

fun analyse_all :: "analysis_call list \<Rightarrow> analysisState \<Rightarrow> analysisState option" where
  "analyse_all [] S = Some S"
| "analyse_all (c # cs) S = analyse c S \<bind> analyse_all cs"

definition empty_analysis :: "nat \<Rightarrow> analysisState" where
  "empty_analysis z = \<lparr>Variables = [], numFunctions = 0, zero_size = z\<rparr>"

fun call_key :: "analysis_call \<Rightarrow> nat" where
  "call_key (Register d) = d"
| "call_key (Classify d t) = d"
| "call_key (SetSize d v) = d"
| "call_key (SetExplicit d v) = d"
| "call_key (SetInstantiated d v) = d"
| "call_key (SetMetadata d) = d"

text \<open>The specification: a variable has the largest of the classifications asked for it, and at least \<open>Safe\<close>.\<close>

fun asked :: "nat \<Rightarrow> analysis_call \<Rightarrow> variableStates set" where
  "asked d (Classify d' t) = (if d = d' then {t} else {})"
| "asked d c = {}"

definition inferred :: "nat \<Rightarrow> analysis_call list \<Rightarrow> variableStates option" where
  "inferred d cs =
     (if d \<in> call_key ` set cs then Some (Max (insert Safe (\<Union>c \<in> set cs. asked d c))) else None)"

section \<open>Proofs\<close>

lemma finite_asked [simp]: "finite (asked d c)"
  by (cases "(d, c)" rule: asked.cases) simp_all

lemma map_of_modify [simp]:
  "map_of (Variables (modify d f S)) =
     (map_of (Variables S))(d \<mapsto> f (case map_of (Variables S) d of Some i \<Rightarrow> i | None \<Rightarrow> new_info))"
  by (simp add: modify_def update_conv')

lemma zero_size_modify [simp]: "zero_size (modify d f S) = zero_size S"
  by (simp add: modify_def)

definition classOf :: "analysisState \<Rightarrow> nat \<Rightarrow> variableStates option" where
  "classOf S d = map_option classification (map_of (Variables S) d)"

lemma classOf_Register: "classOf (RegisterVariable d S) = (classOf S)(d \<mapsto> case classOf S d of Some t \<Rightarrow> t | None \<Rightarrow> Safe)"
  by (auto simp: classOf_def RegisterVariable_def fun_eq_iff)

lemma registered: "map_of (Variables (RegisterVariable d S)) d \<noteq> None"
  by (auto simp: RegisterVariable_def)

lemma classOf_modify_same:
  "(\<And>i. classification (f i) = classification i) \<Longrightarrow> classOf (modify d f (RegisterVariable d S)) = classOf (RegisterVariable d S)"
  using registered [of d S] by (auto simp: classOf_def fun_eq_iff)

lemma classOf_analyse:
  assumes "analyse c S = Some S'"
  shows "classOf S' = (classOf S)(call_key c \<mapsto>
    Max (insert (case classOf S (call_key c) of Some t \<Rightarrow> t | None \<Rightarrow> Safe) (asked (call_key c) c)))"
proof (cases c)
  case (Classify d t)
  have "classOf (ClassifyPointerVariable d t S) = (classOf (RegisterVariable d S))(d \<mapsto> max (the (classOf (RegisterVariable d S) d)) t)"
    using registered [of d S] unfolding ClassifyPointerVariable_def
    by (auto simp: classOf_def fun_eq_iff Let_def max_def)
  with Classify assms show ?thesis by (auto simp: classOf_Register)
qed (use assms in \<open>auto simp: classOf_Register classOf_modify_same SetSizeForPointerVariable_def
    SetExplicitSizeVariableForPointerVariable_def SetInstantiatedExplicitSizeVariable_def SetHasMetadataTableEntry_def\<close>)

lemma Max_insert_Un:
  "finite A \<Longrightarrow> finite B \<Longrightarrow> Max (insert (Max (insert (x :: variableStates) A)) B) = Max (insert x (A \<union> B))"
proof (cases "B = {}")
  case False
  moreover assume "finite A" "finite B"
  ultimately show ?thesis using Max_Un [of "insert x A" B] by simp
qed simp

lemma classOf_analyse_all:
  assumes "analyse_all cs S = Some S'"
  shows "classOf S' d = (if d \<in> call_key ` set cs
    then Some (Max (insert (case classOf S d of Some t \<Rightarrow> t | None \<Rightarrow> Safe) (\<Union>c \<in> set cs. asked d c))) else classOf S d)"
  using assms
proof (induction cs arbitrary: S)
  case (Cons c cs)
  then obtain T where T: "analyse c S = Some T" "analyse_all cs T = Some S'" by (auto simp: bind_eq_Some_conv)
  have n: "asked d c = {}" if "call_key c \<noteq> d" for c using that by (cases c) auto
  show ?case
  proof (cases "call_key c = d")
    case True
    let ?x = "case classOf S d of Some t \<Rightarrow> t | None \<Rightarrow> Safe"
    have t: "classOf T d = Some (Max (insert ?x (asked d c)))" using classOf_analyse [OF T(1)] True by simp
    have "(\<Union>c \<in> set cs. asked d c) = {}" if d: "d \<notin> call_key ` set cs"
    proof -
      have "asked d c' = {}" if "c' \<in> set cs" for c' using n [of c'] that d by blast
      then show ?thesis by simp
    qed
    with Cons.IH [OF T(2)] t True Max_insert_Un [of "asked d c" "\<Union>c \<in> set cs. asked d c" ?x] show ?thesis
      by auto
  next
    case False
    with classOf_analyse [OF T(1)] have "classOf T d = classOf S d" by simp
    with Cons.IH [OF T(2)] n [OF False] False show ?thesis by simp
  qed
qed simp

lemma distinct_modify [simp]: "distinct (map fst (Variables S)) \<Longrightarrow> distinct (map fst (Variables (modify d f S)))"
  by (simp add: modify_def distinct_update)

lemma distinct_analyse:
  "analyse c S = Some S' \<Longrightarrow> distinct (map fst (Variables S)) \<Longrightarrow> distinct (map fst (Variables S'))"
  by (cases c) (auto simp: RegisterVariable_def ClassifyPointerVariable_def SetSizeForPointerVariable_def
    SetExplicitSizeVariableForPointerVariable_def SetInstantiatedExplicitSizeVariable_def SetHasMetadataTableEntry_def)

lemma distinct_analyse_all:
  "analyse_all cs S = Some S' \<Longrightarrow> distinct (map fst (Variables S)) \<Longrightarrow> distinct (map fst (Variables S'))"
  by (induction cs arbitrary: S) (auto simp: bind_eq_Some_conv dest: distinct_analyse)

lemma analyse_all_total: "\<exists>S'. analyse_all cs S = Some S'"
proof (induction cs arbitrary: S)
  case (Cons c cs)
  have "\<exists>T. analyse c S = Some T" by (cases c) (auto simp: SetExplicitSizeVariableForPointerVariable_def)
  with Cons show ?case by auto
qed simp

text \<open>
  (C35) The classification of pointers is well defined: whatever calls an analysis makes and
  in whatever order, they all succeed and a variable ends up with the largest of the
  classifications that were asked for it, and at least \<open>Safe\<close>; a variable that no call
  mentions stays unclassified.
\<close>

theorem analysis_infers_join:
  "\<exists>S. analyse_all cs (empty_analysis z) = Some S
    \<and> (\<forall>d. map_option classification (GetPointerVariableInfo False d S) = inferred d cs)"
proof -
  obtain S where S: "analyse_all cs (empty_analysis z) = Some S" using analyse_all_total by blast
  have "map_option classification (GetPointerVariableInfo False d S) = inferred d cs" for d
    using classOf_analyse_all [OF S, of d]
    by (simp add: GetPointerVariableInfo_def inferred_def classOf_def empty_analysis_def)
  with S show ?thesis by blast
qed

lemma count_pointers_total:
  "\<forall>(d, i) \<in> set vs. classification i \<noteq> Unknown \<Longrightarrow> count_pointers vs (a, b, c, m) = (a', b', c', m') \<Longrightarrow>
     a' + b' + c' = a + b + c + length vs"
proof (induction vs arbitrary: a b c m)
  case (Cons v vs)
  obtain d i where v: "v = (d, i)" by (cases v)
  from Cons.prems(1) v have "classification i \<noteq> Unknown" by auto
  then show ?case using Cons v by (cases "classification i") (auto simp: Let_def)
qed simp

text \<open>
  (C36) The statistics add up: after any analysis the safe, sequence and dynamic pointers
  that \<open>GetVariablesStateAsString\<close> counts are together all the pointer variables, and
  these are the variables that some call mentions; none is left \<open>Unknown\<close>.
\<close>

theorem analysis_counts_partition:
  assumes "analyse_all cs (empty_analysis z) = Some S"
  shows "(case GetVariablesStateAsString S of (safe, seq, dyn, meta) \<Rightarrow>
      safe + seq + dyn = length (Variables S)) \<and> set (map fst (Variables S)) = call_key ` set cs \<and> distinct (map fst (Variables S))"
proof -
  have c: "classOf S d = inferred d cs" for d
    using classOf_analyse_all [OF assms, of d] by (simp add: inferred_def classOf_def empty_analysis_def)
  have dist: "distinct (map fst (Variables S))" using distinct_analyse_all [OF assms] by (simp add: empty_analysis_def)
  have "classification i \<noteq> Unknown" if "(d, i) \<in> set (Variables S)" for d i
  proof -
    have "classOf S d = Some (classification i)" using that dist by (simp add: classOf_def map_of_is_SomeI)
    with c [of d] have "classification i = Max (insert Safe (\<Union>c \<in> set cs. asked d c))" by (auto simp: inferred_def split: if_splits)
    then have "Safe \<le> classification i" by simp
    then show ?thesis by (auto simp: less_eq_variableStates_def)
  qed
  then have n: "\<forall>(d, i) \<in> set (Variables S). classification i \<noteq> Unknown" by auto
  have "d \<in> fst ` set (Variables S) \<longleftrightarrow> classOf S d \<noteq> None" for d
    by (simp add: classOf_def flip: dom_map_of_conv_image_fst) (simp add: domIff)
  then have "d \<in> fst ` set (Variables S) \<longleftrightarrow> d \<in> call_key ` set cs" for d by (simp add: c inferred_def)
  then have "fst ` set (Variables S) = call_key ` set cs" by blast
  moreover have "case GetVariablesStateAsString S of (safe, seq, dyn, meta) \<Rightarrow> safe + seq + dyn = length (Variables S)"
    using count_pointers_total [OF n] by (auto simp: GetVariablesStateAsString_def split: prod.splits)
  ultimately show ?thesis using dist by simp
qed

theorem analysis_counts_partition_witness:
  "\<exists>S. analyse_all [Register 1, Classify 2 Seq, Classify 1 Dyn, Classify 2 Safe, SetMetadata 3] (empty_analysis 0) = Some S
    \<and> (case GetVariablesStateAsString S of (safe, seq, dyn, meta) \<Rightarrow> safe + seq + dyn = length (Variables S))"
proof -
  obtain S where S: "analyse_all [Register 1, Classify 2 Seq, Classify 1 Dyn, Classify 2 Safe, SetMetadata 3] (empty_analysis 0) = Some S"
    using analyse_all_total by blast
  from S conjunct1 [OF analysis_counts_partition [OF S]] show ?thesis by (intro exI [of _ S] conjI)
qed

section \<open>The run-time table of sizes\<close>

text \<open>
  The table of \<open>neschecklib.c\<close>: a growing array of pointers to entries, modelled as the
  list of entries. \<open>malloc_ok\<close> says whether the allocations of a call succeed; their
  results are used unchecked. The loop counter is an \<open>int\<close>, so the table is taken to have
  fewer than \<open>2^31\<close> entries.
\<close>

record metadata_table_entry =
  mt_ptr :: "64 word"
  mt_size :: "64 word"

fun findMetadataTableEntry :: "64 word \<Rightarrow> metadata_table_entry list \<Rightarrow> nat option" where
  "findMetadataTableEntry p [] = None"
| "findMetadataTableEntry p (e # es) =
     (if mt_ptr e = p then Some 0 else map_option Suc (findMetadataTableEntry p es))"

definition setMetadataTableEntry ::
  "bool \<Rightarrow> 64 word \<Rightarrow> 64 word \<Rightarrow> metadata_table_entry list \<Rightarrow> metadata_table_entry list option" where
  "setMetadataTableEntry malloc_ok p sz table =
     (case findMetadataTableEntry p table of
        None \<Rightarrow> if malloc_ok then Some (table @ [\<lparr>mt_ptr = p, mt_size = sz\<rparr>]) else None
      | Some i \<Rightarrow> Some (table[i := (table ! i)\<lparr>mt_size := sz\<rparr>]))"

definition lookupMetadataTableEntry :: "64 word \<Rightarrow> metadata_table_entry list \<Rightarrow> 64 word" where
  "lookupMetadataTableEntry p table =
     (case findMetadataTableEntry p table of None \<Rightarrow> 0 | Some i \<Rightarrow> mt_size (table ! i))"

lemma findMetadataTableEntry_Some:
  "findMetadataTableEntry p table = Some i \<Longrightarrow> i < length table \<and> mt_ptr (table ! i) = p"
  by (induction table arbitrary: i) (auto split: if_splits)

lemma find_append:
  "findMetadataTableEntry p (table @ [e]) =
     (case findMetadataTableEntry p table of Some i \<Rightarrow> Some i
      | None \<Rightarrow> if mt_ptr e = p then Some (length table) else None)"
  by (induction table) (auto split: option.splits)

lemma find_update:
  "mt_ptr e = mt_ptr (table ! i) \<Longrightarrow> i < length table \<Longrightarrow> findMetadataTableEntry p (table[i := e]) = findMetadataTableEntry p table"
  by (induction table arbitrary: i) (auto split: nat.splits)

text \<open>
  (C37) The run-time table of sizes is a map: after an entry is set, its pointer has the new
  size and every other pointer the size it had, whether the entry is new or overwritten; a
  pointer without an entry has size 0.
\<close>

theorem metadata_table_is_map:
  assumes "setMetadataTableEntry malloc_ok p sz table = Some table'"
  shows "lookupMetadataTableEntry q table' = (if q = p then sz else lookupMetadataTableEntry q table)"
    (is "?l = ?r")
proof (cases "findMetadataTableEntry p table")
  case None
  then have t: "table' = table @ [\<lparr>mt_ptr = p, mt_size = sz\<rparr>]"
    using assms by (auto simp: setMetadataTableEntry_def split: if_splits)
  show ?thesis
    using None findMetadataTableEntry_Some [of q table]
    by (auto simp: t lookupMetadataTableEntry_def find_append nth_append split: option.splits)
next
  case (Some i)
  then have t: "table' = table[i := (table ! i)\<lparr>mt_size := sz\<rparr>]" using assms by (simp add: setMetadataTableEntry_def)
  note pi = Some
  have i: "i < length table" "mt_ptr (table ! i) = p" using findMetadataTableEntry_Some [OF Some] by auto
  then have f: "findMetadataTableEntry r table' = findMetadataTableEntry r table" for r
    by (simp add: t find_update)
  show ?thesis
  proof (cases "findMetadataTableEntry q table")
    case None
    with Some have "q \<noteq> p" by auto
    with None show ?thesis by (simp add: lookupMetadataTableEntry_def f)
  next
    case (Some j)
    then have j: "j < length table" "mt_ptr (table ! j) = q" using findMetadataTableEntry_Some by auto
    have "i = j \<longleftrightarrow> q = p" by (metis Some pi i(2) j(2) option.inject)
    then have "mt_size (table' ! j) = (if q = p then sz else mt_size (table ! j))"
      using j(1) by (cases "i = j") (simp_all add: t)
    then show ?thesis using Some by (simp add: lookupMetadataTableEntry_def f)
  qed
qed

theorem metadata_table_is_map_witness:
  "case setMetadataTableEntry True 16 8 [\<lparr>mt_ptr = 32, mt_size = 4\<rparr>] of
     None \<Rightarrow> False | Some t \<Rightarrow> lookupMetadataTableEntry 16 t = 8 \<and> lookupMetadataTableEntry 32 t = 4"
proof -
  obtain t where t: "setMetadataTableEntry True 16 8 [\<lparr>mt_ptr = 32, mt_size = 4\<rparr>] = Some t"
    by (simp add: setMetadataTableEntry_def)
  have "lookupMetadataTableEntry 32 [\<lparr>mt_ptr = 32, mt_size = 4\<rparr>] = 4" by (simp add: lookupMetadataTableEntry_def)
  with metadata_table_is_map [OF t, of 16] metadata_table_is_map [OF t, of 32] t show ?thesis by simp
qed

end
