(* ===== verification/Const_Division.thy ===== *)
theory Const_Division
  imports Bits
begin

text \<open>
  \<open>lib/Solver/ConstantDivision.cpp\<close>: the constants with which a multiplication by a
  constant becomes shifts and additions, and a division by a constant becomes a
  multiplication. Words have the width of the code's types.
\<close>

section \<open>Bit counting\<close>

definition ones :: "32 word \<Rightarrow> 32 word" where
  "ones x = (
     let x = x - (drop_bit 1 x AND 0x55555555);
         x = (drop_bit 2 x AND 0x33333333) + (x AND 0x33333333);
         x = (drop_bit 4 x + x) AND 0x0f0f0f0f;
         x = x + drop_bit 8 x;
         x = x + drop_bit 16 x
     in x AND 0x3f)"

definition ldz :: "32 word \<Rightarrow> 32 word" where
  "ldz x = (
     let x = x OR drop_bit 1 x;
         x = x OR drop_bit 2 x;
         x = x OR drop_bit 4 x;
         x = x OR drop_bit 8 x;
         x = x OR drop_bit 16 x
     in 32 - ones x)"

definition LOG2_CEIL :: "32 word \<Rightarrow> 32 word" where
  "LOG2_CEIL x = 32 - ldz (x - 1)"

text \<open>
  For \<open>n = 32\<close> the code shifts \<open>0\<close> by 32, which C leaves undefined; the model takes the
  value \<open>0\<close> that the hardware gives.
\<close>

definition exp_base_2 :: "32 word \<Rightarrow> 32 word" where
  "exp_base_2 n = (
     let x = NOT n AND (n - 32);
         x = drop_bit 31 x
     in push_bit (unat n) x)"

section \<open>Constants\<close>

text \<open>What a run of ones from bit \<open>low\<close> up to bit \<open>high\<close> contributes.\<close>

definition mult_run :: "nat \<Rightarrow> nat \<Rightarrow> 64 word \<Rightarrow> 64 word \<Rightarrow> 64 word \<times> 64 word" where
  "mult_run low high add sub = (
     let lowbit = push_bit low 1 in
     if high = low + 1 then (add OR lowbit, sub)
     else
       let (add, sub) =
         (if low \<noteq> 0 \<and> add AND drop_bit 1 lowbit \<noteq> 0
          then (add XOR drop_bit 1 lowbit, sub XOR drop_bit 1 lowbit)
          else (add, sub OR lowbit))
       in (if high \<noteq> 64 then add OR push_bit high 1 else add, sub))"

function ComputeMultConstants64_loop :: "64 word \<Rightarrow> 64 word \<Rightarrow> 64 word \<Rightarrow> (64 word \<times> 64 word) option" where
  "ComputeMultConstants64_loop x add sub =
     (if x = 0 then Some (add, sub)
      else do {
        low \<leftarrow> countTrailingZeroes x;
        let lowbit = push_bit low 1;
        let p = x + lowbit;
        let q = bits64_isolateRightmostBit p;
        high \<leftarrow> (if q \<noteq> 0 then bits64_indexOfSingleBit q else Some 64);
        let (add, sub) = mult_run low high add sub;
        ComputeMultConstants64_loop (p XOR q) add sub
      })"
  by pat_completeness auto

definition ComputeMultConstants64 :: "64 word \<Rightarrow> (64 word \<times> 64 word) option" where
  "ComputeMultConstants64 multiplicand = do {
     (add, sub) \<leftarrow> ComputeMultConstants64_loop multiplicand 0 0;
     assert_that (multiplicand = add - sub);
     Some (add, sub)
   }"

definition ComputeUDivConstants32 :: "32 word \<Rightarrow> 32 word \<times> 32 word \<times> 32 word" where
  "ComputeUDivConstants32 d = (
     let l = LOG2_CEIL d;
         mid = exp_base_2 l - d;
         mprime = ucast ((0x100000000 * ucast mid) div ucast d + 1 :: 64 word);
         sh1 = of_int (min (sint l) 1);
         sh2 = of_int (max (sint l - 1) 0)
     in (mprime, sh1, sh2))"

text \<open>\<open>d\<close> and the results are signed; \<open>XSIGN(d)\<close> is the arithmetic shift of the sign bit.\<close>

definition ComputeSDivConstants32 :: "32 word \<Rightarrow> 32 word \<times> 32 word \<times> 32 word" where
  "ComputeSDivConstants32 d = (
     let abs_d = (word_of_int \<bar>sint d\<bar> :: 64 word);
         l = max 1 (LOG2_CEIL (ucast abs_d));
         l = (if abs_d = 0x80000000 then 31 else l);
         mid = exp_base_2 (l - 1);
         m = (0x100000000 * ucast mid) div abs_d + 1;
         mprime = ucast (m - 0x100000000);
         dsign = signed_drop_bit 31 d;
         shpost = l - 1
     in (mprime, dsign, shpost))"

section \<open>Multiplication constants\<close>

declare push_bit_of_1 [simp del]

lemma unat_push_bit_1: "n < LENGTH('a) \<Longrightarrow> unat (push_bit n 1 :: 'a :: len word) = 2 ^ n"
  unfolding unsigned_push_bit_eq by (simp add: push_bit_eq_mult take_bit_eq_mod)

text \<open>One step of the loop: \<open>p\<close> carries over the lowest run of ones and \<open>q\<close> is the carry.\<close>

lemma mult_step:
  fixes x :: "64 word"
  assumes low: "bit x low" "\<And>j. j < low \<Longrightarrow> \<not> bit x j"
  defines "p \<equiv> x + push_bit low 1"
  defines "q \<equiv> p AND - p"
  shows "p XOR q = x + push_bit low 1 - q" "p XOR q < x"
    and "q = 0 \<and> p XOR q = 0 \<or> (\<exists>high. low < high \<and> high < 64 \<and> q = push_bit high 1 \<and> (\<forall>j \<le> high. \<not> bit (p XOR q) j))"
proof -
  have nz: "x \<noteq> 0" using low(1) by auto
  have l64: "low < 64" using low(1) bit_imp_le_length [of x low] by simp
  have low_p: "\<not> bit p j" if "j \<le> low" for j
  proof -
    obtain i where i: "bit x i" "\<And>j. j < i \<Longrightarrow> \<not> bit x j" "x = push_bit (Suc i) (drop_bit (Suc i) x) + push_bit i 1"
      using lowest_bit [OF nz] by metis
    then have "i = low" using low by (meson linorder_neqE_nat)
    with i(3) have "p = push_bit (Suc low) (drop_bit (Suc low) x + 1)"
      unfolding p_def by (metis (no_types, lifting) add.assoc mult_2 mult.commute push_bit_add push_bit_Suc push_bit_eq_mult mult_2_right distrib_right power_Suc)
    with that show ?thesis by (simp add: bit_simps del: push_bit_Suc)
  qed
  have pq: "p XOR q = p - q \<and> (q = 0 \<and> p = 0 \<or>
      (\<exists>high. low < high \<and> high < 64 \<and> bit p high \<and> q = push_bit high 1 \<and> (\<forall>j \<le> high. \<not> bit (p XOR q) j)))"
  proof (cases "p = 0")
    case True
    then show ?thesis by (simp add: q_def)
  next
    case False
    then obtain high where h: "high < LENGTH(64)" "bit p high" "\<And>j. j < high \<Longrightarrow> \<not> bit p j"
      using lowest_bit by metis
    have q: "q = push_bit high 1" unfolding q_def by (rule isolate_rightmost) (use h in auto)
    have "low < high" using low_p h(2) by (meson leI)
    moreover have "p XOR q = p - q"
    proof -
      have "(p XOR q) AND q = 0" "(p XOR q) OR q = p"
        using h(2) by (auto intro!: bit_word_eqI simp: q bit_simps)
      then have "(p XOR q) + q = p" by (simp add: disjunctive_add_eq_or)
      then show ?thesis by (simp add: algebra_simps)
    qed
    moreover have "\<forall>j \<le> high. \<not> bit (p XOR q) j"
      using h by (auto simp: q bit_simps le_less)
    ultimately show ?thesis using h q by auto
  qed
  show "p XOR q = x + push_bit low 1 - q" using pq by (simp add: p_def)
  show "q = 0 \<and> p XOR q = 0 \<or> (\<exists>high. low < high \<and> high < 64 \<and> q = push_bit high 1 \<and> (\<forall>j \<le> high. \<not> bit (p XOR q) j))"
    using pq by auto
  show "p XOR q < x"
  proof (cases "p = 0")
    case True
    then show ?thesis using nz by (simp add: q_def word_gt_0)
  next
    case False
    then obtain high where h: "low < high" "high < 64" "bit p high" "q = push_bit high 1"
      using pq by auto
    have qp: "q \<le> p"
    proof -
      have "p AND q = q" using h by (intro bit_word_eqI) (auto simp: bit_simps)
      then show ?thesis by (metis word_and_le2)
    qed
    have uq: "unat q = 2 ^ high" "unat (push_bit low 1 :: 64 word) = 2 ^ low"
      using h l64 unat_push_bit_1 [where 'a = 64, of high] unat_push_bit_1 [where 'a = 64, of low] by (simp_all add: h(4))
    have "unat p \<le> unat x + 2 ^ low"
      unfolding p_def unat_plus_if' using uq by simp
    moreover have "unat (p - q) = unat p - unat q" using qp by (rule unat_sub)
    moreover have "(2 :: nat) ^ low < 2 ^ high" using h by simp
    moreover have "unat q \<le> unat p" using qp by (simp add: word_le_nat_alt)
    ultimately have "unat (p - q) < unat x" using uq(1) by linarith
    then show ?thesis using pq by (simp add: word_less_nat_alt)
  qed
qed

termination ComputeMultConstants64_loop
proof (relation "measure (\<lambda>(x, add, sub). unat x)")
  fix x :: "64 word" and low high :: nat and p q lowbit add sub a b
  assume x: "x \<noteq> 0" and l: "countTrailingZeroes x = Some low"
    and d: "lowbit = push_bit low 1" "p = x + lowbit" "q = bits64_isolateRightmostBit p"
  obtain i where i: "countTrailingZeroes x = Some i" "bit x i" "\<And>j. j < i \<Longrightarrow> \<not> bit x j"
    using countTrailingZeroes_Some [OF x] by metis
  then have "i = low" using l by simp
  with i mult_step(2) [of x low] d have "p XOR q < x" by (simp add: bits64_isolateRightmostBit_def)
  then show "((p XOR q, a, b), x, add, sub) \<in> measure (\<lambda>(x, add, sub). unat x)"
    by (simp add: word_less_nat_alt)
qed simp

declare ComputeMultConstants64_loop.simps [simp del]

text \<open>
  The invariant of the loop: all bits of \<open>add\<close> and \<open>sub\<close> are below those of \<open>x\<close>, no bit
  is in both, and the difference with \<open>x\<close> is the multiplicand.
\<close>

definition mult_inv :: "64 word \<Rightarrow> 64 word \<Rightarrow> 64 word \<Rightarrow> 64 word \<Rightarrow> bool" where
  "mult_inv m x add sub \<longleftrightarrow> m = add - sub + x \<and> add AND sub = 0
     \<and> (\<forall>i j. bit x i \<longrightarrow> bit add j \<or> bit sub j \<longrightarrow> j < i)"

lemma or_disjoint_bit:
  fixes a :: "64 word"
  assumes "\<not> bit a n" "n < 64"
  shows "a OR push_bit n 1 = a + push_bit n 1" "a XOR push_bit n 1 = a + push_bit n 1"
proof -
  have z: "a AND push_bit n 1 = 0" using assms by (intro bit_word_eqI) (auto simp: bit_simps)
  show "a OR push_bit n 1 = a + push_bit n 1" using disjunctive_add_eq_or [OF z] by simp
  show "a XOR push_bit n 1 = a + push_bit n 1" using disjunctive_add_eq_xor [OF z] by simp
qed

lemma xor_bit_set:
  fixes a :: "64 word"
  assumes "bit a n"
  shows "a XOR push_bit n 1 = a - push_bit n 1"
proof -
  have n: "n < 64" using assms bit_imp_le_length [of a n] by simp
  have "\<not> bit (a XOR push_bit n 1) n" using assms n by (simp add: bit_simps)
  from or_disjoint_bit(2) [OF this n] have "a = (a XOR push_bit n 1) + push_bit n 1" by (simp add: xor.assoc)
  then show ?thesis by (metis add_diff_cancel_right')
qed

lemma bit_push_bit_1 [simp]: "bit (push_bit n 1 :: 64 word) j \<longleftrightarrow> j = n \<and> n < 64"
  by (auto simp: bit_simps)

lemma word_disjoint_iff: "(a :: 64 word) AND b = 0 \<longleftrightarrow> (\<forall>n. \<not> (bit a n \<and> bit b n))"
  using bit_imp_le_length [of a] by (auto simp: bit_eq_iff bit_and_iff)

text \<open>The subtraction of the low bit, with the optimisation of an adjacent addition.\<close>

lemma sub_low_bit:
  assumes below: "\<And>j. bit add j \<or> bit sub j \<Longrightarrow> j < low" and disj: "add AND sub = 0" and low: "low < 64"
    and r: "(add1, sub1) = (if low \<noteq> 0 \<and> add AND drop_bit 1 (push_bit low 1) \<noteq> 0
       then (add XOR drop_bit 1 (push_bit low 1), sub XOR drop_bit 1 (push_bit low 1)) else (add, sub OR push_bit low 1))"
  shows "add1 - sub1 = add - sub - push_bit low (1 :: 64 word)" "add1 AND sub1 = 0"
    "\<And>j. bit add1 j \<Longrightarrow> j < low" "\<And>j. bit sub1 j \<Longrightarrow> j \<le> low"
proof -
  have "add1 - sub1 = add - sub - push_bit low (1 :: 64 word) \<and> add1 AND sub1 = 0
      \<and> (\<forall>j. bit add1 j \<longrightarrow> j < low) \<and> (\<forall>j. bit sub1 j \<longrightarrow> j \<le> low)"
  proof (cases "low \<noteq> 0 \<and> add AND drop_bit 1 (push_bit low 1) \<noteq> 0")
    case True
    define b where "b = (push_bit (low - 1) 1 :: 64 word)"
    have d: "drop_bit 1 (push_bit low 1) = b"
      unfolding b_def using low True by (intro bit_word_eqI) (auto simp: bit_simps)
    have r': "add1 = add XOR b" "sub1 = sub XOR b" using r [unfolded d] True [unfolded d] by simp_all
    have dis: "\<not> (bit add n \<and> bit sub n)" for n using disj by (simp add: word_disjoint_iff)
    have bb: "bit b j \<longleftrightarrow> j = low - 1" for j using low by (auto simp: b_def)
    obtain n where "bit add n" "bit b n" using True [unfolded d] by (auto simp: word_disjoint_iff)
    then have ba: "bit add (low - 1)" by (simp add: bb)
    then have bs: "\<not> bit sub (low - 1)" using dis by blast
    have v: "add XOR b = add - b" "sub XOR b = sub + b"
      using xor_bit_set [OF ba] or_disjoint_bit(2) [OF bs] low by (simp_all add: b_def)
    have bb2: "b + b = push_bit low 1"
      using True by (cases low) (simp_all add: b_def push_bit_eq_mult)
    have "add1 - sub1 = add - sub - (b + b)" unfolding r' v by simp
    then have "add1 - sub1 = add - sub - push_bit low 1" unfolding bb2 .
    moreover have "(bit add1 j \<longrightarrow> j < low) \<and> (bit sub1 j \<longrightarrow> j < low) \<and> \<not> (bit add1 j \<and> bit sub1 j)" for j
      by (cases "j = low - 1") (use below [of j] dis [of j] conjunct1 [OF True] ba bs in \<open>simp_all add: r' bit_xor_iff bb ba bs\<close>)
    ultimately show ?thesis unfolding word_disjoint_iff by (meson less_imp_le)
  next
    case False
    have r': "add1 = add" "sub1 = sub OR push_bit low 1" using r unfolding if_not_P [OF False] by simp_all
    have n: "\<not> bit sub low" "\<not> bit add low" using below [of low] by auto
    have dis: "\<not> (bit add n \<and> bit sub n)" for n using disj by (simp add: word_disjoint_iff)
    have "add1 - sub1 = add - sub - push_bit low 1"
      using or_disjoint_bit(1) [OF n(1) low] by (simp add: r' algebra_simps)
    moreover have "bit add1 j \<Longrightarrow> j < low" "bit sub1 j \<Longrightarrow> j \<le> low" "\<not> (bit add1 j \<and> bit sub1 j)" for j
      using below [of j] dis [of j] n by (auto simp: r' bit_or_iff)
    ultimately show ?thesis by (auto simp: word_disjoint_iff)
  qed
  then show "add1 - sub1 = add - sub - push_bit low (1 :: 64 word)" "add1 AND sub1 = 0"
    "\<And>j. bit add1 j \<Longrightarrow> j < low" "\<And>j. bit sub1 j \<Longrightarrow> j \<le> low" by auto
qed

lemma push_bit_1_nz: "n < 64 \<Longrightarrow> push_bit n (1 :: 64 word) \<noteq> 0"
  using unat_push_bit_1 [of n, where 'a = 64] by (auto simp: push_bit_eq_mult)

lemma mult_run_ok:
  assumes below: "\<And>j. bit add j \<or> bit sub j \<Longrightarrow> j < low" and disj: "add AND sub = 0"
    and lh: "low < high" "high \<le> 64" and r: "mult_run low high add sub = (a, s)"
  shows "a - s = add - sub + push_bit high 1 - push_bit low 1" "a AND s = 0" "\<And>j. bit a j \<or> bit s j \<Longrightarrow> j \<le> high"
proof -
  have low: "low < 64" using lh by simp
  have "a - s = add - sub + push_bit high 1 - push_bit low 1 \<and> a AND s = 0 \<and> (\<forall>j. bit a j \<or> bit s j \<longrightarrow> j \<le> high)"
  proof (cases "high = low + 1")
    case True
    then have as: "a = add OR push_bit low 1" "s = sub" using r by (simp_all add: mult_run_def Let_def)
    have n: "\<not> bit add low" "\<not> bit sub low" using below [of low] by auto
    have "(push_bit high 1 :: 64 word) = push_bit low 1 + push_bit low 1" by (simp add: True push_bit_eq_mult)
    then have "a - s = add - sub + push_bit high 1 - push_bit low 1"
      using or_disjoint_bit(1) [OF n(1) low] by (simp add: as algebra_simps)
    moreover have "bit a j \<Longrightarrow> j \<le> high" "bit s j \<Longrightarrow> j \<le> high" "\<not> (bit a j \<and> bit s j)" for j
      using below [of j] n disj True by (auto simp: as bit_or_iff word_disjoint_iff)
    ultimately show ?thesis by (auto simp: word_disjoint_iff)
  next
    case False
    obtain add1 sub1 where r1: "(add1, sub1) = (if low \<noteq> 0 \<and> add AND drop_bit 1 (push_bit low 1) \<noteq> 0
        then (add XOR drop_bit 1 (push_bit low 1), sub XOR drop_bit 1 (push_bit low 1)) else (add, sub OR push_bit low 1))"
      by (metis surj_pair)
    have s1: "add1 - sub1 = add - sub - push_bit low 1" "add1 AND sub1 = 0" "bit add1 j \<Longrightarrow> j < low" "bit sub1 j \<Longrightarrow> j \<le> low" for j
      using sub_low_bit [OF _ disj low r1] below by blast+
    have as: "a = (if high \<noteq> 64 then add1 OR push_bit high 1 else add1)" "s = sub1"
      using r [unfolded mult_run_def Let_def, folded r1] False by simp_all
    have nh: "\<not> bit add1 high" "\<not> bit sub1 high" using s1(3,4) [of high] lh by auto
    have "a = add1 + push_bit high 1"
    proof (cases "high = 64")
      case True
      then have "(push_bit high 1 :: 64 word) = 0" by (intro bit_word_eqI) simp
      with True show ?thesis by (simp add: as)
    next
      case False
      with or_disjoint_bit(1) [OF nh(1)] lh show ?thesis by (simp add: as)
    qed
    then have "a - s = add - sub + push_bit high 1 - push_bit low 1" using s1(1) by (simp add: as(2) algebra_simps)
    moreover have "bit a j \<Longrightarrow> j \<le> high" "bit s j \<Longrightarrow> j \<le> high" "\<not> (bit a j \<and> bit s j)" for j
      using s1(2) s1(3,4) [of j] nh lh by (auto simp: as bit_or_iff word_disjoint_iff split: if_splits)
    ultimately show ?thesis by (auto simp: word_disjoint_iff)
  qed
  then show "a - s = add - sub + push_bit high 1 - push_bit low 1" "a AND s = 0" "\<And>j. bit a j \<or> bit s j \<Longrightarrow> j \<le> high"
    by auto
qed

lemma mult_invI:
  assumes "mult_inv m x add sub" "x' = x + b - q" "add' - sub' = add - sub + q - b" "add' AND sub' = 0"
    and "\<And>i j. bit x' i \<Longrightarrow> bit add' j \<or> bit sub' j \<Longrightarrow> j < i"
  shows "mult_inv m x' add' sub'"
proof -
  have "add' - sub' + x' = add - sub + x" by (simp add: assms(2,3))
  with assms(1,4,5) show ?thesis unfolding mult_inv_def by metis
qed

lemma mult_loop_ok:
  "mult_inv m x add sub \<Longrightarrow> \<exists>a s. ComputeMultConstants64_loop x add sub = Some (a, s) \<and> m = a - s \<and> a AND s = 0"
proof (induction x add sub rule: ComputeMultConstants64_loop.induct)
  case (1 x add sub)
  show ?case
  proof (cases "x = 0")
    case True
    with 1(2) show ?thesis by (subst ComputeMultConstants64_loop.simps) (auto simp: mult_inv_def)
  next
    case False
    obtain low where low: "countTrailingZeroes x = Some low" "low < 64" "bit x low" "\<forall>j < low. \<not> bit x j"
      using countTrailingZeroes_Some [OF False] by metis
    define b p q where "b = (push_bit low 1 :: 64 word)" and "p = x + b" and "q = bits64_isolateRightmostBit p"
    have st: "p XOR q = x + b - q"
      "q = 0 \<and> p XOR q = 0 \<or> (\<exists>high. low < high \<and> high < 64 \<and> q = push_bit high 1 \<and> (\<forall>j \<le> high. \<not> bit (p XOR q) j))"
      unfolding p_def q_def b_def bits64_isolateRightmostBit_def
      by (rule mult_step(1) [OF low(3)] mult_step(3) [OF low(3)]; use low(4) in blast)+
    obtain high where high: "low < high" "q = push_bit high 1" "(if q \<noteq> 0 then bits64_indexOfSingleBit q else Some 64) = Some high"
        "\<forall>j \<le> high. \<not> bit (p XOR q) j" "high \<le> 64"
    proof (cases "q = 0")
      case True
      then have "p XOR q = 0" using st(2) push_bit_1_nz by auto
      moreover have "(push_bit 64 1 :: 64 word) = 0" by (intro bit_word_eqI) simp
      ultimately show ?thesis using True low(2) by (intro that [of 64]) simp_all
    next
      case False
      with st(2) obtain h where "low < h" "h < 64" "q = push_bit h 1" "\<forall>j \<le> h. \<not> bit (p XOR q) j" by auto
      with False bits64_indexOfSingleBit_pow [of h] show ?thesis by (intro that [of h]) auto
    qed
    have below: "bit add j \<or> bit sub j \<Longrightarrow> j < low" for j using 1(2) low(3) by (auto simp: mult_inv_def)
    have disj: "add AND sub = 0" using 1(2) by (simp add: mult_inv_def)
    obtain a1 s1 where r: "mult_run low high add sub = (a1, s1)" by (cases "mult_run low high add sub")
    have ok: "a1 - s1 = add - sub + push_bit high 1 - push_bit low 1" "a1 AND s1 = 0" "bit a1 j \<or> bit s1 j \<Longrightarrow> j \<le> high" for j
      using mult_run_ok [OF _ disj high(1,5) r] below by blast+
    have "mult_inv m (p XOR q) a1 s1"
    proof (rule mult_invI [OF 1(2) st(1)])
      show "a1 - s1 = add - sub + q - b" using ok(1) by (simp add: high(2) b_def)
      show "j < i" if "bit (p XOR q) i" "bit a1 j \<or> bit s1 j" for i j
        using ok(3) [OF that(2)] high(4) that(1) by (meson leI le_less_trans)
    qed (rule ok(2))
    then have "\<exists>a s. ComputeMultConstants64_loop (p XOR q) a1 s1 = Some (a, s) \<and> m = a - s \<and> a AND s = 0"
      by (rule 1(1) [OF False low(1) b_def p_def q_def high(3) r [symmetric] refl])
    moreover have "ComputeMultConstants64_loop x add sub = ComputeMultConstants64_loop (p XOR q) a1 s1"
      using False low(1) high(3) r
      by (subst ComputeMultConstants64_loop.simps) (simp add: Let_def b_def [symmetric] p_def [symmetric] q_def [symmetric] split: if_splits)
    ultimately show ?thesis by simp
  qed
qed

section \<open>Division constants\<close>

lemma smear_bits:
  fixes x :: "32 word"
  assumes "i < 32"
  defines "a \<equiv> x OR drop_bit 1 x"
  defines "b \<equiv> a OR drop_bit 2 a"
  defines "c \<equiv> b OR drop_bit 4 b"
  defines "d \<equiv> c OR drop_bit 8 c"
  shows "bit (d OR drop_bit 16 d) i \<longleftrightarrow> (\<exists>j \<ge> i. bit x j)"
proof
  assume "bit (d OR drop_bit 16 d) i"
  then have "\<exists>j \<ge> i. bit (d OR drop_bit 16 d) j" by auto
  moreover have "\<exists>j \<ge> i. bit y j" if "\<exists>j \<ge> i. bit (y OR drop_bit n y) j" for n and y :: "32 word"
    using that by (auto simp: bit_or_iff bit_drop_bit_eq) (meson trans_le_add2)
  ultimately show "\<exists>j \<ge> i. bit x j" unfolding a_def b_def c_def d_def by blast
next
  have step: "bit (y OR drop_bit n y) i" if y: "\<And>i k. k < n \<Longrightarrow> bit x (i + k) \<Longrightarrow> bit y i" and k: "k < 2 * n" "bit x (i + k)"
    for n k i and y :: "32 word"
  proof (cases "k < n")
    case True
    with y [OF True k(2)] show ?thesis by (simp add: bit_or_iff)
  next
    case False
    then have "n + i + (k - n) = i + k" by simp
    with y [of "k - n" "n + i"] k False show ?thesis by (simp add: bit_or_iff bit_drop_bit_eq)
  qed
  have a: "bit a i" if "k < 2" "bit x (i + k)" for k i
    unfolding a_def by (rule step [of 1]) (use that in auto)
  have b: "bit b i" if "k < 4" "bit x (i + k)" for k i
    unfolding b_def by (rule step [of 2, OF a]) (use that in auto)
  have c: "bit c i" if "k < 8" "bit x (i + k)" for k i
    unfolding c_def by (rule step [of 4, OF b]) (use that in auto)
  have d: "bit d i" if "k < 16" "bit x (i + k)" for k i
    unfolding d_def by (rule step [of 8, OF c]) (use that in auto)
  assume "\<exists>j \<ge> i. bit x j"
  then obtain j where j: "i \<le> j" "bit x j" by auto
  then have "j < 32" using bit_imp_le_length [of x j] by simp
  with j show "bit (d OR drop_bit 16 d) i" by (intro step [of 16 d "j - i"] d) auto
qed

lemma le_32_cases:
  assumes "k \<le> (32 :: nat)" "\<forall>k \<in> set [0 ..< 33]. P k"
  shows "P k"
  using assms by auto

lemma ones_mask: "k \<le> 32 \<Longrightarrow> ones (mask k) = of_nat k"
  by (erule le_32_cases) code_simp

lemma ldz_eq:
  assumes "k \<le> 32" "unat x < 2 ^ k" "k = 0 \<or> 2 ^ (k - 1) \<le> unat x"
  shows "ldz x = 32 - of_nat k"
proof -
  have hi: "\<not> bit x j" if "k \<le> j" for j
  proof -
    have "unat x < 2 ^ j" using assms(2) that by (meson le_less_trans less_le_trans power_increasing one_le_numeral order_less_imp_le)
    then have "\<not> bit (unat x) j" by (simp add: bit_nat_iff bit_iff_odd)
    then show ?thesis by (simp add: bit_unsigned_iff)
  qed
  have lo: "bit x (k - 1)" if "k \<noteq> 0"
  proof -
    have "2 * 2 ^ (k - 1) = (2 :: nat) ^ k" using that by (simp flip: power_Suc)
    then have "unat x div 2 ^ (k - 1) = 1" using assms that by (intro div_nat_eqI) auto
    then have "bit (unat x) (k - 1)" by (simp add: bit_iff_odd)
    then show ?thesis by (simp add: bit_unsigned_iff)
  qed
  have ex: "(\<exists>j \<ge> i. bit x j) \<longleftrightarrow> i < k" for i
    using hi lo by (metis Suc_pred' less_Suc_eq_le linorder_not_less not_gr_zero less_zeroE le_trans)
  show ?thesis
    unfolding ldz_def Let_def
    by (subst ones_mask [OF assms(1), symmetric], rule arg_cong [where f = "\<lambda>x. 32 - ones x"], rule bit_word_eqI)
       (use smear_bits [of _ x] ex in \<open>simp add: bit_mask_iff\<close>)
qed

lemma LOG2_CEIL_eq:
  assumes "k \<le> 32" "0 < unat d" "unat d \<le> 2 ^ k" "k = 0 \<or> 2 ^ (k - 1) < unat d"
  shows "LOG2_CEIL d = of_nat k"
proof -
  have "unat (d - 1) = unat d - 1" using assms(2) by (metis unat_eq_zero unat_minus_one less_numeral_extra(3))
  moreover have "unat d - 1 < 2 ^ k" "k = 0 \<or> 2 ^ (k - 1) \<le> unat d - 1" using assms by linarith+
  ultimately have "ldz (d - 1) = 32 - of_nat k" using ldz_eq [OF assms(1), of "d - 1"] by simp
  then show ?thesis by (simp add: LOG2_CEIL_def)
qed

lemma LOG2_CEIL_cases:
  assumes "d \<noteq> 0"
  obtains k where "k \<le> 32" "LOG2_CEIL d = of_nat k" "unat d \<le> 2 ^ k" "k = 0 \<or> 2 ^ (k - 1) < unat d"
proof -
  have ex: "unat d \<le> 2 ^ 32" using unsigned_less [of d, where 'a = nat] by simp
  define k where "k = (LEAST k. unat d \<le> 2 ^ k)"
  have k: "unat d \<le> 2 ^ k" "k \<le> 32" unfolding k_def using ex by (rule LeastI, rule Least_le)
  have "k = 0 \<or> 2 ^ (k - 1) < unat d"
    using not_less_Least [of "k - 1" "\<lambda>k. unat d \<le> 2 ^ k"] unfolding k_def by (cases "k = 0") (auto simp: k_def not_le)
  with k assms LOG2_CEIL_eq [of k d] show ?thesis using that by (simp add: unat_gt_0)
qed

lemma exp_base_2_eq: "k \<le> 32 \<Longrightarrow> exp_base_2 (of_nat k) = (if k = 32 then 0 else push_bit k 1)"
  by (erule le_32_cases) code_simp

text \<open>Granlund and Montgomery: a multiplication by \<open>m\<close>, slightly above \<open>2 ^ (b + l) / d\<close>.\<close>

lemma div_by_mult:
  fixes n d m :: nat
  assumes "m * d = 2 ^ (b + l) + e" "e \<le> 2 ^ l" "n < 2 ^ b" "0 < d"
  shows "m * n div 2 ^ (b + l) = n div d"
proof (rule div_nat_eqI)
  have md: "m * n * d = 2 ^ (b + l) * n + e * n" using assms(1) by (metis distrib_right mult.assoc mult.commute)
  have "2 ^ (b + l) * (n div d) * d \<le> 2 ^ (b + l) * n" by (simp add: mult.assoc)
  with md have "2 ^ (b + l) * (n div d) * d \<le> m * n * d" by linarith
  then show "2 ^ (b + l) * (n div d) \<le> m * n" using assms(4) by simp
  have "e * n \<le> 2 ^ l * n" using assms(2) by simp
  also have "\<dots> < 2 ^ (b + l)" using assms(3) by (simp add: power_add)
  finally have en: "e * n < 2 ^ (b + l)" .
  have "n + 1 \<le> Suc (n div d) * d" using assms(4) by (metis Suc_eq_plus1 dividend_less_div_times Suc_leI mult_Suc add.commute)
  then have "2 ^ (b + l) * (n + 1) \<le> 2 ^ (b + l) * Suc (n div d) * d" by (simp only: mult.assoc mult_le_mono2)
  with md en have "m * n * d < 2 ^ (b + l) * Suc (n div d) * d" by (simp only: distrib_left mult_1_right)
  then show "m * n < 2 ^ (b + l) * Suc (n div d)" using assms(4) by simp
qed

lemma sh_eq:
  "k \<le> 32 \<Longrightarrow> (of_int (min (sint (of_nat k :: 32 word)) 1) :: 32 word) = of_nat (min k 1)"
  "k \<le> 32 \<Longrightarrow> (of_int (max (sint (of_nat k :: 32 word) - 1) 0) :: 32 word) = of_nat (k - 1)"
  by (erule le_32_cases, code_simp)+

lemma unat_scaled_div:
  fixes a :: "32 word" and b :: "64 word"
  assumes "b \<noteq> 0"
  shows "unat (0x100000000 * ucast a div b + 1 :: 64 word) = 2 ^ 32 * unat a div unat b + 1"
proof -
  have a: "unat a < 2 ^ 32" using unsigned_less [of a, where 'a = nat] by simp
  have ua: "unat (ucast a :: 64 word) = unat a" by (simp add: unsigned_ucast_eq take_bit_nat_eq_self_iff a less_trans [OF a])
  have "unat (0x100000000 * ucast a :: 64 word) = 2 ^ 32 * unat a"
    using a by (subst unat_mult_lem [THEN iffD1]) (simp_all add: ua)
  moreover have "2 ^ 32 * unat a div unat b < 2 ^ 64 - 1"
    using a by (intro le_less_trans [OF div_le_dividend]) simp
  ultimately show ?thesis using a by (subst unat_add_lem [THEN iffD1]) (simp_all add: unat_div)
qed

lemma ComputeUDivConstants32_eq:
  assumes "d \<noteq> 0"
  obtains l m e where "ComputeUDivConstants32 d = (of_nat (m - 2 ^ 32), of_nat (min l 1), of_nat (l - 1))"
    "m * unat d = 2 ^ (32 + l) + e" "e \<le> 2 ^ l" "2 ^ 32 \<le> m" "m - 2 ^ 32 < 2 ^ 32" "l \<le> 32"
proof -
  obtain l where l: "l \<le> 32" "LOG2_CEIL d = of_nat l" "unat d \<le> 2 ^ l" "l = 0 \<or> 2 ^ (l - 1) < unat d"
    using LOG2_CEIL_cases [OF assms] .
  define m where "m = 2 ^ (32 + l) div unat d + 1"
  define mid where "mid = exp_base_2 (of_nat l) - d"
  have d: "0 < unat d" "unat d < 2 ^ 32" using assms unsigned_less [of d, where 'a = nat] by (simp_all add: unat_gt_0)
  have mid: "unat mid = 2 ^ l - unat d"
  proof (cases "l = 32")
    case True
    then show ?thesis using d exp_base_2_eq [of 32] unat_sub_if' [of 0 d] by (simp add: mid_def)
  next
    case False
    then have "unat (exp_base_2 (of_nat l)) = 2 ^ l" using l(1) by (simp add: exp_base_2_eq unat_push_bit_1)
    then show ?thesis using l(3) by (simp add: mid_def unat_sub word_le_nat_alt)
  qed
  have ud: "unat (ucast d :: 64 word) = unat d" using d by (simp add: unsigned_ucast_eq take_bit_nat_eq_self_iff less_trans [OF d(2)])
  have mp: "2 ^ 32 * unat mid div unat d + 1 = m - 2 ^ 32"
  proof -
    have "2 ^ (32 + l) = 2 ^ 32 * unat mid + 2 ^ 32 * unat d"
      using l(3) by (simp add: mid power_add flip: distrib_left)
    then show ?thesis using d(1) by (simp add: m_def)
  qed
  have q: "m - 2 ^ 32 < 2 ^ 32"
  proof -
    have "2 ^ l - unat d \<le> unat d - 1"
    proof (cases "l = 0")
      case False
      then have "(2 :: nat) ^ l = 2 * 2 ^ (l - 1)" by (simp flip: power_Suc)
      with False l(4) show ?thesis by linarith
    qed (use d in simp)
    then have "2 ^ 32 * unat mid \<le> 2 ^ 32 * (unat d - 1)" by (simp add: mid)
    also have "\<dots> < (2 ^ 32 - 1) * unat d" using d by (cases "unat d") simp_all
    finally have "2 ^ 32 * unat mid div unat d < 2 ^ 32 - 1" by (rule less_mult_imp_div_less)
    then show ?thesis unfolding mp [symmetric] by simp
  qed
  show ?thesis
  proof (rule that [of m l "unat d - 2 ^ (32 + l) mod unat d"])
    show "m * unat d = 2 ^ (32 + l) + (unat d - 2 ^ (32 + l) mod unat d)"
      unfolding m_def using div_mult_mod_eq [of "2 ^ (32 + l)" "unat d"] mod_less_divisor [OF d(1), of "2 ^ (32 + l)"]
      by (simp only: distrib_right mult_1_left)
    show "unat d - 2 ^ (32 + l) mod unat d \<le> 2 ^ l" using l(3) by linarith
    have "2 ^ 32 * unat d \<le> 2 ^ (32 + l)" using l(3) by (simp add: power_add)
    then show "2 ^ 32 \<le> m" unfolding m_def using d(1) by (simp add: less_eq_div_iff_mult_less_eq le_SucI del: power_add)
    show "ComputeUDivConstants32 d = (of_nat (m - 2 ^ 32), of_nat (min l 1), of_nat (l - 1))"
    proof -
      have "ucast d \<noteq> (0 :: 64 word)" using ud d(1) by (metis less_irrefl unsigned_0)
      from unat_scaled_div [OF this, of mid] have "unat (0x100000000 * ucast mid div ucast d + 1 :: 64 word) = m - 2 ^ 32"
        unfolding ud mp .
      then have "ucast (0x100000000 * ucast mid div ucast d + 1 :: 64 word) = (of_nat (m - 2 ^ 32) :: 32 word)"
        by (metis of_nat_unat)
      then show ?thesis by (simp only: ComputeUDivConstants32_def Let_def l(2) sh_eq [OF l(1)] mid_def [symmetric])
    qed
  qed (fact q, fact l(1))
qed

lemma add_shift_div:
  fixes n t :: nat
  assumes "t \<le> n"
  shows "((n - t) div 2 ^ min l 1 + t) div 2 ^ (l - 1) = (n + t) div 2 ^ l \<or> l = 0"
proof (cases l)
  case (Suc k)
  have "(n - t) div 2 + t = (n + t) div 2" using assms by linarith
  with Suc show ?thesis by (simp add: div_mult2_eq)
qed simp

text \<open>The identity behind \<open>STPBuilder::constructUDivByConstant\<close>, for every dividend.\<close>

definition udiv_by_mult :: "32 word \<Rightarrow> 32 word \<times> 32 word \<times> 32 word \<Rightarrow> 32 word" where
  "udiv_by_mult n = (\<lambda>(mprime, sh1, sh2).
     let t1 = ucast (drop_bit 32 (ucast mprime * ucast n :: 64 word))
     in drop_bit (unat sh2) (drop_bit (unat sh1) (n - t1) + t1))"

lemma unat_drop_bit: "unat (drop_bit k (w :: 'a :: len word)) = unat w div 2 ^ k"
  by (metis drop_bit_eq_div take_bit_nat_eq_self unsigned_drop_bit_eq unsigned_less)

lemma udiv_by_mult_ok:
  assumes "d \<noteq> 0"
  shows "udiv_by_mult n (ComputeUDivConstants32 d) = n div d"
proof -
  obtain l m e where c: "ComputeUDivConstants32 d = (of_nat (m - 2 ^ 32), of_nat (min l 1), of_nat (l - 1))"
    and m: "m * unat d = 2 ^ (32 + l) + e" "e \<le> 2 ^ l" "2 ^ 32 \<le> m" "m - 2 ^ 32 < 2 ^ 32" and l: "l \<le> 32"
    using ComputeUDivConstants32_eq [OF assms] .
  define mp where "mp = m - 2 ^ 32"
  have n: "unat n < 2 ^ 32" using unsigned_less [of n, where 'a = nat] by simp
  have mp: "mp < 2 ^ 32" using m(4) by (simp add: mp_def)
  define t where "t = mp * unat n div 2 ^ 32"
  have tn: "t \<le> unat n"
  proof -
    have "mp * unat n \<le> 2 ^ 32 * unat n" using mp by simp
    then show ?thesis unfolding t_def by (metis div_le_mono nonzero_mult_div_cancel_left power_not_zero zero_neq_numeral)
  qed
  have "unat (ucast (of_nat mp :: 32 word) * ucast n :: 64 word) = mp * unat n"
  proof -
    have u: "unat (ucast (of_nat mp :: 32 word) :: 64 word) = mp" "unat (ucast n :: 64 word) = unat n"
      using mp n by (simp_all add: unsigned_ucast_eq unsigned_of_nat take_bit_nat_eq_self_iff less_trans [OF mp] less_trans [OF n])
    have "mp * unat n < 2 ^ 32 * 2 ^ 32" using mp n by (intro mult_strict_mono) auto
    then show ?thesis using u by (subst unat_mult_lem [THEN iffD1]) simp_all
  qed
  then have t1: "unat (ucast (drop_bit 32 (ucast (of_nat mp :: 32 word) * ucast n :: 64 word)) :: 32 word) = t"
    using tn n by (simp add: unsigned_ucast_eq unat_drop_bit t_def take_bit_nat_eq_self_iff)
  have sh: "unat (of_nat (min l 1) :: 32 word) = min l 1" "unat (of_nat (l - 1) :: 32 word) = l - 1"
    using l by (simp_all add: unsigned_of_nat take_bit_nat_eq_self_iff)
  have q: "(unat n + t) div 2 ^ l = unat n div unat d"
  proof -
    have "m * unat n = mp * unat n + unat n * 2 ^ 32" using m(3) by (simp add: mp_def distrib_right [symmetric] mult.commute [of "unat n"])
    then have "m * unat n div 2 ^ 32 = unat n + t" by (simp add: t_def)
    then have "m * unat n div 2 ^ (32 + l) = (unat n + t) div 2 ^ l" by (simp only: power_add div_mult2_eq)
    with div_by_mult [OF m(1,2) n] assms show ?thesis by (simp add: unat_gt_0)
  qed
  have "((unat n - t) div 2 ^ min l 1 + t) div 2 ^ (l - 1) = unat n div unat d"
  proof (cases "l = 0")
    case True
    with q tn have "t = 0" by (metis add_leD2 add_le_same_cancel1 div_by_1 div_le_dividend power_0 le_zero_eq)
    with True q show ?thesis by simp
  qed (use add_shift_div [OF tn, of l] q in simp)
  moreover have "(unat n - t) div 2 ^ min l 1 + t < 2 ^ 32"
    using tn n div_le_dividend [of "unat n - t" "2 ^ min l 1"] by linarith
  moreover define t1 where "t1 = (ucast (drop_bit 32 (ucast (of_nat mp :: 32 word) * ucast n :: 64 word)) :: 32 word)"
  moreover have "unat (drop_bit (min l 1) (n - t1)) = (unat n - t) div 2 ^ min l 1"
    using tn t1 by (simp only: unat_drop_bit unat_sub word_le_nat_alt t1_def)
  ultimately have "unat (drop_bit (l - 1) (drop_bit (min l 1) (n - t1) + t1)) = unat n div unat d"
    using t1 by (simp add: unat_drop_bit unat_add_lem [THEN iffD1])
  then have "drop_bit (l - 1) (drop_bit (min l 1) (n - t1) + t1) = n div d"
    by (intro word_unat_eq_iff [THEN iffD2]) (simp only: unat_div)
  then show ?thesis
    unfolding c udiv_by_mult_def Let_def prod.case sh mp_def [symmetric] t1_def [symmetric] .
qed

section \<open>Signed division constants\<close>

lemma neg_div_by_mult:
  fixes a d m :: nat
  assumes "m * d = 2 ^ (b + l) + e" "0 < e" "e \<le> 2 ^ l" "0 < a" "a \<le> 2 ^ b" "0 < d"
  shows "- (int m * int a) div 2 ^ (b + l) = - int (a div d) - 1"
proof -
  have md: "m * a * d = 2 ^ (b + l) * a + e * a" using assms(1) by (metis distrib_right mult.assoc mult.commute)
  have "2 ^ (b + l) * (a div d) * d \<le> 2 ^ (b + l) * a" by (simp add: mult.assoc)
  moreover have "0 < e * a" using assms(2,4) by simp
  ultimately have "2 ^ (b + l) * (a div d) * d < m * a * d" using md by linarith
  then have lo: "2 ^ (b + l) * (a div d) < m * a" by simp
  have "e * a \<le> 2 ^ l * 2 ^ b" by (intro mult_le_mono assms)
  then have ea: "e * a \<le> 2 ^ (b + l)" by (simp add: power_add mult.commute)
  have "a + 1 \<le> Suc (a div d) * d" using assms(6) by (metis Suc_eq_plus1 dividend_less_div_times Suc_leI mult_Suc add.commute)
  then have "2 ^ (b + l) * (a + 1) \<le> 2 ^ (b + l) * Suc (a div d) * d" by (simp only: mult.assoc mult_le_mono2)
  with md ea have "m * a * d \<le> 2 ^ (b + l) * Suc (a div d) * d" by (simp only: distrib_left mult_1_right)
  then have hi: "m * a \<le> 2 ^ (b + l) * Suc (a div d)" using assms(6) by simp
  have "int m * int a \<le> 2 ^ (b + l) * (int (a div d) + 1)" "2 ^ (b + l) * int (a div d) < int m * int a"
    using hi lo by (simp_all only: of_nat_mult of_nat_power of_nat_numeral of_nat_Suc add.commute flip: of_nat_less_iff [where 'a = int] of_nat_le_iff [where 'a = int])
  then show ?thesis by (intro int_div_pos_eq [where r = "2 ^ (b + l) * (int (a div d) + 1) - int m * int a"]) (auto simp: algebra_simps)
qed

lemma shifted_word:
  "s \<le> 32 \<Longrightarrow> ucast (drop_bit s (word_of_int P :: 64 word)) = (word_of_int (P div 2 ^ s) :: 32 word)"
  by (intro bit_word_eqI) (auto simp: bit_simps simp flip: drop_bit_eq_div)

lemma sign_word_eq: "signed_drop_bit 31 d = (if sint d < 0 then - 1 else 0 :: 32 word)"
  using bit_last_iff [of d] by (intro bit_word_eqI) (auto simp: bit_signed_drop_bit_iff Suc_le_eq)

lemma ComputeSDivConstants32_eq:
  assumes "d \<noteq> 0"
  obtains l m e where
    "ComputeSDivConstants32 d = (word_of_int (int m - 2 ^ 32), if sint d < 0 then - 1 else 0, of_nat (l - 1))"
    "m * nat \<bar>sint d\<bar> = 2 ^ (31 + l) + e" "0 < e" "e \<le> 2 ^ l" "1 \<le> l" "l \<le> 31"
    "2 ^ 31 \<le> m" "m \<le> 2 ^ 32 + 1" "l = 1 \<or> m \<le> 2 ^ 32"
proof -
  define A where "A = nat \<bar>sint d\<bar>"
  have A: "1 \<le> A" "A \<le> 2 ^ 31"
    using assms signed_eq_0_iff [of d, where 'a = int] sint_ge [of d] sint_lt [of d] by (auto simp: A_def simp del: signed_eq_0_iff)
  define abs_d where "abs_d = (word_of_int \<bar>sint d\<bar> :: 64 word)"
  have ua: "unat abs_d = A"
  proof -
    have "take_bit 64 \<bar>sint d\<bar> = \<bar>sint d\<bar>" using A unfolding A_def by (intro take_bit_int_eq_self) auto
    then show ?thesis by (simp add: abs_d_def A_def unsigned_of_int)
  qed
  have ua32: "unat (ucast abs_d :: 32 word) = A"
    using A by (simp add: unsigned_ucast_eq ua take_bit_nat_eq_self_iff)
  then have nz: "(ucast abs_d :: 32 word) \<noteq> 0" using A by (metis not_one_le_zero unsigned_0)
  obtain k where k: "k \<le> 32" "LOG2_CEIL (ucast abs_d) = of_nat k" "A \<le> 2 ^ k" "k = 0 \<or> 2 ^ (k - 1) < A"
    using LOG2_CEIL_cases [OF nz] unfolding ua32 .
  define l where "l = max 1 k"
  have k31: "k \<le> 31"
  proof (rule ccontr)
    assume "\<not> k \<le> 31"
    with k have "k = 32" by simp
    with k A show False by simp
  qed
  have l: "1 \<le> l" "l \<le> 31" "A \<le> 2 ^ l" "l = 1 \<or> 2 ^ (l - 1) < A"
  proof -
    show "A \<le> 2 ^ l" using k(3) by (rule order_trans) (simp add: l_def)
    show "l = 1 \<or> 2 ^ (l - 1) < A" using k(4) by (auto simp: l_def max_def)
  qed (use k31 in \<open>simp_all add: l_def\<close>)
  have lw: "(if abs_d = 0x80000000 then 31 else max 1 (LOG2_CEIL (ucast abs_d))) = of_nat l"
  proof (cases "abs_d = 0x80000000")
    case True
    then have "A = 2 ^ 31" using ua by simp
    then have "k = 31" using k(3) k31 power_le_imp_le_exp [of 2 31 k] by simp
    with True show ?thesis by (simp add: l_def)
  next
    case False
    have "max 1 (of_nat k :: 32 word) = of_nat (max 1 k)" by (rule le_32_cases [OF k(1)]) code_simp
    with False show ?thesis by (simp add: k(2) l_def)
  qed
  have mid: "unat (exp_base_2 (of_nat l - 1)) = 2 ^ (l - 1)"
  proof -
    have "of_nat l - 1 = (of_nat (l - 1) :: 32 word)" using l(1) by simp
    moreover have "l - 1 < 32" using l(2) by simp
    ultimately show ?thesis using exp_base_2_eq [of "l - 1"] unat_push_bit_1 [of "l - 1", where 'a = 32] by (simp only: ) simp
  qed
  define m where "m = 2 ^ (31 + l) div A + 1"
  have m32: "2 ^ 32 * 2 ^ (l - 1) = (2 :: nat) ^ (31 + l)" using l(1) by (simp only: flip: power_add) simp
  have mw: "unat (0x100000000 * ucast (exp_base_2 (of_nat l - 1)) div abs_d + 1 :: 64 word) = m"
  proof -
    have "abs_d \<noteq> 0" using A ua by (metis not_one_le_zero unsigned_0)
    from unat_scaled_div [OF this, of "exp_base_2 (of_nat l - 1)"] show ?thesis unfolding m_def mid m32 ua .
  qed
  show ?thesis
  proof (rule that [of m l "A - 2 ^ (31 + l) mod A"], unfold A_def [symmetric])
    show "m * A = 2 ^ (31 + l) + (A - 2 ^ (31 + l) mod A)"
      unfolding m_def using div_mult_mod_eq [of "2 ^ (31 + l)" A] mod_less_divisor [of A "2 ^ (31 + l)"] A(1)
      by (simp only: distrib_right mult_1_left) linarith
    show "0 < A - 2 ^ (31 + l) mod A" using A(1) by simp
    show "A - 2 ^ (31 + l) mod A \<le> 2 ^ l" using l(3) by linarith
    have "2 ^ 31 * A \<le> 2 ^ (31 + l)" using l(3) by (simp add: power_add)
    then show "2 ^ 31 \<le> m" unfolding m_def using A(1) by (simp add: less_eq_div_iff_mult_less_eq le_SucI del: power_add)
    show m1: "l = 1 \<or> m \<le> 2 ^ 32"
    proof (cases "l = 1")
      case False
      with l have "2 ^ (l - 1) < A" by simp
      then have "2 ^ 32 * 2 ^ (l - 1) < 2 ^ 32 * A" by simp
      then have "2 ^ 32 * 2 ^ (l - 1) div A < 2 ^ 32" by (rule less_mult_imp_div_less)
      then show ?thesis unfolding m_def m32 [symmetric] by simp
    qed simp
    show "m \<le> 2 ^ 32 + 1" using m1 A(1) by (auto simp: m_def)
    show "ComputeSDivConstants32 d = (word_of_int (int m - 2 ^ 32), if sint d < 0 then - 1 else 0, of_nat (l - 1))"
    proof -
      let ?W = "0x100000000 * ucast (exp_base_2 (of_nat l - 1)) div abs_d + 1 :: 64 word"
      have narrow: "ucast (word_of_int z :: 64 word) = (word_of_int z :: 32 word)" for z using shifted_word [of 0 z] by simp
      have "?W - 0x100000000 = word_of_int (int m - 2 ^ 32)" by (simp flip: mw)
      then have "ucast (?W - 0x100000000) = (word_of_int (int m - 2 ^ 32) :: 32 word)"
        by (simp only: narrow)
      moreover have "of_nat l - 1 = (of_nat (l - 1) :: 32 word)" using l(1) by simp
      ultimately show ?thesis
        by (simp only: ComputeSDivConstants32_def Let_def abs_d_def [symmetric] lw sign_word_eq)
    qed
  qed (fact l(1,2))+
qed

text \<open>The identity behind \<open>STPBuilder::constructSDivByConstant\<close>, for every dividend.\<close>

definition sdiv_by_mult :: "32 word \<Rightarrow> 32 word \<times> 32 word \<times> 32 word \<Rightarrow> 32 word" where
  "sdiv_by_mult n = (\<lambda>(mprime, dsign, shpost).
     let mulsh = ucast (drop_bit 32 (scast mprime * scast n :: 64 word));
         shift_shpost = ucast (drop_bit (unat shpost) (scast (n + mulsh) :: 64 word));
         q0 = shift_shpost - (if bit n 31 then - 1 else 0)
     in (q0 XOR dsign) - dsign)"

lemma sdiv_quotient:
  fixes N :: int
  assumes m: "m * nat A = 2 ^ (31 + l) + e" "0 < e" "e \<le> 2 ^ l" and A: "0 < A" and N: "- (2 ^ 31) \<le> N" "N < 2 ^ 31"
  shows "int m * N div 2 ^ (31 + l) + (if N < 0 then 1 else 0) = N sdiv A"
proof (cases "N < 0")
  case True
  have "int m * N = - (int m * int (nat (- N)))" using True by simp
  then have "int m * N div 2 ^ (31 + l) = - int (nat (- N) div nat A) - 1"
    using neg_div_by_mult [OF m, of "nat (- N)"] True N A by (simp only: ) (simp add: nat_le_iff)
  with True A show ?thesis by (simp add: signed_divide_int_def nat_div_distrib [symmetric] div_int_pos_iff)
next
  case False
  have "m * nat N div 2 ^ (31 + l) = nat N div nat A"
    using m A N False by (intro div_by_mult) (auto simp: nat_less_iff)
  then have "int (m * nat N div 2 ^ (31 + l)) = int (nat N div nat A)" by simp
  then have "int m * N div 2 ^ (31 + l) = N div A" using False A by (simp only: zdiv_int of_nat_mult of_nat_power of_nat_numeral) simp
  with False A show ?thesis by (cases "N = 0") (simp_all add: signed_divide_int_def)
qed

lemma scast_word_of_int:
  "- (2 ^ 31) \<le> z \<Longrightarrow> z < 2 ^ 31 \<Longrightarrow> scast (word_of_int z :: 32 word) = (word_of_int z :: 64 word)"
  by (simp add: signed_of_int signed_take_bit_int_eq_self)

lemma xor_minus_1: "(q XOR - 1) - - 1 = - (q :: 32 word)"
proof -
  have "q XOR - 1 = NOT q" by (intro bit_word_eqI) (simp add: bit_xor_iff bit_not_iff)
  then show ?thesis by (simp add: not_eq_complement)
qed

lemma sdiv_by_mult_ok:
  assumes "d \<noteq> 0"
  shows "sdiv_by_mult n (ComputeSDivConstants32 d) = word_of_int (sint n sdiv sint d)"
proof -
  obtain l m e where
    c: "ComputeSDivConstants32 d = (word_of_int (int m - 2 ^ 32), if sint d < 0 then - 1 else 0, of_nat (l - 1))"
    and m: "m * nat \<bar>sint d\<bar> = 2 ^ (31 + l) + e" "0 < e" "e \<le> 2 ^ l" and l: "1 \<le> l" "l \<le> 31"
    and mr: "2 ^ 31 \<le> m" "m \<le> 2 ^ 32 + 1" "l = 1 \<or> m \<le> 2 ^ 32"
    using ComputeSDivConstants32_eq [OF assms] .
  define N where "N = sint n"
  have N: "- (2 ^ 31) \<le> N" "N < 2 ^ 31" using sint_ge [of n] sint_lt [of n] by (simp_all add: N_def)
  define Q where "Q = int m * N div 2 ^ 32"
  have mp: "scast (word_of_int (int m - 2 ^ 32) :: 32 word) = (word_of_int (int m - 2 ^ 32) :: 64 word)"
    using mr by (intro scast_word_of_int) simp_all
  have sn: "scast n = (word_of_int N :: 64 word)" by (simp add: N_def)
  have npm: "n + ucast (drop_bit 32 (word_of_int (int m - 2 ^ 32) * scast n :: 64 word)) = word_of_int Q"
  proof -
    have "Q = ((int m - 2 ^ 32) * N + N * 2 ^ 32) div 2 ^ 32" by (simp add: Q_def algebra_simps)
    then have "Q = (int m - 2 ^ 32) * N div 2 ^ 32 + N" by simp
    moreover have "word_of_int (int m - 2 ^ 32) * scast n = (word_of_int ((int m - 2 ^ 32) * N) :: 64 word)"
      by (simp only: sn of_int_mult)
    ultimately show ?thesis by (simp only: shifted_word [OF order_refl]) (simp add: N_def)
  qed
  have sh: "ucast (drop_bit (l - 1) (scast (word_of_int Q :: 32 word) :: 64 word)) = (word_of_int (Q div 2 ^ (l - 1)) :: 32 word)"
  proof (cases "l = 1")
    case False
    then have "m \<le> 2 ^ 32" using mr(3) by simp
    have "- (2 ^ 31) * 2 ^ 32 \<le> int m * N" "int m * N < 2 ^ 31 * 2 ^ 32"
    proof -
      have "int m * - (2 ^ 31) \<le> int m * N" using N(1) by (intro mult_left_mono) simp_all
      moreover have "int m * N \<le> int m * (2 ^ 31 - 1)" using N(2) by (intro mult_left_mono) simp_all
      moreover have "int m \<le> 2 ^ 32" using \<open>m \<le> 2 ^ 32\<close> by simp
      ultimately show "- (2 ^ 31) * 2 ^ 32 \<le> int m * N" "int m * N < 2 ^ 31 * 2 ^ 32" by simp_all
    qed
    then have "- (2 ^ 31) \<le> Q \<and> Q < 2 ^ 31"
      unfolding Q_def by (simp add: div_less_iff_less_mult less_eq_div_iff_mult_less_eq flip: not_le) linarith
    then show ?thesis using shifted_word [of "l - 1" Q] l by (simp add: scast_word_of_int)
  next
    case True
    moreover have "ucast (scast w :: 64 word) = w" for w :: "32 word" by (intro bit_word_eqI) (simp add: bit_simps)
    ultimately show ?thesis by simp
  qed
  have "(2 :: int) ^ (31 + l) = 2 ^ 32 * 2 ^ (l - 1)" using l(1) by (simp only: flip: power_add) simp
  then have "Q div 2 ^ (l - 1) = int m * N div 2 ^ (31 + l)" by (simp only: Q_def zdiv_zmult2_eq zero_le_power zero_le_numeral)
  then have q: "Q div 2 ^ (l - 1) + (if N < 0 then 1 else 0) = N sdiv \<bar>sint d\<bar>"
    using sdiv_quotient [OF m _ N] assms signed_eq_0_iff [of d, where 'a = int] by (simp only: zero_less_abs_iff) blast
  have sd: "sint n sdiv sint d = (if sint d < 0 then - (N sdiv \<bar>sint d\<bar>) else N sdiv \<bar>sint d\<bar>)"
    by (auto simp: signed_divide_int_def N_def sgn_if)
  have "l - 1 < 2 ^ LENGTH(32)" using l(2) by simp
  then have "unat (of_nat (l - 1) :: 32 word) = l - 1" by (simp only: unsigned_of_nat take_bit_nat_eq_self of_nat_id)
  moreover have "bit n 31 \<longleftrightarrow> N < 0" using bit_last_iff [of n] by (simp add: N_def)
  moreover have "word_of_int (Q div 2 ^ (l - 1)) - (if N < 0 then - 1 else 0) = (word_of_int (N sdiv \<bar>sint d\<bar>) :: 32 word)"
    by (cases "N < 0") (simp_all only: q [symmetric] if_True if_False of_int_add of_int_1 of_int_0 diff_minus_eq_add diff_zero add_0_right)
  ultimately have "sdiv_by_mult n (ComputeSDivConstants32 d) =
      (word_of_int (N sdiv \<bar>sint d\<bar>) XOR (if sint d < 0 then - 1 else 0)) - (if sint d < 0 then - 1 else 0)"
    by (simp only: c sdiv_by_mult_def prod.case Let_def mp npm sh)
  moreover have "(q XOR - 1) - - 1 = - q" for q :: "32 word" by (rule xor_minus_1)
  ultimately show ?thesis unfolding sd by (cases "sint d < 0") (simp_all only: if_True if_False of_int_minus xor.right_neutral diff_zero)
qed

declare push_bit_of_1 [simp]

section \<open>Properties\<close>

text \<open>
  (C34) \<open>ComputeMultConstants64\<close> always returns: its loop ends and its final assertion
  holds. The two words it returns have no bit in common, as
  \<open>STPBuilder::constructMulByConstant\<close> asserts, and differ by the multiplicand.
\<close>

theorem ComputeMultConstants64_correct:
  "\<exists>add sub. ComputeMultConstants64 multiplicand = Some (add, sub) \<and> add - sub = multiplicand \<and> add AND sub = 0"
proof -
  have "mult_inv multiplicand multiplicand 0 0" by (simp add: mult_inv_def)
  from mult_loop_ok [OF this] show ?thesis by (auto simp: ComputeMultConstants64_def assert_that_def)
qed

text \<open>
  (C10) Division by a constant without dividing: for every divisor but zero and every
  32-bit dividend, the multiplications and shifts by the constants of
  \<open>ComputeUDivConstants32\<close> and \<open>ComputeSDivConstants32\<close> give the unsigned quotient and the
  signed quotient that truncates towards zero, \<open>INT_MIN / -1\<close> wrapping around.
\<close>

theorem division_constants_correct:
  assumes "d \<noteq> 0"
  shows "udiv_by_mult n (ComputeUDivConstants32 d) = n div d
    \<and> sdiv_by_mult n (ComputeSDivConstants32 d) = word_of_int (sint n sdiv sint d)"
  by (intro conjI udiv_by_mult_ok sdiv_by_mult_ok assms)

theorem division_constants_correct_witness:
  "(7 :: 32 word) \<noteq> 0 \<and> udiv_by_mult 0xFFFFFFFF (ComputeUDivConstants32 7) = 0x24924924
   \<and> sdiv_by_mult (- 50) (ComputeSDivConstants32 7) = - 7"
  using division_constants_correct [of 7 "0xFFFFFFFF"] division_constants_correct [of 7 "- 50"]
  by (simp add: signed_divide_int_def)

end
