(* ===== verification/Process_Tree.thy ===== *)
theory Process_Tree
  imports Prelude "HOL-Library.Tree" Complex_Main
begin

text \<open>
  The process tree of \<open>lib/Core/PTree.cpp\<close>, which records the forks of the execution, the
  propagation of rewards through it (\<open>Executor::doBackpropagation\<close>) and the searcher that
  walks it at random (\<open>RandomPathSearcher\<close> of \<open>lib/Core/Searcher.cpp\<close>). Nodes live in a
  store indexed by addresses, as the code links them by pointers in both directions; the
  store is related to a binary tree, and the operations to operations on that tree. Walks
  along the pointers are partial functions: \<open>None\<close> is a failed assertion, a null or dangling
  pointer, or a walk that never ends.
\<close>

section \<open>Data\<close>

text \<open>A pointer with the three tag bits of \<open>llvm::PointerIntPair\<close>.\<close>

record pTreeNodePtr =
  getPointer :: "nat option"
  getInt :: "8 word"

record pTreeNode =
  node_parent :: "nat option"
  node_left :: pTreeNodePtr
  node_right :: pTreeNodePtr
  node_state :: "nat option"
  isTerminal :: bool
  visit :: "32 word"
  reward :: real
  isInMCTSTree :: bool
  isForked :: bool
  isSimulated :: bool

text \<open>
  The tree with its store: \<open>ptreeNode\<close> is the field of that name of every execution
  state, and \<open>brk\<close> the next address \<open>new\<close> returns.
\<close>

record pTree =
  registeredIds :: nat
  root :: pTreeNodePtr
  nodes :: "nat \<Rightarrow> pTreeNode option"
  ptreeNode :: "nat \<Rightarrow> nat"
  brk :: nat

section \<open>Operations\<close>

definition null_ptr :: pTreeNodePtr where
  "null_ptr = \<lparr>getPointer = None, getInt = 0\<rparr>"

definition node_ptr :: "nat \<Rightarrow> 8 word \<Rightarrow> pTreeNodePtr" where
  "node_ptr n i = \<lparr>getPointer = Some n, getInt = i\<rparr>"

definition set_node :: "nat \<Rightarrow> pTreeNode \<Rightarrow> pTree \<Rightarrow> pTree" where
  "set_node n nd T = T\<lparr>nodes := (nodes T)(n \<mapsto> nd)\<rparr>"

definition delete_node :: "nat \<Rightarrow> pTree \<Rightarrow> pTree" where
  "delete_node n T = T\<lparr>nodes := (nodes T)(n := None)\<rparr>"

definition new_node :: "nat option \<Rightarrow> nat \<Rightarrow> pTreeNode" where
  "new_node parent s =
     \<lparr>node_parent = parent, node_left = null_ptr, node_right = null_ptr, node_state = Some s,
      isTerminal = False, visit = 0, reward = 0, isInMCTSTree = False, isForked = False, isSimulated = False\<rparr>"

definition PTreeNode__PTreeNode :: "nat option \<Rightarrow> nat \<Rightarrow> pTree \<Rightarrow> nat \<times> pTree" where
  "PTreeNode__PTreeNode parent s T =
     (brk T, T\<lparr>nodes := (nodes T)(brk T \<mapsto> new_node parent s),
       ptreeNode := (ptreeNode T)(s := brk T), brk := brk T + 1\<rparr>)"

definition PTree__PTree :: "nat \<Rightarrow> pTree" where
  "PTree__PTree initialState = (
     let (n, T) = PTreeNode__PTreeNode None initialState
           \<lparr>registeredIds = 0, root = null_ptr, nodes = \<lambda>_. None, ptreeNode = \<lambda>_. 0, brk = 0\<rparr>
     in T\<lparr>root := node_ptr n 0\<rparr>)"

text \<open>The link to a node: the slot of its parent that points to it, or the root.\<close>

definition child_ptr :: "nat \<Rightarrow> nat option \<Rightarrow> pTree \<Rightarrow> pTreeNodePtr option" where
  "child_ptr n parent T = (case parent of
     None \<Rightarrow> Some (root T)
   | Some p \<Rightarrow> map_option (\<lambda>pd. if getPointer (node_left pd) = Some n then node_left pd else node_right pd) (nodes T p))"

definition set_child_ptr :: "nat \<Rightarrow> nat option \<Rightarrow> pTreeNodePtr \<Rightarrow> pTree \<Rightarrow> pTree option" where
  "set_child_ptr n parent c T = (case parent of
     None \<Rightarrow> Some (T\<lparr>root := c\<rparr>)
   | Some p \<Rightarrow> map_option (\<lambda>pd. set_node p
        (if getPointer (node_left pd) = Some n then pd\<lparr>node_left := c\<rparr> else pd\<lparr>node_right := c\<rparr>) T) (nodes T p))"

definition PTree__attach :: "nat \<Rightarrow> nat \<Rightarrow> nat \<Rightarrow> pTree \<Rightarrow> pTree option" where
  "PTree__attach n leftState rightState T = do {
     nd \<leftarrow> nodes T n;
     assert_that (n = ptreeNode T rightState);
     let (l, T) = PTreeNode__PTreeNode (Some n) leftState (set_node n (nd\<lparr>node_state := None\<rparr>) T);
     let T = set_node n (nd\<lparr>node_state := None, node_left := node_ptr l 0\<rparr>) T;
     c \<leftarrow> child_ptr n (node_parent nd) T;
     let (r, T) = PTreeNode__PTreeNode (Some n) rightState T;
     Some (set_node n (nd\<lparr>node_state := None, node_left := node_ptr l 0, node_right := node_ptr r (getInt c)\<rparr>) T)
   }"

partial_function (option) remove_loop :: "nat \<Rightarrow> pTree \<Rightarrow> (nat option \<times> pTree) option" where
  "remove_loop n T = do {
     nd \<leftarrow> nodes T n;
     (case node_parent nd of
        None \<Rightarrow> Some (None, delete_node n T)
      | Some p \<Rightarrow> do {
          pd \<leftarrow> nodes T p;
          T \<leftarrow> (if Some n = getPointer (node_left pd) then Some (set_node p (pd\<lparr>node_left := null_ptr\<rparr>) T)
                else do {
                  assert_that (Some n = getPointer (node_right pd));
                  Some (set_node p (pd\<lparr>node_right := null_ptr\<rparr>) T)
                });
          let T = delete_node n T;
          pd \<leftarrow> nodes T p;
          (if getPointer (node_left pd) = None \<and> getPointer (node_right pd) = None then remove_loop p T
           else Some (Some p, T))
        })
   }"

definition PTree__remove :: "bool \<Rightarrow> nat \<Rightarrow> pTree \<Rightarrow> pTree option" where
  "PTree__remove CompressProcessTree n T = do {
     nd \<leftarrow> nodes T n;
     assert_that (getPointer (node_left nd) = None \<and> getPointer (node_right nd) = None);
     (n, T) \<leftarrow> remove_loop n T;
     (case n of
        None \<Rightarrow> Some T
      | Some n \<Rightarrow>
          if CompressProcessTree then do {
            nd \<leftarrow> nodes T n;
            let child = (if getPointer (node_left nd) \<noteq> None then node_left nd else node_right nd);
            c \<leftarrow> getPointer child;
            cd \<leftarrow> nodes T c;
            let T = set_node c (cd\<lparr>node_parent := node_parent nd\<rparr>) T;
            T \<leftarrow> (case node_parent nd of
                None \<Rightarrow> Some (T\<lparr>root := child\<rparr>)
              | Some p \<Rightarrow> do {
                  pd \<leftarrow> nodes T p;
                  (if Some n = getPointer (node_left pd) then Some (set_node p (pd\<lparr>node_left := child\<rparr>) T)
                   else do {
                     assert_that (Some n = getPointer (node_right pd));
                     Some (set_node p (pd\<lparr>node_right := child\<rparr>) T)
                   })
                });
            Some (delete_node n T)
          } else Some T)
   }"

text \<open>\<open>getNextId\<close> reports an error, after which the engine stops, from the fourth searcher on.\<close>

definition getNextId :: "pTree \<Rightarrow> (8 word \<times> pTree) option" where
  "getNextId T =
     (if registeredIds T + 1 > 3 then None
      else Some (push_bit (registeredIds T) 1, T\<lparr>registeredIds := registeredIds T + 1\<rparr>))"

partial_function (option) doBackpropagation :: "real \<Rightarrow> nat option \<Rightarrow> pTree \<Rightarrow> pTree option" where
  "doBackpropagation r node T = (case node of
     None \<Rightarrow> Some T
   | Some n \<Rightarrow> do {
       nd \<leftarrow> nodes T n;
       doBackpropagation r (node_parent nd) (set_node n (nd\<lparr>visit := visit nd + 1, reward := reward nd + r\<rparr>) T)
     })"

section \<open>The tree in the store\<close>

fun tree_at :: "(nat \<Rightarrow> pTreeNode option) \<Rightarrow> nat option \<Rightarrow> nat option \<Rightarrow> nat tree \<Rightarrow> bool" where
  "tree_at h par p Leaf \<longleftrightarrow> p = None"
| "tree_at h par p (Node l n r) \<longleftrightarrow> p = Some n \<and> (case h n of None \<Rightarrow> False
     | Some nd \<Rightarrow> node_parent nd = par \<and> tree_at h (Some n) (getPointer (node_left nd)) l \<and> tree_at h (Some n) (getPointer (node_right nd)) r)"

text \<open>The way from a node to the root: for every ancestor its other child.\<close>

datatype frame = FL nat "nat tree" | FR "nat tree" nat

fun plug :: "nat tree \<Rightarrow> frame list \<Rightarrow> nat tree" where
  "plug t [] = t"
| "plug t (FL m r # fs) = plug (Node t m r) fs"
| "plug t (FR l m # fs) = plug (Node l m t) fs"

fun fnode :: "frame \<Rightarrow> nat" where
  "fnode (FL m r) = m" | "fnode (FR l m) = m"

fun sibling :: "frame \<Rightarrow> nat tree" where
  "sibling (FL m r) = r" | "sibling (FR l m) = l"

fun child_slot :: "frame \<Rightarrow> pTreeNode \<Rightarrow> pTreeNodePtr" where
  "child_slot (FL m r) nd = node_left nd" | "child_slot (FR l m) nd = node_right nd"

fun other_slot :: "frame \<Rightarrow> pTreeNode \<Rightarrow> pTreeNodePtr" where
  "other_slot (FL m r) nd = node_right nd" | "other_slot (FR l m) nd = node_left nd"

fun ctx_at :: "(nat \<Rightarrow> pTreeNode option) \<Rightarrow> nat option \<Rightarrow> nat option \<Rightarrow> nat option \<Rightarrow> frame list \<Rightarrow> bool" where
  "ctx_at h rt c par [] \<longleftrightarrow> par = None \<and> rt = c"
| "ctx_at h rt c par (f # fs) \<longleftrightarrow> par = Some (fnode f) \<and> (case h (fnode f) of None \<Rightarrow> False
     | Some nd \<Rightarrow> getPointer (child_slot f nd) = c \<and> tree_at h (Some (fnode f)) (getPointer (other_slot f nd)) (sibling f)
         \<and> ctx_at h rt (Some (fnode f)) (node_parent nd) fs)"

definition ctx_set :: "frame list \<Rightarrow> nat set" where
  "ctx_set fs = (\<Union>f \<in> set fs. insert (fnode f) (set_tree (sibling f)))"

lemma ctx_set_simps [simp]:
  "ctx_set [] = {}" "ctx_set (f # fs) = insert (fnode f) (set_tree (sibling f) \<union> ctx_set fs)"
  by (auto simp: ctx_set_def)

lemma ctx_set_append: "ctx_set (fs @ gs) = ctx_set fs \<union> ctx_set gs"
  by (auto simp: ctx_set_def)

lemma set_plug: "set_tree (plug t fs) = set_tree t \<union> ctx_set fs"
  by (induction t fs rule: plug.induct) auto

fun distinct_ctx :: "frame list \<Rightarrow> bool" where
  "distinct_ctx [] \<longleftrightarrow> True"
| "distinct_ctx (f # fs) \<longleftrightarrow> fnode f \<notin> set_tree (sibling f) \<and> distinct (inorder (sibling f))
     \<and> insert (fnode f) (set_tree (sibling f)) \<inter> ctx_set fs = {} \<and> distinct_ctx fs"

lemma distinct_plug:
  "distinct (inorder (plug t fs)) \<longleftrightarrow> distinct (inorder t) \<and> distinct_ctx fs \<and> set_tree t \<inter> ctx_set fs = {}"
  by (induction t fs rule: plug.induct) (auto simp flip: set_inorder)

lemma tree_at_cong: "(\<And>n. n \<in> set_tree t \<Longrightarrow> h n = h' n) \<Longrightarrow> tree_at h par p t = tree_at h' par p t"
  by (induction t arbitrary: par p) (auto split: option.splits)

lemma ctx_at_cong: "(\<And>n. n \<in> ctx_set fs \<Longrightarrow> h n = h' n) \<Longrightarrow> ctx_at h rt c par fs = ctx_at h' rt c par fs"
proof (induction fs arbitrary: c par)
  case (Cons f fs)
  then have "h (fnode f) = h' (fnode f)" "\<And>p q. tree_at h p q (sibling f) = tree_at h' p q (sibling f)"
    by (auto intro!: tree_at_cong)
  with Cons show ?case by (auto split: option.splits)
qed simp

lemma tree_at_plug:
  "tree_at h None rt (plug t fs) \<longleftrightarrow> (\<exists>c par. tree_at h par c t \<and> ctx_at h rt c par fs)"
proof (induction fs arbitrary: t)
  case (Cons f fs)
  have "tree_at h None rt (plug t (f # fs)) \<longleftrightarrow> (\<exists>c par. tree_at h par c (plug t [f]) \<and> ctx_at h rt c par fs)"
    using Cons.IH [of "plug t [f]"] by (cases f) simp_all
  also have "\<dots> \<longleftrightarrow> (\<exists>c par. tree_at h par c t \<and> ctx_at h rt c par (f # fs))"
    by (cases f) (auto split: option.splits)
  finally show ?case .
qed auto

lemma plug_append: "plug t (fs @ gs) = plug (plug t fs) gs"
  by (induction t fs rule: plug.induct) simp_all

lemma plug_cases: "n \<in> set_tree t \<Longrightarrow> \<exists>l r fs. t = plug (Node l n r) fs"
proof (induction t)
  case (Node l m r)
  consider "n = m" | "n \<in> set_tree l" | "n \<in> set_tree r" using Node.prems by auto
  then show ?case
  proof cases
    case 1
    then show ?thesis by (intro exI [of _ l] exI [of _ r] exI [of _ "[]"]) simp
  next
    case 2
    then obtain l' r' fs where "l = plug (Node l' n r') fs" using Node.IH by blast
    then have "Node l m r = plug (Node l' n r') (fs @ [FL m r])" by (simp add: plug_append)
    then show ?thesis by blast
  next
    case 3
    then obtain l' r' fs where "r = plug (Node l' n r') fs" using Node.IH by blast
    then have "Node l m r = plug (Node l' n r') (fs @ [FR l m])" by (simp add: plug_append)
    then show ?thesis by blast
  qed
qed simp

section \<open>Well-formed process trees\<close>

definition has_kid :: "pTreeNode \<Rightarrow> bool" where
  "has_kid nd \<longleftrightarrow> getPointer (node_left nd) \<noteq> None \<or> getPointer (node_right nd) \<noteq> None"

definition node_ok :: "pTree \<Rightarrow> nat \<Rightarrow> bool" where
  "node_ok T n \<longleftrightarrow> n < brk T \<and> (case nodes T n of None \<Rightarrow> False
     | Some nd \<Rightarrow> (case node_state nd of None \<Rightarrow> has_kid nd | Some s \<Rightarrow> \<not> has_kid nd \<and> ptreeNode T s = n))"

text \<open>
  The store holds the tree \<open>t\<close>; the states sit in its leaves and know their node, and a
  node without a state has a child.
\<close>

definition wf_ptree :: "pTree \<Rightarrow> nat tree \<Rightarrow> bool" where
  "wf_ptree T t \<longleftrightarrow> tree_at (nodes T) None (getPointer (root T)) t \<and> distinct (inorder t) \<and> (\<forall>n \<in> set_tree t. node_ok T n)"

definition live :: "pTree \<Rightarrow> nat tree \<Rightarrow> nat set" where
  "live T t = {s. \<exists>n \<in> set_tree t. \<exists>nd. nodes T n = Some nd \<and> node_state nd = Some s}"

lemma live_ptreeNode:
  assumes "wf_ptree T t" "s \<in> live T t"
  obtains nd where "ptreeNode T s \<in> set_tree t" "nodes T (ptreeNode T s) = Some nd" "node_state nd = Some s" "\<not> has_kid nd"
  using assms unfolding wf_ptree_def live_def node_ok_def by (fastforce split: option.splits)

lemma tree_at_leaf:
  assumes "tree_at h par p (Node l n r)" "h n = Some nd" "\<not> has_kid nd"
  shows "l = Leaf" "r = Leaf"
  using assms by (cases l; cases r; auto simp: has_kid_def)+

lemma tree_at_Leaf_iff: "tree_at h par p t \<Longrightarrow> p = None \<longleftrightarrow> t = Leaf"
  by (cases t) auto

text \<open>Every tree but the empty one has a live state.\<close>

lemma tree_at_live:
  "tree_at (nodes T) par p t \<Longrightarrow> t \<noteq> Leaf \<Longrightarrow> \<forall>n \<in> set_tree t. node_ok T n \<Longrightarrow> live T t \<noteq> {}"
proof (induction t arbitrary: par p)
  case (Node l n r)
  then obtain nd where nd: "nodes T n = Some nd" "tree_at (nodes T) (Some n) (getPointer (node_left nd)) l" "tree_at (nodes T) (Some n) (getPointer (node_right nd)) r"
    by (auto split: option.splits)
  have ok: "node_ok T n" using Node.prems by simp
  show ?case
  proof (cases "node_state nd")
    case None
    then have "l \<noteq> Leaf \<or> r \<noteq> Leaf" using ok nd tree_at_Leaf_iff [OF nd(2)] tree_at_Leaf_iff [OF nd(3)] by (auto simp: node_ok_def has_kid_def)
    then have "live T l \<noteq> {} \<or> live T r \<noteq> {}" using Node nd by (metis tree.set_intros(1,3))
    then show ?thesis by (fastforce simp: live_def)
  qed (use nd in \<open>auto simp: live_def\<close>)
qed simp

lemma wf_live_nonempty: "wf_ptree T t \<Longrightarrow> t \<noteq> Leaf \<Longrightarrow> live T t \<noteq> {}"
  using tree_at_live unfolding wf_ptree_def by blast

text \<open>A live state's node is a leaf, with the way to the root around it.\<close>

lemma live_zipper:
  assumes "wf_ptree T t" "s \<in> live T t"
  obtains fs nd where "t = plug (Node Leaf (ptreeNode T s) Leaf) fs" "nodes T (ptreeNode T s) = Some nd"
    "node_state nd = Some s" "\<not> has_kid nd"
    "ctx_at (nodes T) (getPointer (root T)) (Some (ptreeNode T s)) (node_parent nd) fs"
    "distinct_ctx fs" "ptreeNode T s \<notin> ctx_set fs"
proof -
  obtain nd where nd: "ptreeNode T s \<in> set_tree t" "nodes T (ptreeNode T s) = Some nd" "node_state nd = Some s" "\<not> has_kid nd"
    using live_ptreeNode [OF assms] .
  obtain l r fs where t: "t = plug (Node l (ptreeNode T s) r) fs" using plug_cases [OF nd(1)] by blast
  have w: "tree_at (nodes T) None (getPointer (root T)) t" "distinct (inorder t)" using assms by (simp_all add: wf_ptree_def)
  obtain c par where c: "tree_at (nodes T) par c (Node l (ptreeNode T s) r)" "ctx_at (nodes T) (getPointer (root T)) c par fs"
    using w(1) unfolding t tree_at_plug by blast
  have lr: "l = Leaf" "r = Leaf" using tree_at_leaf [OF c(1) nd(2,4)] by simp_all
  from c nd(2) have cp: "c = Some (ptreeNode T s)" "par = node_parent nd" by auto
  from w(2) have "distinct_ctx fs" "ptreeNode T s \<notin> ctx_set fs" unfolding t distinct_plug by auto
  with that [OF _ nd(2-4)] c(2) show ?thesis unfolding t lr cp by blast
qed

section \<open>Attaching\<close>

text \<open>The link to the hole of a context.\<close>

fun hole_ptr :: "pTree \<Rightarrow> frame list \<Rightarrow> pTreeNodePtr" where
  "hole_ptr T [] = root T"
| "hole_ptr T (f # fs) = (case nodes T (fnode f) of None \<Rightarrow> null_ptr | Some nd \<Rightarrow> child_slot f nd)"

lemma ctx_sibling_neq:
  assumes "ctx_at h rt (Some n) par (f # fs)" "n \<notin> ctx_set (f # fs)" "h (fnode f) = Some nd"
  shows "getPointer (other_slot f nd) \<noteq> Some n"
  using assms by (cases "sibling f") (auto split: option.splits)

lemma child_ptr_ctx:
  assumes "ctx_at (nodes T) (getPointer (root T)) (Some n) par fs" "n \<notin> ctx_set fs"
  shows "child_ptr n par T = Some (hole_ptr T fs)"
proof (cases fs)
  case (Cons f gs)
  then obtain nd where nd: "nodes T (fnode f) = Some nd" "par = Some (fnode f)" "getPointer (child_slot f nd) = Some n"
    using assms(1) by (auto split: option.splits)
  moreover have "getPointer (other_slot f nd) \<noteq> Some n" using ctx_sibling_neq [of "nodes T" _ n par f gs nd] nd(1) assms Cons by blast
  ultimately show ?thesis using Cons by (cases f) (auto simp: child_ptr_def)
qed (use assms in \<open>simp add: child_ptr_def\<close>)

definition attached :: "nat \<Rightarrow> pTreeNode \<Rightarrow> nat \<Rightarrow> nat \<Rightarrow> pTreeNodePtr \<Rightarrow> pTree \<Rightarrow> pTree" where
  "attached n nd s' s c T = T\<lparr>nodes := (nodes T)(brk T \<mapsto> new_node (Some n) s', Suc (brk T) \<mapsto> new_node (Some n) s,
       n \<mapsto> nd\<lparr>node_state := None, node_left := node_ptr (brk T) 0, node_right := node_ptr (Suc (brk T)) (getInt c)\<rparr>),
     ptreeNode := (ptreeNode T)(s' := brk T, s := Suc (brk T)), brk := Suc (Suc (brk T))\<rparr>"

lemma attach_eq:
  assumes "nodes T n = Some nd" "n = ptreeNode T s" "n < brk T" "node_parent nd \<noteq> Some n" "node_parent nd \<noteq> Some (brk T)"
    and "child_ptr n (node_parent nd) T = Some c"
  shows "PTree__attach n s' s T = Some (attached n nd s' s c T)"
proof -
  have cp: "child_ptr n (node_parent nd) (T\<lparr>ptreeNode := a, brk := b, nodes := (nodes T)(brk T := y, n := z)\<rparr>) = Some c" for y z a b
    using assms(4-6) by (cases "node_parent nd") (auto simp: child_ptr_def)
  show ?thesis
    using assms cp
    by (auto simp: PTree__attach_def PTreeNode__PTreeNode_def set_node_def attached_def Let_def fun_upd_twist intro!: ext)
qed

lemma attach_ok:
  assumes w: "wf_ptree T t" and s: "s \<in> live T t" and s': "s' \<notin> live T t" "s' \<noteq> s"
  defines "n \<equiv> ptreeNode T s"
  obtains T' fs nd where "PTree__attach n s' s T = Some T'" "T' = attached n nd s' s (hole_ptr T fs) T"
    "t = plug (Node Leaf n Leaf) fs" "n < brk T" "\<forall>m \<in> ctx_set fs. m < brk T"
    "wf_ptree T' (plug (Node (Node Leaf (brk T) Leaf) n (Node Leaf (Suc (brk T)) Leaf)) fs)"
    "live T' (plug (Node (Node Leaf (brk T) Leaf) n (Node Leaf (Suc (brk T)) Leaf)) fs) = insert s' (live T t)"
proof -
  obtain fs nd where z: "t = plug (Node Leaf n Leaf) fs" "nodes T n = Some nd"
    "node_state nd = Some s" "\<not> has_kid nd"
    "ctx_at (nodes T) (getPointer (root T)) (Some n) (node_parent nd) fs" "distinct_ctx fs" "n \<notin> ctx_set fs"
    using live_zipper [OF w s] unfolding n_def .
  have ok: "node_ok T m" if "m \<in> ctx_set fs \<or> m = n" for m using w that unfolding wf_ptree_def z(1) set_plug by auto
  have lt: "m < brk T" if "m \<in> ctx_set fs \<or> m = n" for m using ok [OF that] by (simp add: node_ok_def)
  have par: "node_parent nd \<noteq> Some n" "node_parent nd \<noteq> Some (brk T)"
    using z(5,7) lt [of "fnode (hd fs)"] by (cases fs; auto)+
  define T' where "T' = attached n nd s' s (hole_ptr T fs) T"
  let ?t = "plug (Node (Node Leaf (brk T) Leaf) n (Node Leaf (Suc (brk T)) Leaf)) fs"
  have same: "nodes T' m = nodes T m" if "m \<in> ctx_set fs" for m
    using that lt [of m] z(7) by (auto simp: T'_def attached_def)
  have nodes': "nodes T' n = Some (nd\<lparr>node_state := None, node_left := node_ptr (brk T) 0, node_right := node_ptr (Suc (brk T)) (getInt (hole_ptr T fs))\<rparr>)"
    "nodes T' (brk T) = Some (new_node (Some n) s')" "nodes T' (Suc (brk T)) = Some (new_node (Some n) s)"
    "root T' = root T" "brk T' = Suc (Suc (brk T))"
    using lt [of n] by (auto simp: T'_def attached_def)
  have "ctx_at (nodes T') (getPointer (root T')) (Some n) (node_parent nd) fs"
    using z(5) same by (subst ctx_at_cong [of _ "nodes T'" "nodes T"]) (simp_all add: nodes')
  then have "tree_at (nodes T') None (getPointer (root T')) ?t"
    unfolding tree_at_plug by (intro exI [of _ "Some n"] exI [of _ "node_parent nd"]) (simp add: nodes' node_ptr_def new_node_def null_ptr_def)
  moreover have "distinct (inorder ?t)" using z(6,7) lt unfolding distinct_plug by (fastforce simp: less_Suc_eq)
  moreover have "node_ok T' m" if "m \<in> set_tree ?t" for m
  proof -
    consider "m = n" | "m = brk T" | "m = Suc (brk T)" | "m \<in> ctx_set fs" using \<open>m \<in> set_tree ?t\<close> by (auto simp: set_plug)
    then show ?thesis
    proof cases
      case 4
      then obtain md where md: "nodes T m = Some md" using ok [of m] by (auto simp: node_ok_def split: option.splits)
      have "node_state md \<noteq> Some s" using ok [of m] md 4 z(7) by (auto simp: node_ok_def n_def)
      moreover have "node_state md \<noteq> Some s'" using s'(1) 4 md unfolding live_def z(1) by (auto simp: set_plug)
      ultimately show ?thesis using ok [of m] 4 same [OF 4] md
        by (auto simp: node_ok_def nodes' T'_def attached_def split: option.splits)
    qed (use lt [of n] s'(2) in \<open>auto simp: node_ok_def nodes' has_kid_def node_ptr_def new_node_def null_ptr_def\<close>,
         auto simp: T'_def attached_def)
  qed
  ultimately have "wf_ptree T' ?t" by (auto simp: wf_ptree_def)
  moreover have "live T' ?t = insert s' (live T t)"
    unfolding live_def z(1) set_plug using same z(2,3) by (auto simp: nodes' new_node_def)
  moreover have "PTree__attach n s' s T = Some T'"
    unfolding T'_def by (rule attach_eq) (use z(2) lt [of n] par child_ptr_ctx [OF z(5,7)] in \<open>simp_all add: n_def\<close>)
  ultimately show ?thesis using that [OF _ T'_def z(1)] lt by blast
qed

section \<open>Removing\<close>

fun set_slot :: "frame \<Rightarrow> pTreeNodePtr \<Rightarrow> pTreeNode \<Rightarrow> pTreeNode" where
  "set_slot (FL m r) c nd = nd\<lparr>node_left := c\<rparr>" | "set_slot (FR l m) c nd = nd\<lparr>node_right := c\<rparr>"

lemma set_slot_simps [simp]:
  "child_slot f (set_slot f c nd) = c" "other_slot f (set_slot f c nd) = other_slot f nd"
  "node_parent (set_slot f c nd) = node_parent nd" "node_state (set_slot f c nd) = node_state nd"
  by (cases f; simp)+

lemma has_kid_slots: "has_kid nd \<longleftrightarrow> getPointer (child_slot f nd) \<noteq> None \<or> getPointer (other_slot f nd) \<noteq> None"
  by (cases f) (auto simp: has_kid_def)

text \<open>The ancestors that lose their last child, and the first one that keeps a child.\<close>

definition dying :: "frame list \<Rightarrow> frame list" where
  "dying fs = takeWhile (\<lambda>f. sibling f = Leaf) fs"

definition staying :: "frame list \<Rightarrow> frame list" where
  "staying fs = dropWhile (\<lambda>f. sibling f = Leaf) fs"

lemma dying_staying_simps [simp]:
  "dying [] = []" "staying [] = []"
  "dying (f # fs) = (if sibling f = Leaf then f # dying fs else [])"
  "staying (f # fs) = (if sibling f = Leaf then staying fs else f # fs)"
  by (simp_all add: dying_def staying_def)

lemma dying_staying: "dying fs @ staying fs = fs"
  by (simp add: dying_def staying_def)

definition pruned :: "nat \<Rightarrow> frame list \<Rightarrow> (nat \<Rightarrow> pTreeNode option) \<Rightarrow> nat \<Rightarrow> pTreeNode option" where
  "pruned n fs h m =
     (if m = n \<or> m \<in> fnode ` set (dying fs) then None
      else case staying fs of [] \<Rightarrow> h m | f # _ \<Rightarrow> if m = fnode f then map_option (set_slot f null_ptr) (h m) else h m)"

lemma remove_loop_ok:
  assumes "ctx_at (nodes T) (getPointer (root T)) (Some n) (node_parent nd) fs" "nodes T n = Some nd"
    "n \<notin> ctx_set fs" "distinct_ctx fs"
  shows "remove_loop n T = Some (case staying fs of [] \<Rightarrow> None | f # _ \<Rightarrow> Some (fnode f), T\<lparr>nodes := pruned n fs (nodes T)\<rparr>)"
  using assms
proof (induction fs arbitrary: n nd T)
  case Nil
  have "(nodes T)(n := None) = pruned n [] (nodes T)" by (auto simp: pruned_def)
  with Nil show ?case by (subst remove_loop.simps) (simp add: delete_node_def)
next
  case (Cons f fs)
  obtain pd where pd: "nodes T (fnode f) = Some pd" "node_parent nd = Some (fnode f)" "getPointer (child_slot f pd) = Some n"
      "tree_at (nodes T) (Some (fnode f)) (getPointer (other_slot f pd)) (sibling f)"
      "ctx_at (nodes T) (getPointer (root T)) (Some (fnode f)) (node_parent pd) fs"
    using Cons.prems(1) by (auto split: option.splits)
  have nf: "n \<noteq> fnode f" using Cons.prems(3) by simp
  have other: "getPointer (other_slot f pd) \<noteq> Some n"
    using ctx_sibling_neq [of "nodes T" _ n _ f fs pd] pd(1) Cons.prems by blast
  define T1 where "T1 = T\<lparr>nodes := (nodes T)(fnode f \<mapsto> set_slot f null_ptr pd, n := None)\<rparr>"
  have step: "remove_loop n T = (if getPointer (other_slot f pd) = None then remove_loop (fnode f) T1 else Some (Some (fnode f), T1))"
    using pd other nf Cons.prems(2)
    by (cases f; subst remove_loop.simps) (auto simp: T1_def set_node_def delete_node_def null_ptr_def)
  show ?case
  proof (cases "sibling f = Leaf")
    case True
    then have z: "getPointer (other_slot f pd) = None" using pd(4) by simp
    have "ctx_at (nodes T1) (getPointer (root T1)) (Some (fnode f)) (node_parent (set_slot f null_ptr pd)) fs"
      using pd(5) Cons.prems(3,4) by (subst ctx_at_cong [of _ _ "nodes T"]) (auto simp: T1_def)
    moreover have "nodes T1 (fnode f) = Some (set_slot f null_ptr pd)" using nf by (simp add: T1_def)
    ultimately have "remove_loop (fnode f) T1 = Some (case staying fs of [] \<Rightarrow> None | f # _ \<Rightarrow> Some (fnode f), T1\<lparr>nodes := pruned (fnode f) fs (nodes T1)\<rparr>)"
      using Cons.prems(4) by (intro Cons.IH) auto
    moreover have "pruned (fnode f) fs (nodes T1) = pruned n (f # fs) (nodes T)"
    proof
      fix m
      show "pruned (fnode f) fs (nodes T1) m = pruned n (f # fs) (nodes T) m"
      proof (cases "staying fs")
        case (Cons g gs)
        then have "g \<in> set fs" by (metis dying_staying in_set_conv_decomp)
        then have "n \<noteq> fnode g" using Cons.prems(3) by (auto simp: ctx_set_def)
        with Cons True show ?thesis by (auto simp: pruned_def T1_def)
      qed (use True in \<open>simp add: pruned_def T1_def\<close>)
    qed
    ultimately show ?thesis using step z True by (simp add: T1_def)
  next
    case False
    then have "getPointer (other_slot f pd) \<noteq> None" using pd(4) tree_at_Leaf_iff by blast
    moreover have "nodes T1 = pruned n (f # fs) (nodes T)"
      using False nf pd(1) by (auto simp: pruned_def T1_def)
    ultimately show ?thesis using step False by (auto simp: T1_def)
  qed
qed

lemma ctx_at_kid:
  "ctx_at h rt (Some c) par fs \<Longrightarrow> f \<in> set fs \<Longrightarrow> \<exists>nd. h (fnode f) = Some nd \<and> has_kid nd"
proof (induction fs arbitrary: c par)
  case (Cons g gs)
  then show ?case by (cases "f = g") (auto simp: has_kid_slots [of _ f] split: option.splits)
qed simp

text \<open>The compression step: the node of \<open>f\<close> is replaced by its only child.\<close>

definition lifted :: "frame \<Rightarrow> frame list \<Rightarrow> pTreeNode \<Rightarrow> nat \<Rightarrow> pTreeNode \<Rightarrow> pTree \<Rightarrow> pTree" where
  "lifted f gs nd c cd T = (
     let child = other_slot f nd;
         T = T\<lparr>nodes := (nodes T)(c \<mapsto> cd\<lparr>node_parent := node_parent nd\<rparr>)\<rparr>;
         T = (case gs of [] \<Rightarrow> T\<lparr>root := child\<rparr>
              | g # _ \<Rightarrow> T\<lparr>nodes := (nodes T)(fnode g := map_option (set_slot g child) (nodes T (fnode g)))\<rparr>)
     in T\<lparr>nodes := (nodes T)(fnode f := None)\<rparr>)"

definition removed :: "bool \<Rightarrow> nat \<Rightarrow> frame list \<Rightarrow> pTree \<Rightarrow> pTree" where
  "removed compress n fs T = (
     let T' = T\<lparr>nodes := pruned n fs (nodes T)\<rparr> in
     case staying fs of [] \<Rightarrow> T'
     | f # gs \<Rightarrow> if \<not> compress then T' else
         lifted f gs (the (nodes T' (fnode f))) (the (getPointer (other_slot f (the (nodes T' (fnode f))))))
           (the (nodes T' (the (getPointer (other_slot f (the (nodes T' (fnode f)))))))) T')"

text \<open>What is left of the tree.\<close>

definition rest_tree :: "bool \<Rightarrow> frame list \<Rightarrow> nat tree" where
  "rest_tree compress fs = (case staying fs of [] \<Rightarrow> Leaf
     | f # gs \<Rightarrow> if compress then plug (sibling f) gs else plug Leaf (f # gs))"

lemma staying_ctx:
  assumes t: "tree_at h None rt (plug (Node Leaf n Leaf) fs)" "distinct_ctx fs" "n \<notin> ctx_set fs" and st: "staying fs = f # gs"
  obtains c pd where "h (fnode f) = Some pd" "getPointer (child_slot f pd) = Some c" "sibling f \<noteq> Leaf"
    "tree_at h (Some (fnode f)) (getPointer (other_slot f pd)) (sibling f)"
    "ctx_at h rt (Some (fnode f)) (node_parent pd) gs"
    "insert n (fnode ` set (dying fs)) \<inter> insert (fnode f) (set_tree (sibling f) \<union> ctx_set gs) = {}"
    "distinct_ctx (f # gs)"
proof -
  have fs: "fs = dying fs @ f # gs" using st dying_staying [of fs] by simp
  let ?u = "plug (Node Leaf n Leaf) (dying fs)"
  have pl: "plug (Node Leaf n Leaf) fs = plug ?u (f # gs)" by (subst fs) (simp add: plug_append)
  obtain c par where c: "tree_at h par c ?u" "ctx_at h rt c par (f # gs)" using t(1) unfolding pl tree_at_plug by blast
  have "?u \<noteq> Leaf" using set_plug [of "Node Leaf n Leaf" "dying fs"] by auto
  then obtain c' where c': "c = Some c'" using tree_at_Leaf_iff [OF c(1)] by auto
  have sib: "sibling f \<noteq> Leaf" using st hd_dropWhile [of "\<lambda>f. sibling f = Leaf" fs] unfolding staying_def by simp
  have d: "distinct (inorder (plug ?u (f # gs)))" unfolding pl [symmetric] distinct_plug using t by simp
  have "insert n (fnode ` set (dying fs)) \<subseteq> set_tree ?u" by (auto simp: set_plug ctx_set_def)
  with d have "insert n (fnode ` set (dying fs)) \<inter> ctx_set (f # gs) = {}" "distinct_ctx (f # gs)" unfolding distinct_plug by auto
  moreover obtain pd where "h (fnode f) = Some pd" "getPointer (child_slot f pd) = Some c'"
    "tree_at h (Some (fnode f)) (getPointer (other_slot f pd)) (sibling f)" "ctx_at h rt (Some (fnode f)) (node_parent pd) gs"
    using c(2) unfolding c' by (auto split: option.splits)
  ultimately show ?thesis using that sib by simp
qed

lemma pruned_other:
  "m \<notin> insert n (fnode ` set (dying fs)) \<Longrightarrow> staying fs = f # gs \<Longrightarrow> m \<noteq> fnode f \<Longrightarrow> pruned n fs h m = h m"
  "fnode f \<notin> insert n (fnode ` set (dying fs)) \<Longrightarrow> staying fs = f # gs \<Longrightarrow> pruned n fs h (fnode f) = map_option (set_slot f null_ptr) (h (fnode f))"
  by (auto simp: pruned_def)

lemma remove_eq:
  assumes t: "tree_at (nodes T) None (getPointer (root T)) (plug (Node Leaf n Leaf) fs)" "distinct_ctx fs" "n \<notin> ctx_set fs"
    and nd: "nodes T n = Some nd" "\<not> has_kid nd" "ctx_at (nodes T) (getPointer (root T)) (Some n) (node_parent nd) fs"
  shows "PTree__remove compress n T = Some (removed compress n fs T)"
proof -
  note loop = remove_loop_ok [OF nd(3,1) t(3,2)]
  define T' where "T' = T\<lparr>nodes := pruned n fs (nodes T)\<rparr>"
  have start: "PTree__remove compress n T = (case staying fs of [] \<Rightarrow> Some T' | f # gs \<Rightarrow>
      if compress then do {
            nd \<leftarrow> nodes T' (fnode f);
            let child = (if getPointer (node_left nd) \<noteq> None then node_left nd else node_right nd);
            c \<leftarrow> getPointer child;
            cd \<leftarrow> nodes T' c;
            let T = set_node c (cd\<lparr>node_parent := node_parent nd\<rparr>) T';
            T \<leftarrow> (case node_parent nd of
                None \<Rightarrow> Some (T\<lparr>root := child\<rparr>)
              | Some p \<Rightarrow> do {
                  pd \<leftarrow> nodes T p;
                  (if Some (fnode f) = getPointer (node_left pd) then Some (set_node p (pd\<lparr>node_left := child\<rparr>) T)
                   else do {
                     assert_that (Some (fnode f) = getPointer (node_right pd));
                     Some (set_node p (pd\<lparr>node_right := child\<rparr>) T)
                   })
                });
            Some (delete_node (fnode f) T)
          } else Some T')"
    using nd(1,2) by (simp add: PTree__remove_def loop T'_def [symmetric] has_kid_def split: list.split)
  show ?thesis
  proof (cases "staying fs")
    case Nil
    with start show ?thesis by (simp add: removed_def T'_def)
  next
    case (Cons f gs)
    obtain c pd where f: "nodes T (fnode f) = Some pd" "sibling f \<noteq> Leaf"
      "tree_at (nodes T) (Some (fnode f)) (getPointer (other_slot f pd)) (sibling f)"
      "ctx_at (nodes T) (getPointer (root T)) (Some (fnode f)) (node_parent pd) gs"
      "insert n (fnode ` set (dying fs)) \<inter> insert (fnode f) (set_tree (sibling f) \<union> ctx_set gs) = {}" "distinct_ctx (f # gs)"
      using staying_ctx [OF t Cons] by metis
    then obtain l q r cd where q: "sibling f = Node l q r" "getPointer (other_slot f pd) = Some q" "nodes T q = Some cd"
      by (cases "sibling f") (auto split: option.splits)
    have n1: "nodes T' (fnode f) = Some (set_slot f null_ptr pd)" using pruned_other(2) [OF _ Cons] f(1,5) by (auto simp: T'_def)
    have n2: "nodes T' m = nodes T m" if "m \<in> set_tree (sibling f) \<union> ctx_set gs" for m
    proof -
      have "m \<notin> insert n (fnode ` set (dying fs))" using that f(5) by blast
      moreover have "m \<noteq> fnode f" using that f(6) by auto
      ultimately show ?thesis using pruned_other(1) [OF _ Cons] by (simp add: T'_def)
    qed
    have child: "(if getPointer (node_left (set_slot f null_ptr pd)) \<noteq> None then node_left (set_slot f null_ptr pd) else node_right (set_slot f null_ptr pd)) = other_slot f pd"
      using q(2) by (cases f) (auto simp: null_ptr_def)
    have nq: "nodes T' q = Some cd" using n2 [of q] q by simp
    show ?thesis
    proof (cases gs)
      case Nil
      then have "node_parent pd = None" using f(4) by simp
      with start Cons Nil show ?thesis
        by (cases compress) (simp_all add: n1 child nq q(2) removed_def lifted_def T'_def [symmetric] Let_def set_node_def delete_node_def del: not_None_eq)
    next
      case (Cons g hs)
      then obtain gd where g: "node_parent pd = Some (fnode g)" "nodes T (fnode g) = Some gd" "getPointer (child_slot g gd) = Some (fnode f)"
        using f(4) by (auto split: option.splits)
      have "getPointer (other_slot g gd) \<noteq> Some (fnode f)"
        using ctx_sibling_neq [of "nodes T" _ "fnode f" _ g hs gd] f(4,6) g(2) Cons by auto
      moreover have "nodes T' (fnode g) = Some gd" "fnode g \<noteq> q" using n2 [of "fnode g"] g(2) Cons f(6) q(1) by auto
      ultimately show ?thesis using start \<open>staying fs = f # gs\<close> Cons g
        by (cases compress; cases g) (auto simp: n1 child nq q(2) removed_def lifted_def T'_def [symmetric] Let_def set_node_def delete_node_def fun_upd_twist simp del: not_None_eq)
    qed
  qed
qed

lemma removed_nodes:
  assumes t: "tree_at (nodes T) None (getPointer (root T)) (plug (Node Leaf n Leaf) fs)" "distinct_ctx fs" "n \<notin> ctx_set fs"
    and st: "staying fs = f # gs"
  obtains pd l q r cd where "nodes T (fnode f) = Some pd" "sibling f = Node l q r" "nodes T q = Some cd"
    "getPointer (other_slot f pd) = Some q" "node_parent cd = Some (fnode f)"
    "tree_at (nodes T) (Some q) (getPointer (node_left cd)) l" "tree_at (nodes T) (Some q) (getPointer (node_right cd)) r"
    "ctx_at (nodes T) (getPointer (root T)) (Some (fnode f)) (node_parent pd) gs" "distinct_ctx (f # gs)"
    "n \<notin> insert (fnode f) (set_tree (sibling f) \<union> ctx_set gs)"
    "\<forall>m \<in> set_tree l \<union> set_tree r. nodes (removed compress n fs T) m = nodes T m"
    "\<forall>m \<in> ctx_set gs. \<not> compress \<or> m \<noteq> fnode (hd gs) \<longrightarrow> nodes (removed compress n fs T) m = nodes T m"
    "nodes (removed compress n fs T) q = Some (if compress then cd\<lparr>node_parent := node_parent pd\<rparr> else cd)"
    "\<not> compress \<longrightarrow> nodes (removed compress n fs T) (fnode f) = Some (set_slot f null_ptr pd)"
    "compress \<longrightarrow> gs \<noteq> [] \<longrightarrow> nodes (removed compress n fs T) (fnode (hd gs)) = map_option (set_slot (hd gs) (other_slot f pd)) (nodes T (fnode (hd gs)))"
    "root (removed compress n fs T) = (if compress \<and> gs = [] then other_slot f pd else root T)"
proof -
  obtain c pd where f: "nodes T (fnode f) = Some pd" "sibling f \<noteq> Leaf"
      "tree_at (nodes T) (Some (fnode f)) (getPointer (other_slot f pd)) (sibling f)"
      "ctx_at (nodes T) (getPointer (root T)) (Some (fnode f)) (node_parent pd) gs"
      "insert n (fnode ` set (dying fs)) \<inter> insert (fnode f) (set_tree (sibling f) \<union> ctx_set gs) = {}" "distinct_ctx (f # gs)"
    using staying_ctx [OF t st] by metis
  obtain l q r where q: "sibling f = Node l q r" "getPointer (other_slot f pd) = Some q"
    using f(2,3) by (cases "sibling f") auto
  then obtain cd where cd: "nodes T q = Some cd" "node_parent cd = Some (fnode f)"
    "tree_at (nodes T) (Some q) (getPointer (node_left cd)) l" "tree_at (nodes T) (Some q) (getPointer (node_right cd)) r"
    using f(3) by (auto split: option.splits)
  define T' where "T' = T\<lparr>nodes := pruned n fs (nodes T)\<rparr>"
  have n1: "nodes T' (fnode f) = Some (set_slot f null_ptr pd)" using pruned_other(2) [OF _ st] f(1,5) by (auto simp: T'_def)
  have n2: "nodes T' m = nodes T m" if "m \<in> set_tree (sibling f) \<union> ctx_set gs" for m
  proof -
    have "m \<notin> insert n (fnode ` set (dying fs))" using that f(5) by blast
    moreover have "m \<noteq> fnode f" using that f(6) by auto
    ultimately show ?thesis using pruned_other(1) [OF _ st] by (simp add: T'_def)
  qed
  have nq: "nodes T' q = Some cd" using n2 [of q] q cd by simp
  have rem: "removed compress n fs T = (if compress then lifted f gs (set_slot f null_ptr pd) q cd T' else T')"
    by (simp add: removed_def st T'_def [symmetric] n1 q(2) nq Let_def)
  have dis: "q \<notin> set_tree l \<union> set_tree r" "fnode f \<notin> set_tree (sibling f) \<union> ctx_set gs" "set_tree (sibling f) \<inter> ctx_set gs = {}"
    using f(6) q(1) by auto
  have hd: "fnode (hd gs) \<in> ctx_set gs" if "gs \<noteq> []" using that by (cases gs) auto
  have g1: "nodes (removed compress n fs T) m = nodes T m" if "m \<in> set_tree l \<union> set_tree r" for m
  proof -
    have m: "m \<in> set_tree (sibling f)" "m \<noteq> q" "m \<noteq> fnode f" using that dis q(1) by auto
    moreover have "m \<noteq> fnode (hd gs)" if "gs \<noteq> []" using hd [OF that] dis(3) m(1) by auto
    ultimately show ?thesis using n2 [of m] by (auto simp: rem lifted_def Let_def split: list.splits)
  qed
  have g2: "nodes (removed compress n fs T) m = nodes T m" if "m \<in> ctx_set gs" "\<not> compress \<or> m \<noteq> fnode (hd gs)" for m
  proof -
    have m: "m \<noteq> q" "m \<noteq> fnode f" using that dis q(1) by auto
    then show ?thesis using n2 [of m] that by (auto simp: rem lifted_def Let_def split: list.splits)
  qed
  have fq: "q \<noteq> fnode f" "gs \<noteq> [] \<Longrightarrow> fnode (hd gs) \<noteq> q" "gs \<noteq> [] \<Longrightarrow> fnode (hd gs) \<noteq> fnode f"
    using dis q(1) hd by auto
  have g3: "nodes (removed compress n fs T) q = Some (if compress then cd\<lparr>node_parent := node_parent pd\<rparr> else cd)"
    using fq nq by (cases gs) (auto simp: rem lifted_def Let_def)
  have g4: "compress \<longrightarrow> gs \<noteq> [] \<longrightarrow> nodes (removed compress n fs T) (fnode (hd gs)) = map_option (set_slot (hd gs) (other_slot f pd)) (nodes T (fnode (hd gs)))"
    unfolding rem using fq n2 [of "fnode (hd gs)"] by (cases gs) (auto simp: lifted_def Let_def)
  have g5: "root (removed compress n fs T) = (if compress \<and> gs = [] then other_slot f pd else root T)"
    by (cases gs) (auto simp: rem lifted_def Let_def T'_def)
  show ?thesis
    by (rule that [OF f(1) q(1) cd(1) q(2) cd(2-4) f(4,6) _ _ _ g3 _ g4 g5]) (use f(5) n1 rem g1 g2 in auto)
qed

lemma ctx_at_set_hole:
  assumes "ctx_at h rt c par (f # fs)" "distinct_ctx (f # fs)" "h (fnode f) = Some nd"
    and "\<And>m. m \<in> ctx_set (f # fs) \<Longrightarrow> m \<noteq> fnode f \<Longrightarrow> h' m = h m" "h' (fnode f) = Some (set_slot f p nd)" "getPointer p = c'"
  shows "ctx_at h' rt c' par (f # fs)"
proof -
  have "tree_at h' q x (sibling f) = tree_at h q x (sibling f)" for q x using assms(2,4) by (intro tree_at_cong) auto
  moreover have "ctx_at h' q x y fs = ctx_at h q x y fs" for q x y using assms(2,4) by (intro ctx_at_cong) auto
  ultimately show ?thesis using assms by (auto split: option.splits)
qed

lemma dying_no_state:
  assumes "ctx_at (nodes T) rt (Some n) par fs" "\<And>m. m \<in> ctx_set fs \<Longrightarrow> node_ok T m" "f \<in> set fs" "nodes T (fnode f) = Some nd"
  shows "node_state nd = None" "has_kid nd"
proof -
  show k: "has_kid nd" using ctx_at_kid [OF assms(1,3)] assms(4) by auto
  have "fnode f \<in> ctx_set fs" using assms(3) by (auto simp: ctx_set_def)
  with assms(2,4) k show "node_state nd = None" by (fastforce simp: node_ok_def split: option.splits)
qed

lemma node_ok_cong:
  assumes "node_ok T m" "nodes T m = Some nd" "nodes T' m = Some nd'" "node_state nd' = node_state nd" "has_kid nd' = has_kid nd"
    "ptreeNode T' = ptreeNode T" "brk T' = brk T"
  shows "node_ok T' m"
  using assms by (auto simp: node_ok_def split: option.splits)

lemma removed_fields: "ptreeNode (removed c n fs T) = ptreeNode T" "brk (removed c n fs T) = brk T" "registeredIds (removed c n fs T) = registeredIds T"
  by (auto simp: removed_def lifted_def Let_def split: list.splits)

lemma removed_wf:
  assumes w: "wf_ptree T (plug (Node Leaf n Leaf) fs)" and nd: "nodes T n = Some nd" "node_state nd = Some s"
    and ctx: "ctx_at (nodes T) (getPointer (root T)) (Some n) (node_parent nd) fs"
    and st: "staying fs = f # gs"
  shows "wf_ptree (removed compress n fs T) (rest_tree compress fs)
    \<and> live (removed compress n fs T) (rest_tree compress fs) = live T (plug (Node Leaf n Leaf) fs) - {s}"
proof -
  let ?T = "removed compress n fs T" and ?t = "plug (Node Leaf n Leaf) fs"
  have t: "tree_at (nodes T) None (getPointer (root T)) ?t" "distinct_ctx fs" "n \<notin> ctx_set fs"
    and ok: "\<And>m. m = n \<or> m \<in> ctx_set fs \<Longrightarrow> node_ok T m"
    using w unfolding wf_ptree_def distinct_plug set_plug by auto
  obtain pd l q r cd where x: "nodes T (fnode f) = Some pd" "sibling f = Node l q r" "nodes T q = Some cd"
    "getPointer (other_slot f pd) = Some q" "node_parent cd = Some (fnode f)"
    "tree_at (nodes T) (Some q) (getPointer (node_left cd)) l" "tree_at (nodes T) (Some q) (getPointer (node_right cd)) r"
    "ctx_at (nodes T) (getPointer (root T)) (Some (fnode f)) (node_parent pd) gs" "distinct_ctx (f # gs)"
    "n \<notin> insert (fnode f) (set_tree (sibling f) \<union> ctx_set gs)"
    and y1: "\<forall>m \<in> set_tree l \<union> set_tree r. nodes ?T m = nodes T m"
    and y2: "\<forall>m \<in> ctx_set gs. \<not> compress \<or> m \<noteq> fnode (hd gs) \<longrightarrow> nodes ?T m = nodes T m"
    and y3: "nodes ?T q = Some (if compress then cd\<lparr>node_parent := node_parent pd\<rparr> else cd)"
    and y4: "\<not> compress \<longrightarrow> nodes ?T (fnode f) = Some (set_slot f null_ptr pd)"
    and y5: "compress \<longrightarrow> gs \<noteq> [] \<longrightarrow> nodes ?T (fnode (hd gs)) = map_option (set_slot (hd gs) (other_slot f pd)) (nodes T (fnode (hd gs)))"
    and y6: "root ?T = (if compress \<and> gs = [] then other_slot f pd else root T)"
    using removed_nodes [OF t st] .
  have fs: "fs = dying fs @ f # gs" using st dying_staying [of fs] by simp
  have sub: "ctx_set fs = ctx_set (dying fs) \<union> ctx_set (f # gs)" using arg_cong [OF fs, of ctx_set] by (simp only: ctx_set_append)
  have fin: "f \<in> set fs" using arg_cong [OF fs, of set] by auto
  have trees: "tree_at (nodes ?T) (Some q) p l = tree_at (nodes T) (Some q) p l" "tree_at (nodes ?T) (Some q) p r = tree_at (nodes T) (Some q) p r" for p
    by (rule tree_at_cong, use y1 in blast)+
  note pf = dying_no_state [OF ctx ok fin x(1)]
  have tree: "tree_at (nodes ?T) None (getPointer (root ?T)) (rest_tree compress fs)"
  proof (cases compress)
    case True
    have "ctx_at (nodes ?T) (getPointer (root ?T)) (Some q) (node_parent pd) gs"
    proof (cases gs)
      case Nil
      then show ?thesis using x(4,8) y6 True by simp
    next
      case (Cons g hs)
      then obtain gd where gd: "nodes T (fnode g) = Some gd" using x(8) by (auto split: option.splits)
      have rt: "root ?T = root T" using y6 by (simp add: Cons)
      show ?thesis unfolding Cons rt
      proof (rule ctx_at_set_hole [of "nodes T" _ "Some (fnode f)" _ g hs gd _ "other_slot f pd"])
        show "ctx_at (nodes T) (getPointer (root T)) (Some (fnode f)) (node_parent pd) (g # hs)" using x(8) by (simp only: Cons)
        show "distinct_ctx (g # hs)" using x(9) by (simp add: Cons)
        show "nodes ?T m = nodes T m" if "m \<in> ctx_set (g # hs)" "m \<noteq> fnode g" for m using y2 that by (simp add: Cons)
        show "nodes ?T (fnode g) = Some (set_slot g (other_slot f pd) gd)" using y5 True gd by (simp add: Cons)
      qed (fact gd, fact x(4))
    qed
    moreover have "tree_at (nodes ?T) (node_parent pd) (Some q) (sibling f)" using x(2,6,7) y3 True trees by simp
    ultimately show ?thesis unfolding rest_tree_def st by (auto simp: True tree_at_plug)
  next
    case False
    have "ctx_at (nodes T) (getPointer (root T)) (getPointer (child_slot f pd)) (Some (fnode f)) (f # gs)"
      using x(1-8) by simp
    note a = this
    have b: "nodes ?T m = nodes T m" if "m \<in> ctx_set (f # gs)" "m \<noteq> fnode f" for m
      using that y1 y2 y3 False x(2,3) by (cases "m = q") auto
    have "ctx_at (nodes ?T) (getPointer (root T)) None (Some (fnode f)) (f # gs)"
      by (rule ctx_at_set_hole [OF a x(9,1) b, of null_ptr]) (use y4 False in \<open>simp_all add: null_ptr_def\<close>)
    then have "ctx_at (nodes ?T) (getPointer (root ?T)) None (Some (fnode f)) (f # gs)" using y6 False by simp
    then have "\<exists>c par. tree_at (nodes ?T) par c Leaf \<and> ctx_at (nodes ?T) (getPointer (root ?T)) c par (f # gs)" by force
    then show ?thesis unfolding rest_tree_def st by (simp only: False tree_at_plug list.case if_False)
  qed
  have keeps: "\<exists>md'. nodes ?T m = Some md' \<and> node_state md' = node_state md \<and> has_kid md' = has_kid md"
    if m: "m \<in> set_tree (rest_tree compress fs)" "nodes T m = Some md" for m md
  proof -
    consider "m \<in> set_tree l \<union> set_tree r" | "m = q" | "m \<in> ctx_set gs" "\<not> compress \<or> m \<noteq> fnode (hd gs)"
      | "compress" "gs \<noteq> []" "m = fnode (hd gs)" | "\<not> compress" "m = fnode f"
      using m(1) x(2) unfolding rest_tree_def st by (cases "gs = []") (auto simp: set_plug split: if_splits)
    then show ?thesis
    proof cases
      case 4
      then obtain g hs where g: "gs = g # hs" by (cases gs) auto
      have "has_kid md" using ctx_at_kid [OF x(8), of g] g m(2) 4 by auto
      then show ?thesis using 4 y5 m(2) x(4) by (auto simp: g has_kid_slots [of _ g])
    next
      case 5
      then show ?thesis using y4 m(2) x(1,4) by (auto simp: has_kid_slots [of _ f] null_ptr_def)
    qed (use y1 y2 y3 m(2) x(3) in \<open>auto simp: has_kid_def\<close>)
  qed
  have sets: "set_tree ?t = insert n (ctx_set (dying fs)) \<union> insert (fnode f) (set_tree (sibling f) \<union> ctx_set gs)"
    "set_tree (rest_tree compress fs) \<subseteq> insert (fnode f) (set_tree (sibling f) \<union> ctx_set gs)"
    "insert (fnode f) (set_tree (sibling f) \<union> ctx_set gs) \<subseteq> insert (fnode f) (set_tree (rest_tree compress fs))"
    using sub unfolding rest_tree_def st by (auto simp: set_plug)
  have ndom: "\<exists>md. nodes T m = Some md" if "m \<in> set_tree ?t" for m
    using ok [of m] that by (auto simp: set_plug node_ok_def split: option.splits)
  have "node_ok ?T m" if mr: "m \<in> set_tree (rest_tree compress fs)" for m
  proof -
    have m: "m \<in> set_tree ?t" using mr sets by blast
    obtain md where md: "nodes T m = Some md" using ndom [OF m] by blast
    obtain md' where "nodes ?T m = Some md'" "node_state md' = node_state md" "has_kid md' = has_kid md" using keeps [OF mr md] by blast
    moreover have "node_ok T m" using ok [of m] m by (auto simp: set_plug)
    ultimately show ?thesis using node_ok_cong [OF _ md] removed_fields by blast
  qed
  moreover have "distinct (inorder (rest_tree compress fs))"
    using x(9) unfolding rest_tree_def st by (auto simp: distinct_plug)
  ultimately have wf': "wf_ptree ?T (rest_tree compress fs)" using tree by (simp add: wf_ptree_def)
  have dead: "node_state md = None" if mm: "m \<in> insert (fnode f) (ctx_set (dying fs))" "nodes T m = Some md" for m md
  proof -
    have "\<exists>g \<in> set fs. m = fnode g"
    proof (cases "m = fnode f")
      case False
      then obtain g where "g \<in> set (dying fs)" "m \<in> insert (fnode g) (set_tree (sibling g))" using mm(1) by (auto simp: ctx_set_def)
      then show ?thesis using set_takeWhileD [of g "\<lambda>f. sibling f = Leaf" fs] by (auto simp: dying_def)
    qed (use fin in auto)
    then show ?thesis using dying_no_state(1) [OF ctx ok] mm(2) by auto
  qed
  have "live ?T (rest_tree compress fs) = live T ?t - {s}"
  proof (intro set_eqI iffI)
    fix a
    assume "a \<in> live ?T (rest_tree compress fs)"
    then obtain m md' where m: "m \<in> set_tree (rest_tree compress fs)" "nodes ?T m = Some md'" "node_state md' = Some a" by (auto simp: live_def)
    have mt: "m \<in> set_tree ?t" "m \<noteq> n" using m(1) sets x(10) by blast+
    obtain md where md: "nodes T m = Some md" using ndom [OF mt(1)] by blast
    have "node_state md = Some a" using keeps [OF m(1) md] m by auto
    moreover have "a \<noteq> s" using ok [of m] ok [of n] mt md nd calculation by (auto simp: set_plug node_ok_def)
    ultimately show "a \<in> live T ?t - {s}" using mt(1) md by (auto simp: live_def)
  next
    fix a
    assume "a \<in> live T ?t - {s}"
    then obtain m md where m: "m \<in> set_tree ?t" "nodes T m = Some md" "node_state md = Some a" "a \<noteq> s" by (auto simp: live_def)
    have "m \<noteq> n" using m nd by auto
    moreover have "m \<notin> insert (fnode f) (ctx_set (dying fs))" using dead [OF _ m(2)] m(3) by auto
    ultimately have "m \<in> set_tree (rest_tree compress fs)" using m(1) sets by blast
    then show "a \<in> live ?T (rest_tree compress fs)" using keeps [OF _ m(2)] m(3) by (force simp: live_def)
  qed
  with wf' show ?thesis by blast
qed

lemma staying_live:
  assumes w: "wf_ptree T (plug (Node Leaf n Leaf) fs)" and nd: "nodes T n = Some nd" "node_state nd = Some s"
    and ctx: "ctx_at (nodes T) (getPointer (root T)) (Some n) (node_parent nd) fs" and st: "staying fs = []"
  shows "live T (plug (Node Leaf n Leaf) fs) = {s}"
proof -
  have all: "sibling f = Leaf" if "f \<in> set fs" for f using st that by (auto simp: staying_def)
  have ok: "node_ok T m" if "m \<in> ctx_set fs" for m using w that by (auto simp: wf_ptree_def set_plug)
  have "node_state md = None" if m: "m \<in> ctx_set fs" "nodes T m = Some md" for m md
  proof -
    obtain f where "f \<in> set fs" "m = fnode f" using m(1) all by (auto simp: ctx_set_def)
    then show ?thesis using dying_no_state(1) [OF ctx ok] m(2) by auto
  qed
  then show ?thesis using nd by (auto simp: live_def set_plug)
qed

lemma remove_ok:
  assumes w: "wf_ptree T t" and s: "s \<in> live T t" "live T t \<noteq> {s}"
  shows "\<exists>T' t'. PTree__remove compress (ptreeNode T s) T = Some T' \<and> wf_ptree T' t' \<and> live T' t' = live T t - {s}"
proof -
  obtain fs nd where z: "t = plug (Node Leaf (ptreeNode T s) Leaf) fs" "nodes T (ptreeNode T s) = Some nd"
    "node_state nd = Some s" "\<not> has_kid nd"
    "ctx_at (nodes T) (getPointer (root T)) (Some (ptreeNode T s)) (node_parent nd) fs"
    "distinct_ctx fs" "ptreeNode T s \<notin> ctx_set fs" using live_zipper [OF w s(1)] .
  obtain f gs where st: "staying fs = f # gs"
    using staying_live [OF w [unfolded z(1)] z(2,3,5)] s(2) z(1) by (cases "staying fs") auto
  have "tree_at (nodes T) None (getPointer (root T)) (plug (Node Leaf (ptreeNode T s) Leaf) fs)" using w by (simp add: wf_ptree_def z(1))
  from remove_eq [OF this z(6,7,2,4,5)] removed_wf [OF w [unfolded z(1)] z(2,3,5) st] show ?thesis using z(1) by blast
qed

text \<open>
  The last state: every node is freed, but the link to the root is not cleared, so that it
  is left dangling.
\<close>

lemma remove_last:
  assumes w: "wf_ptree T t" and s: "live T t = {s}"
  shows "\<exists>T'. PTree__remove compress (ptreeNode T s) T = Some T' \<and> (\<forall>n \<in> set_tree t. nodes T' n = None) \<and> root T' = root T"
proof -
  have sl: "s \<in> live T t" using s by simp
  obtain fs nd where z: "t = plug (Node Leaf (ptreeNode T s) Leaf) fs" "nodes T (ptreeNode T s) = Some nd"
    "node_state nd = Some s" "\<not> has_kid nd"
    "ctx_at (nodes T) (getPointer (root T)) (Some (ptreeNode T s)) (node_parent nd) fs"
    "distinct_ctx fs" "ptreeNode T s \<notin> ctx_set fs" using live_zipper [OF w sl] .
  have t: "tree_at (nodes T) None (getPointer (root T)) (plug (Node Leaf (ptreeNode T s) Leaf) fs)" using w by (simp add: wf_ptree_def z(1))
  have st: "staying fs = []"
  proof (rule ccontr)
    assume "staying fs \<noteq> []"
    then obtain f gs where st: "staying fs = f # gs" by (cases "staying fs") auto
    let ?T = "removed False (ptreeNode T s) fs T" and ?t = "rest_tree False fs"
    have w': "wf_ptree ?T ?t" "live ?T ?t = {}" using removed_wf [OF w [unfolded z(1)] z(2,3,5) st, of False] s z(1) by auto
    have "?t \<noteq> Leaf" using st set_plug [of Leaf "f # gs"] by (auto simp: rest_tree_def)
    then show False using wf_live_nonempty [OF w'(1)] w'(2) by simp
  qed
  have all: "sibling f = Leaf" if "f \<in> set fs" for f using st that by (auto simp: staying_def)
  then have "dying fs = fs" by (auto simp: dying_def)
  then have "\<forall>n \<in> set_tree t. pruned (ptreeNode T s) fs (nodes T) n = None"
    unfolding z(1) set_plug using all by (auto simp: pruned_def ctx_set_def)
  then show ?thesis using remove_eq [OF t z(6,7,2,4,5)] st by (simp add: removed_def)
qed

section \<open>Runs\<close>

text \<open>
  What happens to the tree while states fork (\<open>Executor::fork\<close> and \<open>branch\<close> attach the new
  state beside the forking one) and end (\<open>updateStates\<close> removes the node of the state).
\<close>

datatype ptree_op = Fork nat nat | Kill nat

fun exec_op :: "bool \<Rightarrow> ptree_op \<Rightarrow> pTree \<Rightarrow> pTree option" where
  "exec_op compress (Fork s s') T = PTree__attach (ptreeNode T s) s' s T"
| "exec_op compress (Kill s) T = PTree__remove compress (ptreeNode T s) T"

fun exec_ops :: "bool \<Rightarrow> ptree_op list \<Rightarrow> pTree \<Rightarrow> pTree option" where
  "exec_ops compress [] T = Some T"
| "exec_ops compress (a # as) T = exec_op compress a T \<bind> exec_ops compress as"

text \<open>The specification: a set of states, of which one is always left.\<close>

fun live_op :: "ptree_op \<Rightarrow> nat set \<Rightarrow> nat set option" where
  "live_op (Fork s s') L = (if s \<in> L \<and> s' \<notin> L then Some (insert s' L) else None)"
| "live_op (Kill s) L = (if s \<in> L \<and> L \<noteq> {s} then Some (L - {s}) else None)"

fun live_ops :: "ptree_op list \<Rightarrow> nat set \<Rightarrow> nat set option" where
  "live_ops [] L = Some L"
| "live_ops (a # as) L = live_op a L \<bind> live_ops as"

lemma exec_op_refines:
  assumes "wf_ptree T t" "live_op a (live T t) = Some L"
  shows "\<exists>T' t'. exec_op compress a T = Some T' \<and> wf_ptree T' t' \<and> live T' t' = L"
proof (cases a)
  case (Fork s s')
  then have "s \<in> live T t" "s' \<notin> live T t" "L = insert s' (live T t)" using assms(2) by (auto split: if_splits)
  moreover from this have "s' \<noteq> s" by auto
  ultimately show ?thesis using attach_ok [OF assms(1), of s s'] Fork by (metis exec_op.simps(1))
next
  case (Kill s)
  then have "s \<in> live T t" "live T t \<noteq> {s}" "L = live T t - {s}" using assms(2) by (auto split: if_splits)
  with remove_ok [OF assms(1)] Kill show ?thesis by (metis exec_op.simps(2))
qed

lemma exec_ops_refines:
  "wf_ptree T t \<Longrightarrow> live_ops as (live T t) = Some L \<Longrightarrow> \<exists>T' t'. exec_ops compress as T = Some T' \<and> wf_ptree T' t' \<and> live T' t' = L"
proof (induction as arbitrary: T t)
  case (Cons a as)
  then obtain L1 where L1: "live_op a (live T t) = Some L1" "live_ops as L1 = Some L" by (auto split: bind_splits)
  obtain T1 t1 where "exec_op compress a T = Some T1" "wf_ptree T1 t1" "live T1 t1 = L1" using exec_op_refines [OF Cons.prems(1) L1(1)] by blast
  with Cons.IH [of T1 t1] L1(2) show ?case by auto
qed auto

lemma PTree__PTree_wf: "wf_ptree (PTree__PTree s) (Node Leaf 0 Leaf)" "live (PTree__PTree s) (Node Leaf 0 Leaf) = {s}"
  by (simp_all add: wf_ptree_def live_def node_ok_def has_kid_def PTree__PTree_def PTreeNode__PTreeNode_def new_node_def node_ptr_def null_ptr_def)



section \<open>Rewards\<close>

fun ancestors :: "nat \<Rightarrow> nat tree \<Rightarrow> nat set" where
  "ancestors n Leaf = {}"
| "ancestors n (Node l m r) = (if n \<in> set_tree (Node l m r) then insert m (ancestors n l \<union> ancestors n r) else {})"

lemma ancestors_empty [simp]: "n \<notin> set_tree t \<Longrightarrow> ancestors n t = {}"
  by (cases t) auto

lemma ancestors_plug:
  "n \<in> set_tree u \<Longrightarrow> n \<notin> ctx_set fs \<Longrightarrow> ancestors n (plug u fs) = ancestors n u \<union> fnode ` set fs"
  by (induction u fs rule: plug.induct) auto

definition rewarded :: "real \<Rightarrow> pTreeNode \<Rightarrow> pTreeNode" where
  "rewarded r nd = nd\<lparr>visit := visit nd + 1, reward := reward nd + r\<rparr>"

lemma doBackpropagation_ctx:
  assumes "ctx_at (nodes T) rt c par fs" "distinct_ctx fs"
  shows "doBackpropagation r par T =
    Some (T\<lparr>nodes := \<lambda>m. if m \<in> fnode ` set fs then map_option (rewarded r) (nodes T m) else nodes T m\<rparr>)"
  using assms
proof (induction fs arbitrary: T c par)
  case Nil
  then show ?case by (subst doBackpropagation.simps) simp
next
  case (Cons f fs)
  then obtain nd where nd: "par = Some (fnode f)" "nodes T (fnode f) = Some nd" "ctx_at (nodes T) rt (Some (fnode f)) (node_parent nd) fs"
    by (auto split: option.splits)
  let ?T = "set_node (fnode f) (rewarded r nd) T"
  have "ctx_at (nodes ?T) rt (Some (fnode f)) (node_parent nd) fs"
    using nd(3) Cons.prems(2) by (subst ctx_at_cong [of _ _ "nodes T"]) (auto simp: set_node_def)
  with Cons have "doBackpropagation r (node_parent nd) ?T = Some (?T\<lparr>nodes := \<lambda>m. if m \<in> fnode ` set fs then map_option (rewarded r) (nodes ?T m) else nodes ?T m\<rparr>)"
    by simp
  moreover have "fnode f \<notin> fnode ` set fs" using Cons.prems(2) by (auto simp: ctx_set_def)
  ultimately show ?case using nd
    by (subst doBackpropagation.simps) (auto simp: rewarded_def [symmetric] set_node_def intro!: arg_cong [where f = "\<lambda>x. T\<lparr>nodes := x\<rparr>"])
qed

lemma doBackpropagation_ok:
  assumes "wf_ptree T t" "n \<in> set_tree t"
  shows "doBackpropagation r (Some n) T =
    Some (T\<lparr>nodes := \<lambda>m. if m \<in> ancestors n t then map_option (rewarded r) (nodes T m) else nodes T m\<rparr>)"
proof -
  obtain l' r' fs where t: "t = plug (Node l' n r') fs" using plug_cases [OF assms(2)] by blast
  have w: "tree_at (nodes T) None (getPointer (root T)) t" "distinct (inorder t)" using assms by (simp_all add: wf_ptree_def)
  obtain c par where c: "tree_at (nodes T) par c (Node l' n r')" "ctx_at (nodes T) (getPointer (root T)) c par fs"
    using w(1) unfolding t tree_at_plug by blast
  have d: "distinct_ctx fs" "n \<notin> ctx_set fs" "n \<notin> set_tree l'" "n \<notin> set_tree r'" using w(2) unfolding t distinct_plug by auto
  have "ancestors n t = insert n (fnode ` set fs)" unfolding t using d by (simp add: ancestors_plug)
  moreover obtain nd where nd: "nodes T n = Some nd" "node_parent nd = par" using c(1) by (auto split: option.splits)
  let ?T = "set_node n (rewarded r nd) T"
  have "ctx_at (nodes ?T) (getPointer (root T)) c par fs"
    using c(2) d(2) by (subst ctx_at_cong [of _ _ "nodes T"]) (auto simp: set_node_def)
  note doBackpropagation_ctx [OF this d(1), of r]
  moreover have "doBackpropagation r (Some n) T = doBackpropagation r par ?T"
    using nd by (subst doBackpropagation.simps) (simp add: rewarded_def)
  moreover have "n \<notin> fnode ` set fs" using d(2) by (auto simp: ctx_set_def)
  ultimately show ?thesis using nd by (auto simp: set_node_def intro!: arg_cong [where f = "\<lambda>x. T\<lparr>nodes := x\<rparr>"])
qed

text \<open>Changes that keep the links and the states of the nodes keep the tree.\<close>

definition same_links :: "pTreeNode option \<Rightarrow> pTreeNode option \<Rightarrow> bool" where
  "same_links a b \<longleftrightarrow> rel_option (\<lambda>a b. node_parent a = node_parent b \<and> node_state a = node_state b
     \<and> getPointer (node_left a) = getPointer (node_left b) \<and> getPointer (node_right a) = getPointer (node_right b)) a b"

lemma same_links_refl [simp]: "same_links a a"
  by (cases a) (simp_all add: same_links_def)

lemma same_links_trans: "same_links a b \<Longrightarrow> same_links b c \<Longrightarrow> same_links a c"
  by (cases a; cases b; cases c) (auto simp: same_links_def)

lemma tree_at_links: "\<forall>n \<in> set_tree t. same_links (h n) (h' n) \<Longrightarrow> tree_at h par p t \<longleftrightarrow> tree_at h' par p t"
  by (induction t arbitrary: par p) (auto simp: same_links_def option_rel_Some1 option_rel_Some2 rel_option_iff split: option.splits)

lemma wf_ptree_links:
  assumes "\<forall>n \<in> set_tree t. same_links (nodes T n) (nodes T' n)" "getPointer (root T') = getPointer (root T)"
    "ptreeNode T' = ptreeNode T" "brk T' = brk T"
  shows "wf_ptree T' t \<longleftrightarrow> wf_ptree T t" "live T' t = live T t"
proof -
  have st: "map_option (\<lambda>nd. (node_state nd, has_kid nd)) (nodes T' n) = map_option (\<lambda>nd. (node_state nd, has_kid nd)) (nodes T n)"
    if "n \<in> set_tree t" for n
    using bspec [OF assms(1) that] by (cases "nodes T n"; cases "nodes T' n") (simp_all add: same_links_def has_kid_def)
  have ok: "node_ok T' n \<longleftrightarrow> node_ok T n" if "n \<in> set_tree t" for n
    using st [OF that] assms(3,4) by (cases "nodes T n"; cases "nodes T' n") (simp_all add: node_ok_def split: option.split)
  show "wf_ptree T' t \<longleftrightarrow> wf_ptree T t"
    using tree_at_links [OF assms(1), of None "getPointer (root T)"] assms(2) ok by (simp add: wf_ptree_def)
  have "(\<exists>nd. nodes T' n = Some nd \<and> node_state nd = Some s) \<longleftrightarrow> (\<exists>nd. nodes T n = Some nd \<and> node_state nd = Some s)" if "n \<in> set_tree t" for n s
    using st [OF that] by (cases "nodes T n"; cases "nodes T' n") simp_all
  then show "live T' t = live T t" unfolding live_def by blast
qed

fun backpropagate :: "(nat \<times> real) list \<Rightarrow> pTree \<Rightarrow> pTree option" where
  "backpropagate [] T = Some T"
| "backpropagate ((n, r) # xs) T = doBackpropagation r (Some n) T \<bind> backpropagate xs"

text \<open>
  (C38) The statistics that guide the search are sums over subtrees: after any number of
  simulations, \<open>doBackpropagation\<close> has added to every node the number of simulations below it
  to its visits (modulo \<open>2 ^ 32\<close>), and the sum of their rewards to its reward; the tree is
  otherwise unchanged, and the walk to the root always ends.
\<close>

theorem doBackpropagation_sums:
  assumes "wf_ptree T t" "\<forall>(n, r) \<in> set xs. n \<in> set_tree t"
  shows "\<exists>T'. backpropagate xs T = Some T' \<and> wf_ptree T' t \<and> live T' t = live T t \<and>
    (\<forall>m \<in> set_tree t. \<exists>nd nd'. nodes T m = Some nd \<and> nodes T' m = Some nd'
       \<and> visit nd' = visit nd + of_nat (length (filter (\<lambda>(n, r). m \<in> ancestors n t) xs))
       \<and> reward nd' = reward nd + sum_list (map snd (filter (\<lambda>(n, r). m \<in> ancestors n t) xs)))"
  using assms
proof (induction xs arbitrary: T)
  case Nil
  then show ?case by (auto simp: wf_ptree_def node_ok_def split: option.splits)
next
  case (Cons x xs)
  obtain n r where x: "x = (n, r)" by (cases x)
  define T1 where "T1 = T\<lparr>nodes := \<lambda>m. if m \<in> ancestors n t then map_option (rewarded r) (nodes T m) else nodes T m\<rparr>"
  have step: "doBackpropagation r (Some n) T = Some T1" using doBackpropagation_ok [OF Cons.prems(1)] Cons.prems(2) x by (simp add: T1_def)
  have links: "\<forall>m \<in> set_tree t. same_links (nodes T m) (nodes T1 m)"
    by (auto simp: T1_def same_links_def rewarded_def option.rel_map intro: option.rel_refl)
  have w1: "wf_ptree T1 t" "live T1 t = live T t" using wf_ptree_links [OF links] Cons.prems(1) by (simp_all add: T1_def)
  obtain T' where T': "backpropagate xs T1 = Some T'" "wf_ptree T' t" "live T' t = live T1 t"
    and sums: "\<forall>m \<in> set_tree t. \<exists>nd nd'. nodes T1 m = Some nd \<and> nodes T' m = Some nd'
       \<and> visit nd' = visit nd + of_nat (length (filter (\<lambda>(n, r). m \<in> ancestors n t) xs))
       \<and> reward nd' = reward nd + sum_list (map snd (filter (\<lambda>(n, r). m \<in> ancestors n t) xs))"
    using Cons.IH [OF w1(1)] Cons.prems(2) by auto
  have "\<exists>nd nd'. nodes T m = Some nd \<and> nodes T' m = Some nd'
       \<and> visit nd' = visit nd + of_nat (length (filter (\<lambda>(n, r). m \<in> ancestors n t) (x # xs)))
       \<and> reward nd' = reward nd + sum_list (map snd (filter (\<lambda>(n, r). m \<in> ancestors n t) (x # xs)))" if "m \<in> set_tree t" for m
    using bspec [OF sums that] by (cases "m \<in> ancestors n t") (auto simp: T1_def x rewarded_def)
  with T' w1 step x show ?case by auto
qed

theorem doBackpropagation_sums_witness:
  "\<exists>T T'. exec_ops False [Fork 1 2] (PTree__PTree 1) = Some T \<and> backpropagate [(1, 3), (2, 5)] T = Some T'
    \<and> (\<exists>nd. nodes T' 0 = Some nd \<and> reward nd = 8)"
proof -
  let ?T = "attached 0 (new_node None 1) 2 1 (node_ptr 0 0) (PTree__PTree 1)" and ?t = "Node (Node Leaf 1 Leaf) 0 (Node Leaf 2 Leaf)"
  have T: "exec_ops False [Fork 1 2] (PTree__PTree 1) = Some ?T"
    using attach_eq [of "PTree__PTree 1" 0 "new_node None 1" 1 "node_ptr 0 0" 2]
    by (simp add: PTree__PTree_def PTreeNode__PTreeNode_def child_ptr_def new_node_def)
  have w: "wf_ptree ?T ?t" "nodes ?T 0 = Some ((new_node None 1)\<lparr>node_state := None, node_left := node_ptr 1 0, node_right := node_ptr 2 0\<rparr>)"
    by (simp_all add: wf_ptree_def node_ok_def has_kid_def attached_def PTree__PTree_def PTreeNode__PTreeNode_def new_node_def node_ptr_def null_ptr_def)
  have "\<forall>(n, r) \<in> set [(1, 3 :: real), (2, 5)]. n \<in> set_tree ?t" by simp
  from doBackpropagation_sums [OF w(1) this] T w(2) show ?thesis by (auto simp: new_node_def)
qed

end
