(* ===== verification/Random_Path.thy ===== *)
theory Random_Path
  imports Process_Tree
begin

text \<open>
  The random path searcher (class \<open>RandomPathSearcher\<close> of \<open>lib/Core/Searcher.cpp\<close>). It has
  no container of its own: the tag bits of the links of the process tree mark the nodes
  below which it owns a state. The theory shows that the marks stay exact while states are
  added, removed, forked and freed, and that the random walk ends in a state it owns.
\<close>

section \<open>Operations\<close>

definition IS_OUR_NODE_VALID :: "8 word \<Rightarrow> pTreeNodePtr \<Rightarrow> bool" where
  "IS_OUR_NODE_VALID idBitMask n \<longleftrightarrow> getPointer n \<noteq> None \<and> getInt n AND idBitMask \<noteq> 0"

text \<open>\<open>rng i\<close> is the \<open>i\<close>-th word drawn from \<open>theRNG.getInt32()\<close>; \<open>i\<close> counts the draws.\<close>

partial_function (option) selectState_loop ::
    "8 word \<Rightarrow> (nat \<Rightarrow> 32 word) \<Rightarrow> pTree \<Rightarrow> nat \<Rightarrow> 32 word \<Rightarrow> nat \<Rightarrow> nat \<Rightarrow> nat option" where
  "selectState_loop m rng T i flips bits n = do {
     nd \<leftarrow> nodes T n;
     (case node_state nd of
        Some s \<Rightarrow> Some s
      | None \<Rightarrow>
          if \<not> IS_OUR_NODE_VALID m (node_left nd) then do {
            assert_that (IS_OUR_NODE_VALID m (node_right nd));
            assert_that (Some n \<noteq> getPointer (node_right nd));
            getPointer (node_right nd) \<bind> selectState_loop m rng T i flips bits
          } else if \<not> IS_OUR_NODE_VALID m (node_right nd) then do {
            assert_that (Some n \<noteq> getPointer (node_left nd));
            getPointer (node_left nd) \<bind> selectState_loop m rng T i flips bits
          } else do {
            let (i, flips, bits) = (if bits = 0 then (Suc i, rng i, 32) else (i, flips, bits));
            let bits = bits - 1;
            getPointer (if bit flips bits then node_left nd else node_right nd) \<bind> selectState_loop m rng T i flips bits
          })
   }"

definition RandomPathSearcher__selectState :: "8 word \<Rightarrow> (nat \<Rightarrow> 32 word) \<Rightarrow> pTree \<Rightarrow> nat option" where
  "RandomPathSearcher__selectState m rng T = do {
     assert_that (getInt (root T) AND m \<noteq> 0);
     n \<leftarrow> getPointer (root T);
     selectState_loop m rng T 0 0 0 n
   }"

partial_function (option) insert_loop :: "8 word \<Rightarrow> nat option \<Rightarrow> pTree \<Rightarrow> pTree option" where
  "insert_loop m pnode T = (case pnode of
     None \<Rightarrow> Some T
   | Some n \<Rightarrow> do {
       nd \<leftarrow> nodes T n;
       c \<leftarrow> child_ptr n (node_parent nd) T;
       (if IS_OUR_NODE_VALID m c then Some T
        else set_child_ptr n (node_parent nd) (c\<lparr>getInt := getInt c OR m\<rparr>) T \<bind> insert_loop m (node_parent nd))
     })"

partial_function (option) erase_loop :: "8 word \<Rightarrow> nat option \<Rightarrow> pTree \<Rightarrow> pTree option" where
  "erase_loop m pnode T = (case pnode of
     None \<Rightarrow> Some T
   | Some n \<Rightarrow> do {
       nd \<leftarrow> nodes T n;
       (if \<not> IS_OUR_NODE_VALID m (node_left nd) \<and> \<not> IS_OUR_NODE_VALID m (node_right nd) then do {
          c \<leftarrow> child_ptr n (node_parent nd) T;
          assert_that (IS_OUR_NODE_VALID m c);
          set_child_ptr n (node_parent nd) (c\<lparr>getInt := getInt c AND NOT m\<rparr>) T \<bind> erase_loop m (node_parent nd)
        } else Some T)
     })"

fun RandomPathSearcher__insert :: "8 word \<Rightarrow> nat list \<Rightarrow> pTree \<Rightarrow> pTree option" where
  "RandomPathSearcher__insert m [] T = Some T"
| "RandomPathSearcher__insert m (es # ess) T = insert_loop m (Some (ptreeNode T es)) T \<bind> RandomPathSearcher__insert m ess"

fun RandomPathSearcher__erase :: "8 word \<Rightarrow> nat list \<Rightarrow> pTree \<Rightarrow> pTree option" where
  "RandomPathSearcher__erase m [] T = Some T"
| "RandomPathSearcher__erase m (es # ess) T = erase_loop m (Some (ptreeNode T es)) T \<bind> RandomPathSearcher__erase m ess"

definition RandomPathSearcher__update :: "8 word \<Rightarrow> nat list \<Rightarrow> nat list \<Rightarrow> pTree \<Rightarrow> pTree option" where
  "RandomPathSearcher__update m addedStates removedStates T =
     RandomPathSearcher__insert m addedStates T \<bind> RandomPathSearcher__erase m removedStates"

definition RandomPathSearcher__empty :: "8 word \<Rightarrow> pTree \<Rightarrow> bool" where
  "RandomPathSearcher__empty m T \<longleftrightarrow> \<not> IS_OUR_NODE_VALID m (root T)"

section \<open>Exact marks\<close>

text \<open>
  A link is marked exactly when a node of the set \<open>Q\<close>, the nodes of the states of the
  searcher, is below it.
\<close>

abbreviation own :: "8 word \<Rightarrow> pTreeNodePtr \<Rightarrow> bool" where
  "own \<equiv> IS_OUR_NODE_VALID"

fun marks_at :: "8 word \<Rightarrow> nat set \<Rightarrow> (nat \<Rightarrow> pTreeNode option) \<Rightarrow> pTreeNodePtr \<Rightarrow> nat tree \<Rightarrow> bool" where
  "marks_at m Q h c Leaf \<longleftrightarrow> \<not> own m c"
| "marks_at m Q h c (Node l n r) \<longleftrightarrow> (own m c \<longleftrightarrow> set_tree (Node l n r) \<inter> Q \<noteq> {}) \<and>
     (case h n of None \<Rightarrow> False | Some nd \<Rightarrow> marks_at m Q h (node_left nd) l \<and> marks_at m Q h (node_right nd) r)"

text \<open>The same for the links on the way from a hole with nodes \<open>X\<close> to the root.\<close>

fun marks_ctx :: "8 word \<Rightarrow> nat set \<Rightarrow> (nat \<Rightarrow> pTreeNode option) \<Rightarrow> pTreeNodePtr \<Rightarrow> nat set \<Rightarrow> frame list \<Rightarrow> bool" where
  "marks_ctx m Q h rt X [] \<longleftrightarrow> (own m rt \<longleftrightarrow> X \<inter> Q \<noteq> {})"
| "marks_ctx m Q h rt X (f # fs) \<longleftrightarrow> (case h (fnode f) of None \<Rightarrow> False
     | Some nd \<Rightarrow> (own m (child_slot f nd) \<longleftrightarrow> X \<inter> Q \<noteq> {}) \<and> marks_at m Q h (other_slot f nd) (sibling f)
         \<and> marks_ctx m Q h rt (insert (fnode f) (X \<union> set_tree (sibling f))) fs)"

text \<open>The links below the top of a tree.\<close>

fun marks_below :: "8 word \<Rightarrow> nat set \<Rightarrow> (nat \<Rightarrow> pTreeNode option) \<Rightarrow> nat tree \<Rightarrow> bool" where
  "marks_below m Q h Leaf \<longleftrightarrow> True"
| "marks_below m Q h (Node l n r) \<longleftrightarrow>
     (case h n of None \<Rightarrow> False | Some nd \<Rightarrow> marks_at m Q h (node_left nd) l \<and> marks_at m Q h (node_right nd) r)"

lemma marks_at_iff: "marks_at m Q h c t \<longleftrightarrow> (own m c \<longleftrightarrow> set_tree t \<inter> Q \<noteq> {}) \<and> marks_below m Q h t"
  by (cases t) auto

lemma marks_plug:
  "marks_at m Q h rt (plug t fs) \<longleftrightarrow> marks_below m Q h t \<and> marks_ctx m Q h rt (set_tree t) fs"
proof (induction fs arbitrary: t)
  case (Cons f fs)
  have "marks_at m Q h rt (plug t (f # fs)) \<longleftrightarrow> marks_below m Q h (plug t [f]) \<and> marks_ctx m Q h rt (set_tree (plug t [f])) fs"
    using Cons.IH [of "plug t [f]"] by (cases f) simp_all
  moreover have "set_tree (plug t [f]) = insert (fnode f) (set_tree t \<union> set_tree (sibling f))" by (cases f) auto
  moreover have "marks_below m Q h (plug t [f]) \<longleftrightarrow> (case h (fnode f) of None \<Rightarrow> False
      | Some nd \<Rightarrow> (own m (child_slot f nd) \<longleftrightarrow> set_tree t \<inter> Q \<noteq> {}) \<and> marks_below m Q h t \<and> marks_at m Q h (other_slot f nd) (sibling f))"
    by (cases f; cases "h (fnode f)") (simp_all add: marks_at_iff [of m Q h _ t] conj_ac)
  ultimately show ?case by (cases "h (fnode f)") (simp_all add: conj_ac)
qed (auto simp: marks_at_iff)

lemma marks_at_cong:
  assumes "\<And>n. n \<in> set_tree t \<Longrightarrow> h n = h' n" "set_tree t \<inter> Q = set_tree t \<inter> Q'"
  shows "marks_at m Q h c t = marks_at m Q' h' c t"
  using assms
proof (induction t arbitrary: c)
  case (Node l n r)
  have "set_tree l \<inter> Q = set_tree l \<inter> Q'" "set_tree r \<inter> Q = set_tree r \<inter> Q'" using Node.prems(2) by auto
  with Node show ?case by (auto split: option.splits)
qed simp

lemma marks_ctx_cong:
  assumes "\<And>n. n \<in> ctx_set fs \<Longrightarrow> h n = h' n" "ctx_set fs \<inter> Q = ctx_set fs \<inter> Q'" "X \<inter> Q = {} \<longleftrightarrow> X' \<inter> Q' = {}"
  shows "marks_ctx m Q h rt X fs = marks_ctx m Q' h' rt X' fs"
  using assms
proof (induction fs arbitrary: X X')
  case (Cons f fs)
  have s: "set_tree (sibling f) \<inter> Q = set_tree (sibling f) \<inter> Q'" "ctx_set fs \<inter> Q = ctx_set fs \<inter> Q'" "fnode f \<in> Q \<longleftrightarrow> fnode f \<in> Q'"
    using Cons.prems(2) by auto
  then have "insert (fnode f) (X \<union> set_tree (sibling f)) \<inter> Q = {} \<longleftrightarrow> insert (fnode f) (X' \<union> set_tree (sibling f)) \<inter> Q' = {}"
    using Cons.prems(3) by auto
  then have "marks_ctx m Q h rt (insert (fnode f) (X \<union> set_tree (sibling f))) fs = marks_ctx m Q' h' rt (insert (fnode f) (X' \<union> set_tree (sibling f))) fs"
    using Cons s by (intro Cons.IH) auto
  moreover have "marks_at m Q h c (sibling f) = marks_at m Q' h' c (sibling f)" for c using Cons.prems(1) s by (intro marks_at_cong) auto
  ultimately show ?case using Cons.prems by (auto split: option.splits)
qed auto

section \<open>Changing the mark of a link\<close>

fun set_hole :: "pTree \<Rightarrow> frame list \<Rightarrow> pTreeNodePtr \<Rightarrow> pTree" where
  "set_hole T [] c = T\<lparr>root := c\<rparr>"
| "set_hole T (f # fs) c = T\<lparr>nodes := (nodes T)(fnode f := map_option (set_slot f c) (nodes T (fnode f)))\<rparr>"

lemma set_child_ptr_ctx:
  assumes "ctx_at (nodes T) (getPointer (root T)) (Some n) par fs" "n \<notin> ctx_set fs"
  shows "set_child_ptr n par c T = Some (set_hole T fs c)"
proof (cases fs)
  case (Cons f gs)
  then obtain nd where nd: "nodes T (fnode f) = Some nd" "par = Some (fnode f)" "getPointer (child_slot f nd) = Some n"
    using assms(1) by (auto split: option.splits)
  moreover have "getPointer (other_slot f nd) \<noteq> Some n" using ctx_sibling_neq [of "nodes T" _ n par f gs nd] nd(1) assms Cons by blast
  ultimately show ?thesis using Cons by (cases f) (auto simp: set_child_ptr_def set_node_def)
qed (use assms in \<open>simp add: set_child_ptr_def\<close>)

lemma own_insert: "m \<noteq> 0 \<Longrightarrow> getPointer c \<noteq> None \<Longrightarrow> own m (c\<lparr>getInt := getInt c OR m\<rparr>)"
proof -
  have "(i OR m) AND m = m" for i :: "8 word" by (intro bit_word_eqI) (auto simp: bit_and_iff bit_or_iff)
  then show "m \<noteq> 0 \<Longrightarrow> getPointer c \<noteq> None \<Longrightarrow> own m (c\<lparr>getInt := getInt c OR m\<rparr>)" by (simp add: IS_OUR_NODE_VALID_def)
qed

lemma own_erase: "\<not> own m (c\<lparr>getInt := getInt c AND NOT m\<rparr>)"
proof -
  have "(i AND NOT m) AND m = 0" for i :: "8 word" by (intro bit_word_eqI) (auto simp: bit_and_iff bit_not_iff)
  then show ?thesis by (simp add: IS_OUR_NODE_VALID_def)
qed

text \<open>Two stores that differ in the marks of one searcher only.\<close>

definition tags_but :: "8 word \<Rightarrow> pTreeNodePtr \<Rightarrow> pTreeNodePtr \<Rightarrow> bool" where
  "tags_but m c c' \<longleftrightarrow> getPointer c = getPointer c' \<and> (\<forall>k. k AND m = 0 \<longrightarrow> (own k c \<longleftrightarrow> own k c'))"

definition node_but :: "8 word \<Rightarrow> pTreeNode option \<Rightarrow> pTreeNode option \<Rightarrow> bool" where
  "node_but m a b \<longleftrightarrow> rel_option (\<lambda>a b. tags_but m (node_left a) (node_left b) \<and> tags_but m (node_right a) (node_right b)
     \<and> node_parent a = node_parent b \<and> node_state a = node_state b) a b"

definition but_marks :: "8 word \<Rightarrow> pTree \<Rightarrow> pTree \<Rightarrow> bool" where
  "but_marks m T T' \<longleftrightarrow> tags_but m (root T) (root T') \<and> (\<forall>n. node_but m (nodes T n) (nodes T' n))
     \<and> ptreeNode T' = ptreeNode T \<and> brk T' = brk T \<and> registeredIds T' = registeredIds T"

lemma tags_but_refl [simp]: "tags_but m c c"
  by (simp add: tags_but_def)

lemma tags_but_trans: "tags_but m a b \<Longrightarrow> tags_but m b c \<Longrightarrow> tags_but m a c"
  by (auto simp: tags_but_def)

lemma node_but_refl [simp]: "node_but m a a"
  by (cases a) (simp_all add: node_but_def)

lemma node_but_trans: "node_but m a b \<Longrightarrow> node_but m b c \<Longrightarrow> node_but m a c"
  by (cases a; cases b; cases c) (auto simp: node_but_def intro: tags_but_trans)

lemma but_marks_refl [simp]: "but_marks m T T"
  by (simp add: but_marks_def)

lemma but_marks_trans: "but_marks m T T' \<Longrightarrow> but_marks m T' T'' \<Longrightarrow> but_marks m T T''"
  unfolding but_marks_def by (metis (no_types, lifting) node_but_trans tags_but_trans)

lemma but_marks_set_hole: "tags_but m (hole_ptr T fs) c \<Longrightarrow> but_marks m T (set_hole T fs c)"
proof (cases fs)
  case (Cons f gs)
  assume "tags_but m (hole_ptr T fs) c"
  with Cons have "node_but m (nodes T (fnode f)) (map_option (set_slot f c) (nodes T (fnode f)))"
    by (cases f; cases "nodes T (fnode f)") (auto simp: node_but_def)
  with Cons show ?thesis by (auto simp: but_marks_def)
qed (simp add: but_marks_def)

lemma tags_but_insert: "tags_but m c (c\<lparr>getInt := getInt c OR m\<rparr>)"
proof -
  have "(i OR m) AND k = i AND k" if "k AND m = 0" for i k :: "8 word"
  proof (rule bit_word_eqI)
    fix n
    have "\<not> (bit k n \<and> bit m n)" using arg_cong [OF that, of "\<lambda>w. bit w n"] by (simp add: bit_and_iff)
    then show "bit ((i OR m) AND k) n \<longleftrightarrow> bit (i AND k) n" by (auto simp: bit_and_iff bit_or_iff)
  qed
  then show ?thesis by (simp add: tags_but_def IS_OUR_NODE_VALID_def)
qed

lemma tags_but_erase: "tags_but m c (c\<lparr>getInt := getInt c AND NOT m\<rparr>)"
proof -
  have "(i AND NOT m) AND k = i AND k" if "k AND m = 0" for i k :: "8 word"
  proof (rule bit_word_eqI)
    fix n
    assume "n < LENGTH(8)"
    moreover have "\<not> (bit k n \<and> bit m n)" using arg_cong [OF that, of "\<lambda>w. bit w n"] by (simp add: bit_and_iff)
    ultimately show "bit ((i AND NOT m) AND k) n \<longleftrightarrow> bit (i AND k) n" by (auto simp: bit_and_iff bit_not_iff)
  qed
  then show ?thesis by (simp add: tags_but_def IS_OUR_NODE_VALID_def)
qed

lemma node_but_links: "node_but m a b \<Longrightarrow> same_links a b"
  by (cases a; cases b) (auto simp: node_but_def same_links_def tags_but_def)

lemma marks_at_but:
  assumes "k AND m = 0" "\<And>n. node_but m (h n) (h' n)"
  shows "tags_but m c c' \<Longrightarrow> marks_at k Q h c t \<longleftrightarrow> marks_at k Q h' c' t"
proof (induction t arbitrary: c c')
  case (Node l n r)
  have o: "own k c \<longleftrightarrow> own k c'" using Node.prems assms(1) by (simp add: tags_but_def)
  show ?case
  proof (cases "h n")
    case None
    then have "h' n = None" using assms(2) [of n] by (simp add: node_but_def)
    with None show ?thesis by simp
  next
    case (Some nd)
    then obtain nd' where "h' n = Some nd'" "tags_but m (node_left nd) (node_left nd')" "tags_but m (node_right nd) (node_right nd')"
      using assms(2) [of n] by (auto simp: node_but_def option_rel_Some1)
    with Some o Node.IH show ?thesis by simp
  qed
qed (use assms(1) in \<open>simp add: tags_but_def\<close>)

lemma hole_ptr_ctx:
  assumes "ctx_at (nodes T) (getPointer (root T)) c par fs"
  shows "getPointer (hole_ptr T fs) = c"
  using assms by (cases fs) (auto split: option.splits)

lemma hole_own:
  assumes "marks_ctx m Q (nodes T) (root T) X fs" shows "own m (hole_ptr T fs) \<longleftrightarrow> X \<inter> Q \<noteq> {}"
  using assms by (cases fs) (auto split: option.splits)

lemma set_hole_keeps:
  "ptreeNode (set_hole T fs c) = ptreeNode T" "k \<notin> fnode ` set fs \<Longrightarrow> nodes (set_hole T fs c) k = nodes T k"
  by (cases fs; simp)+

text \<open>Setting the link of the hole leaves the marks above.\<close>

lemma marks_ctx_tail:
  assumes "marks_ctx m Q (nodes T) (root T) X (f # gs)" "distinct_ctx (f # gs)" "nodes T (fnode f) = Some nd"
  shows "marks_ctx m Q (nodes (set_hole T (f # gs) c)) (root (set_hole T (f # gs) c)) (insert (fnode f) (X \<union> set_tree (sibling f))) gs"
proof -
  let ?X = "insert (fnode f) (X \<union> set_tree (sibling f))"
  have "marks_ctx m Q (nodes (set_hole T (f # gs) c)) rt ?X gs = marks_ctx m Q (nodes T) rt ?X gs" for rt
    using assms(2) by (intro marks_ctx_cong) auto
  with assms show ?thesis by simp
qed

lemma marks_ctx_cons:
  assumes "marks_ctx m Q h rt X (f # gs)" "distinct_ctx (f # gs)" "set_tree (sibling f) \<inter> Q = set_tree (sibling f) \<inter> Q'"
    and "\<And>k. k \<in> set_tree (sibling f) \<Longrightarrow> h' k = h k" "h (fnode f) = Some nd" "h' (fnode f) = Some (set_slot f c nd)"
    and "own m c \<longleftrightarrow> X \<inter> Q' \<noteq> {}" "marks_ctx m Q' h' rt' (insert (fnode f) (X \<union> set_tree (sibling f))) gs"
  shows "marks_ctx m Q' h' rt' X (f # gs)"
proof -
  have "marks_at m Q' h' (other_slot f nd) (sibling f) = marks_at m Q h (other_slot f nd) (sibling f)"
    using assms(3,4) by (intro marks_at_cong) auto
  with assms show ?thesis by simp
qed

lemma insert_loop_ctx:
  assumes "ctx_at (nodes T) (getPointer (root T)) (Some n) (node_parent nd) fs" "nodes T n = Some nd"
    "n \<notin> ctx_set fs" "distinct_ctx fs" "marks_ctx m Q (nodes T) (root T) X fs" "a \<in> X" "a \<notin> ctx_set fs" "m \<noteq> 0"
  shows "\<exists>T'. insert_loop m (Some n) T = Some T' \<and> marks_ctx m (insert a Q) (nodes T') (root T') X fs
    \<and> but_marks m T T' \<and> (\<forall>k. k \<notin> fnode ` set fs \<longrightarrow> nodes T' k = nodes T k)"
  using assms
proof (induction fs arbitrary: n nd X T)
  case Nil
  let ?c = "hole_ptr T []"
  have cp: "child_ptr n (node_parent nd) T = Some ?c" "set_child_ptr n (node_parent nd) c T = Some (set_hole T [] c)" for c
    using child_ptr_ctx [OF Nil.prems(1,3)] set_child_ptr_ctx [OF Nil.prems(1,3)] by simp_all
  have par: "node_parent nd = None" using Nil.prems(1) by simp
  show ?case
  proof (cases "own m ?c")
    case True
    then have "insert_loop m (Some n) T = Some T" using cp Nil.prems(2) by (subst insert_loop.simps) simp
    moreover have "marks_ctx m (insert a Q) (nodes T) (root T) X []" using True Nil.prems(5,6) by auto
    ultimately show ?thesis by auto
  next
    case False
    let ?T = "set_hole T [] (?c\<lparr>getInt := getInt ?c OR m\<rparr>)"
    have "insert_loop m None ?T = Some ?T" by (subst insert_loop.simps) simp
    then have "insert_loop m (Some n) T = Some ?T" using cp Nil.prems(2) False par by (subst insert_loop.simps) simp
    moreover have "but_marks m T ?T" by (rule but_marks_set_hole) (rule tags_but_insert)
    moreover have "own m (?c\<lparr>getInt := getInt ?c OR m\<rparr>)" using own_insert Nil.prems(1,8) by simp
    ultimately show ?thesis using Nil.prems(6) by auto
  qed
next
  case (Cons f gs)
  let ?c = "hole_ptr T (f # gs)"
  have cp: "child_ptr n (node_parent nd) T = Some ?c" "set_child_ptr n (node_parent nd) c T = Some (set_hole T (f # gs) c)" for c
    using child_ptr_ctx [OF Cons.prems(1,3)] set_child_ptr_ctx [OF Cons.prems(1,3)] by simp_all
  obtain fd where fd: "nodes T (fnode f) = Some fd" "node_parent nd = Some (fnode f)" "ctx_at (nodes T) (getPointer (root T)) (Some (fnode f)) (node_parent fd) gs"
    using Cons.prems(1) by (auto split: option.splits)
  show ?case
  proof (cases "own m ?c")
    case True
    then have "insert_loop m (Some n) T = Some T" using cp Cons.prems(2) by (subst insert_loop.simps) simp
    moreover have "X \<inter> Q \<noteq> {}" using hole_own [OF Cons.prems(5)] True by simp
    then have "marks_ctx m (insert a Q) (nodes T) (root T) X (f # gs)"
      using Cons.prems(5-7) by (subst marks_ctx_cong [of _ _ "nodes T" _ Q _ X]) auto
    ultimately show ?thesis by auto
  next
    case False
    define c' where "c' = ?c\<lparr>getInt := getInt ?c OR m\<rparr>"
    define T1 where "T1 = set_hole T (f # gs) c'"
    let ?X = "insert (fnode f) (X \<union> set_tree (sibling f))"
    have T: "nodes T1 (fnode f) = Some (set_slot f c' fd)" "root T1 = root T" using fd(1) by (simp_all add: T1_def)
    have "ctx_at (nodes T1) (getPointer (root T1)) (Some (fnode f)) (node_parent (set_slot f c' fd)) gs"
      using fd(3) Cons.prems(4) by (subst ctx_at_cong [of _ _ "nodes T"]) (auto simp: T1_def)
    moreover have "marks_ctx m Q (nodes T1) (root T1) ?X gs" unfolding T1_def by (rule marks_ctx_tail [OF Cons.prems(5,4) fd(1)])
    moreover have "fnode f \<notin> ctx_set gs" "distinct_ctx gs" "a \<in> ?X" "a \<notin> ctx_set gs" using Cons.prems(4,6,7) by auto
    ultimately obtain T' where T': "insert_loop m (Some (fnode f)) T1 = Some T'" "marks_ctx m (insert a Q) (nodes T') (root T') ?X gs"
        "but_marks m T1 T'" "\<forall>k. k \<notin> fnode ` set gs \<longrightarrow> nodes T' k = nodes T1 k"
      using Cons.IH [of T1 "fnode f", OF _ T(1)] Cons.prems(8) by metis
    have fn: "fnode f \<notin> fnode ` set gs" and sg: "\<And>k. k \<in> set_tree (sibling f) \<Longrightarrow> k \<notin> fnode ` set gs \<and> k \<noteq> fnode f"
      using Cons.prems(4) by (auto simp: ctx_set_def)
    have oc: "own m c'" unfolding c'_def using own_insert [OF Cons.prems(8)] hole_ptr_ctx [OF Cons.prems(1)] by simp
    have "marks_ctx m (insert a Q) (nodes T') (root T') X (f # gs)"
    proof (rule marks_ctx_cons [OF Cons.prems(5,4) _ _ fd(1) _ _ T'(2)])
      show "set_tree (sibling f) \<inter> Q = set_tree (sibling f) \<inter> insert a Q" using Cons.prems(7) by auto
      show "nodes T' k = nodes T k" if "k \<in> set_tree (sibling f)" for k using sg [OF that] T'(4) by (simp add: T1_def)
      show "nodes T' (fnode f) = Some (set_slot f c' fd)" using fn T'(4) T(1) by simp
      show "own m c' \<longleftrightarrow> X \<inter> insert a Q \<noteq> {}" using oc Cons.prems(6) by auto
    qed
    moreover have "but_marks m T T'"
      using but_marks_set_hole [OF tags_but_insert, of m T "f # gs"] T'(3) but_marks_trans unfolding T1_def c'_def by blast
    moreover have "insert_loop m (Some n) T = Some T'"
      using cp Cons.prems(2) False fd(2) T'(1) by (subst insert_loop.simps) (simp add: T1_def c'_def)
    moreover have "nodes T' k = nodes T k" if "k \<notin> fnode ` set (f # gs)" for k
      using that T'(4) by (simp add: T1_def)
    ultimately show ?thesis by blast
  qed
qed

lemma own_slots: "own m (node_left nd) \<or> own m (node_right nd) \<longleftrightarrow> own m (child_slot f nd) \<or> own m (other_slot f nd)"
  by (cases f) auto

lemma erase_loop_ctx:
  assumes "ctx_at (nodes T) (getPointer (root T)) (Some n) (node_parent nd) fs" "nodes T n = Some nd"
    "n \<notin> ctx_set fs" "distinct_ctx fs" "marks_ctx m Q (nodes T) (root T) X fs" "a \<in> X" "a \<in> Q" "a \<notin> ctx_set fs"
    "fnode ` set fs \<inter> Q = {}" "own m (node_left nd) \<or> own m (node_right nd) \<longleftrightarrow> X \<inter> (Q - {a}) \<noteq> {}"
  shows "\<exists>T'. erase_loop m (Some n) T = Some T' \<and> marks_ctx m (Q - {a}) (nodes T') (root T') X fs
    \<and> but_marks m T T' \<and> (\<forall>k. k \<notin> fnode ` set fs \<longrightarrow> nodes T' k = nodes T k)"
  using assms
proof (induction fs arbitrary: n nd X T)
  case Nil
  let ?c = "hole_ptr T []"
  have cp: "child_ptr n (node_parent nd) T = Some ?c" "set_child_ptr n (node_parent nd) c T = Some (set_hole T [] c)" for c
    using child_ptr_ctx [OF Nil.prems(1,3)] set_child_ptr_ctx [OF Nil.prems(1,3)] by simp_all
  have par: "node_parent nd = None" using Nil.prems(1) by simp
  have oc: "own m ?c" using Nil.prems(5-7) by auto
  show ?case
  proof (cases "X \<inter> (Q - {a}) = {}")
    case False
    then have "erase_loop m (Some n) T = Some T" using Nil.prems(2,10) by (subst erase_loop.simps) auto
    moreover have "marks_ctx m (Q - {a}) (nodes T) (root T) X []" using False Nil.prems(5) by auto
    ultimately show ?thesis by auto
  next
    case True
    let ?T = "set_hole T [] (?c\<lparr>getInt := getInt ?c AND NOT m\<rparr>)"
    have "erase_loop m None ?T = Some ?T" by (subst erase_loop.simps) simp
    then have "erase_loop m (Some n) T = Some ?T" using cp oc Nil.prems(2,10) True par by (subst erase_loop.simps) simp
    moreover have "but_marks m T ?T" by (rule but_marks_set_hole) (rule tags_but_erase)
    moreover have "\<not> own m (?c\<lparr>getInt := getInt ?c AND NOT m\<rparr>)" by (rule own_erase)
    ultimately show ?thesis using True by auto
  qed
next
  case (Cons f gs)
  let ?c = "hole_ptr T (f # gs)" and ?Q = "Q - {a}"
  have cp: "child_ptr n (node_parent nd) T = Some ?c" "set_child_ptr n (node_parent nd) c T = Some (set_hole T (f # gs) c)" for c
    using child_ptr_ctx [OF Cons.prems(1,3)] set_child_ptr_ctx [OF Cons.prems(1,3)] by simp_all
  obtain fd where fd: "nodes T (fnode f) = Some fd" "node_parent nd = Some (fnode f)" "ctx_at (nodes T) (getPointer (root T)) (Some (fnode f)) (node_parent fd) gs"
    using Cons.prems(1) by (auto split: option.splits)
  have oc: "own m ?c" using hole_own [OF Cons.prems(5)] Cons.prems(6,7) by auto
  show ?case
  proof (cases "X \<inter> ?Q = {}")
    case False
    then have "erase_loop m (Some n) T = Some T" using Cons.prems(2,10) by (subst erase_loop.simps) auto
    moreover have "marks_ctx m ?Q (nodes T) (root T) X (f # gs) = marks_ctx m Q (nodes T) (root T) X (f # gs)"
      using False Cons.prems(8) by (intro marks_ctx_cong) auto
    ultimately show ?thesis using Cons.prems(5) by auto
  next
    case True
    define c' where "c' = ?c\<lparr>getInt := getInt ?c AND NOT m\<rparr>"
    define T1 where "T1 = set_hole T (f # gs) c'"
    let ?X = "insert (fnode f) (X \<union> set_tree (sibling f))"
    have T: "nodes T1 (fnode f) = Some (set_slot f c' fd)" "root T1 = root T" using fd(1) by (simp_all add: T1_def)
    have noc: "\<not> own m c'" unfolding c'_def by (rule own_erase)
    have "ctx_at (nodes T1) (getPointer (root T1)) (Some (fnode f)) (node_parent (set_slot f c' fd)) gs"
      using fd(3) Cons.prems(4) by (subst ctx_at_cong [of _ _ "nodes T"]) (auto simp: T1_def)
    moreover have "marks_ctx m Q (nodes T1) (root T1) ?X gs" unfolding T1_def by (rule marks_ctx_tail [OF Cons.prems(5,4) fd(1)])
    moreover have "fnode f \<notin> ctx_set gs" "distinct_ctx gs" "a \<in> ?X" "a \<notin> ctx_set gs" "fnode ` set gs \<inter> Q = {}" using Cons.prems(4,6,8,9) by auto
    moreover have "own m (node_left (set_slot f c' fd)) \<or> own m (node_right (set_slot f c' fd)) \<longleftrightarrow> ?X \<inter> ?Q \<noteq> {}"
    proof -
      have "own m (other_slot f fd) \<longleftrightarrow> set_tree (sibling f) \<inter> Q \<noteq> {}" using Cons.prems(5) fd(1) by (auto simp: marks_at_iff)
      moreover have "?X \<inter> ?Q = set_tree (sibling f) \<inter> Q" using True Cons.prems(8,9) by auto
      ultimately show ?thesis using noc by (simp add: own_slots [of _ _ f])
    qed
    ultimately obtain T' where T': "erase_loop m (Some (fnode f)) T1 = Some T'" "marks_ctx m ?Q (nodes T') (root T') ?X gs"
        "but_marks m T1 T'" "\<forall>k. k \<notin> fnode ` set gs \<longrightarrow> nodes T' k = nodes T1 k"
      using Cons.IH [of T1 "fnode f", OF _ T(1)] Cons.prems(7) by metis
    have fn: "fnode f \<notin> fnode ` set gs" and sg: "\<And>k. k \<in> set_tree (sibling f) \<Longrightarrow> k \<notin> fnode ` set gs \<and> k \<noteq> fnode f"
      using Cons.prems(4) by (auto simp: ctx_set_def)
    have "marks_ctx m ?Q (nodes T') (root T') X (f # gs)"
    proof (rule marks_ctx_cons [OF Cons.prems(5,4) _ _ fd(1) _ _ T'(2)])
      show "set_tree (sibling f) \<inter> Q = set_tree (sibling f) \<inter> ?Q" using Cons.prems(8) by auto
      show "nodes T' k = nodes T k" if "k \<in> set_tree (sibling f)" for k using sg [OF that] T'(4) by (simp add: T1_def)
      show "nodes T' (fnode f) = Some (set_slot f c' fd)" using fn T'(4) T(1) by simp
      show "own m c' \<longleftrightarrow> X \<inter> ?Q \<noteq> {}" using noc True by auto
    qed
    moreover have "but_marks m T T'"
      using but_marks_set_hole [OF tags_but_erase, of m T "f # gs"] T'(3) but_marks_trans unfolding T1_def c'_def by blast
    moreover have "erase_loop m (Some n) T = Some T'"
      using cp oc Cons.prems(2,10) True fd(2) T'(1) by (subst erase_loop.simps) (simp add: T1_def c'_def)
    moreover have "nodes T' k = nodes T k" if "k \<notin> fnode ` set (f # gs)" for k
      using that T'(4) by (simp add: T1_def)
    ultimately show ?thesis by blast
  qed
qed

section \<open>The searcher owns a set of states\<close>

definition owns :: "8 word \<Rightarrow> nat set \<Rightarrow> pTree \<Rightarrow> nat tree \<Rightarrow> bool" where
  "owns m S T t \<longleftrightarrow> S \<subseteq> live T t \<and> marks_at m (ptreeNode T ` S) (nodes T) (root T) t"

lemma owns_zipper:
  assumes w: "wf_ptree T t" and o: "owns m S T t" and s: "s \<in> live T t"
  obtains fs nd where "t = plug (Node Leaf (ptreeNode T s) Leaf) fs" "nodes T (ptreeNode T s) = Some nd" "\<not> has_kid nd"
    "ctx_at (nodes T) (getPointer (root T)) (Some (ptreeNode T s)) (node_parent nd) fs"
    "distinct_ctx fs" "ptreeNode T s \<notin> ctx_set fs"
    "marks_below m (ptreeNode T ` S) (nodes T) (Node Leaf (ptreeNode T s) Leaf)"
    "marks_ctx m (ptreeNode T ` S) (nodes T) (root T) {ptreeNode T s} fs"
    "fnode ` set fs \<inter> ptreeNode T ` S = {}"
proof -
  obtain fs nd where z: "t = plug (Node Leaf (ptreeNode T s) Leaf) fs" "nodes T (ptreeNode T s) = Some nd"
    "node_state nd = Some s" "\<not> has_kid nd"
    "ctx_at (nodes T) (getPointer (root T)) (Some (ptreeNode T s)) (node_parent nd) fs"
    "distinct_ctx fs" "ptreeNode T s \<notin> ctx_set fs" using live_zipper [OF w s] .
  have mk: "marks_below m (ptreeNode T ` S) (nodes T) (Node Leaf (ptreeNode T s) Leaf)"
      "marks_ctx m (ptreeNode T ` S) (nodes T) (root T) {ptreeNode T s} fs"
    using o unfolding owns_def z(1) marks_plug by auto
  have "fnode f \<noteq> ptreeNode T s'" if "f \<in> set fs" "s' \<in> S" for f s'
  proof -
    have s': "s' \<in> live T t" using o that(2) by (auto simp: owns_def)
    obtain sd where "nodes T (ptreeNode T s') = Some sd" "\<not> has_kid sd" using live_ptreeNode [OF w s'] by metis
    then show ?thesis using ctx_at_kid [OF z(5) that(1)] by auto
  qed
  then have "fnode ` set fs \<inter> ptreeNode T ` S = {}" by auto
  with z mk that show ?thesis by metis
qed

lemma but_marks_wf:
  assumes "but_marks m T T'" shows "wf_ptree T' t \<longleftrightarrow> wf_ptree T t" "live T' t = live T t"
proof -
  have l: "\<forall>n \<in> set_tree t. same_links (nodes T n) (nodes T' n)" using assms node_but_links by (auto simp: but_marks_def)
  show "wf_ptree T' t \<longleftrightarrow> wf_ptree T t" "live T' t = live T t"
    using wf_ptree_links [OF l] assms by (simp_all add: but_marks_def tags_but_def)
qed

lemma inj_ptreeNode:
  assumes "wf_ptree T t" "s \<in> live T t" "s' \<in> live T t" "ptreeNode T s = ptreeNode T s'"
  shows "s = s'"
  using live_ptreeNode [OF assms(1,2)] live_ptreeNode [OF assms(1,3)] assms(4) by (metis option.inject)

lemma but_marks_owns:
  assumes "but_marks m T T'" "k AND m = 0" "owns k S T t" shows "owns k S T' t"
proof -
  have "marks_at k (ptreeNode T ` S) (nodes T) (root T) t \<longleftrightarrow> marks_at k (ptreeNode T ` S) (nodes T') (root T') t"
    using assms(1) by (intro marks_at_but [OF assms(2)]) (auto simp: but_marks_def)
  then show ?thesis using assms by (auto simp: owns_def but_marks_wf(2) [OF assms(1)] but_marks_def)
qed

lemma insert_owns:
  assumes w: "wf_ptree T t" and o: "owns m S T t" and s: "s \<in> live T t" and m: "m \<noteq> 0"
  shows "\<exists>T'. insert_loop m (Some (ptreeNode T s)) T = Some T' \<and> owns m (insert s S) T' t \<and> but_marks m T T'"
proof -
  let ?n = "ptreeNode T s" and ?Q = "ptreeNode T ` S"
  obtain fs nd where z: "t = plug (Node Leaf ?n Leaf) fs" "nodes T ?n = Some nd" "\<not> has_kid nd"
    "ctx_at (nodes T) (getPointer (root T)) (Some ?n) (node_parent nd) fs" "distinct_ctx fs" "?n \<notin> ctx_set fs"
    "marks_below m ?Q (nodes T) (Node Leaf ?n Leaf)" "marks_ctx m ?Q (nodes T) (root T) {?n} fs" "fnode ` set fs \<inter> ?Q = {}"
    using owns_zipper [OF w o s] .
  obtain T' where T': "insert_loop m (Some ?n) T = Some T'" "marks_ctx m (insert ?n ?Q) (nodes T') (root T') {?n} fs"
      "but_marks m T T'" "\<forall>k. k \<notin> fnode ` set fs \<longrightarrow> nodes T' k = nodes T k"
    using insert_loop_ctx [OF z(4,2,6,5,8) _ z(6) m] by auto
  have "?n \<notin> fnode ` set fs" using z(6) by (auto simp: ctx_set_def)
  then have "nodes T' ?n = Some nd" using T'(4) z(2) by simp
  moreover have "\<not> own m (node_left nd)" "\<not> own m (node_right nd)" using z(3) by (auto simp: has_kid_def IS_OUR_NODE_VALID_def)
  ultimately have "marks_at m (insert ?n ?Q) (nodes T') (root T') t" using T'(2) unfolding z(1) marks_plug by simp
  then have "owns m (insert s S) T' t" using o s T'(3) by (auto simp: owns_def but_marks_def but_marks_wf(2) [OF T'(3)])
  with T' show ?thesis by blast
qed

lemma erase_owns:
  assumes w: "wf_ptree T t" and o: "owns m S T t" and s: "s \<in> S"
  shows "\<exists>T'. erase_loop m (Some (ptreeNode T s)) T = Some T' \<and> owns m (S - {s}) T' t \<and> but_marks m T T'"
proof -
  let ?n = "ptreeNode T s" and ?Q = "ptreeNode T ` S"
  have sl: "s \<in> live T t" using o s by (auto simp: owns_def)
  obtain fs nd where z: "t = plug (Node Leaf ?n Leaf) fs" "nodes T ?n = Some nd" "\<not> has_kid nd"
    "ctx_at (nodes T) (getPointer (root T)) (Some ?n) (node_parent nd) fs" "distinct_ctx fs" "?n \<notin> ctx_set fs"
    "marks_below m ?Q (nodes T) (Node Leaf ?n Leaf)" "marks_ctx m ?Q (nodes T) (root T) {?n} fs" "fnode ` set fs \<inter> ?Q = {}"
    using owns_zipper [OF w o sl] .
  have nk: "\<not> own m (node_left nd)" "\<not> own m (node_right nd)" using z(3) by (auto simp: has_kid_def IS_OUR_NODE_VALID_def)
  then have kids: "own m (node_left nd) \<or> own m (node_right nd) \<longleftrightarrow> {?n} \<inter> (?Q - {?n}) \<noteq> {}" by simp
  obtain T' where T': "erase_loop m (Some ?n) T = Some T'" "marks_ctx m (?Q - {?n}) (nodes T') (root T') {?n} fs"
      "but_marks m T T'" "\<forall>k. k \<notin> fnode ` set fs \<longrightarrow> nodes T' k = nodes T k"
    using erase_loop_ctx [OF z(4,2,6,5,8) _ _ z(6,9) kids] s by auto
  have "?n \<notin> fnode ` set fs" using z(6) by (auto simp: ctx_set_def)
  then have "nodes T' ?n = Some nd" using T'(4) z(2) by simp
  then have "marks_at m (?Q - {?n}) (nodes T') (root T') t" using nk T'(2) unfolding z(1) marks_plug by simp
  moreover have "?Q - {?n} = ptreeNode T ` (S - {s})" using inj_ptreeNode [OF w sl] o unfolding owns_def by (auto, metis subsetD)
  ultimately have "owns m (S - {s}) T' t" using o T'(3) by (auto simp: owns_def but_marks_def but_marks_wf(2) [OF T'(3)])
  with T' show ?thesis by blast
qed

lemma insert_all_owns:
  "wf_ptree T t \<Longrightarrow> owns m S T t \<Longrightarrow> set ess \<subseteq> live T t \<Longrightarrow> m \<noteq> 0 \<Longrightarrow>
    \<exists>T'. RandomPathSearcher__insert m ess T = Some T' \<and> owns m (S \<union> set ess) T' t \<and> but_marks m T T'"
proof (induction ess arbitrary: T S)
  case (Cons s ess)
  obtain T1 where T1: "insert_loop m (Some (ptreeNode T s)) T = Some T1" "owns m (insert s S) T1 t" "but_marks m T T1"
    using insert_owns [OF Cons.prems(1,2) _ Cons.prems(4)] Cons.prems(3) by auto
  obtain T2 where "RandomPathSearcher__insert m ess T1 = Some T2" "owns m (insert s S \<union> set ess) T2 t" "but_marks m T1 T2"
    using Cons.IH [of T1 "insert s S"] T1 Cons.prems but_marks_wf [OF T1(3), of t] by auto
  with T1 show ?case using but_marks_trans by auto
qed auto

lemma erase_all_owns:
  "wf_ptree T t \<Longrightarrow> owns m S T t \<Longrightarrow> set ess \<subseteq> S \<Longrightarrow> distinct ess \<Longrightarrow>
    \<exists>T'. RandomPathSearcher__erase m ess T = Some T' \<and> owns m (S - set ess) T' t \<and> but_marks m T T'"
proof (induction ess arbitrary: T S)
  case (Cons s ess)
  obtain T1 where T1: "erase_loop m (Some (ptreeNode T s)) T = Some T1" "owns m (S - {s}) T1 t" "but_marks m T T1"
    using erase_owns [OF Cons.prems(1,2)] Cons.prems(3) by auto
  have "set ess \<subseteq> S - {s}" using Cons.prems(3,4) by auto
  then obtain T2 where "RandomPathSearcher__erase m ess T1 = Some T2" "owns m (S - {s} - set ess) T2 t" "but_marks m T1 T2"
    using Cons.IH [of T1 "S - {s}"] T1 Cons.prems but_marks_wf [OF T1(3), of t] by auto
  moreover have "S - {s} - set ess = S - set (s # ess)" by auto
  ultimately show ?case using T1 but_marks_trans by auto
qed auto

lemma update_owns:
  assumes "wf_ptree T t" "owns m S T t" "set as \<subseteq> live T t" "set rs \<subseteq> S \<union> set as" "distinct rs" "m \<noteq> 0"
  shows "\<exists>T'. RandomPathSearcher__update m as rs T = Some T' \<and> owns m (S \<union> set as - set rs) T' t \<and> but_marks m T T'"
proof -
  obtain T1 where T1: "RandomPathSearcher__insert m as T = Some T1" "owns m (S \<union> set as) T1 t" "but_marks m T T1"
    using insert_all_owns [OF assms(1-3,6)] by blast
  have "wf_ptree T1 t" using but_marks_wf(1) [OF T1(3)] assms(1) by simp
  from erase_all_owns [OF this T1(2) assms(4,5)] T1 show ?thesis using but_marks_trans unfolding RandomPathSearcher__update_def by auto
qed

section \<open>Selection\<close>

lemma own_kid:
  assumes "marks_at m Q h c t" "tree_at h par (getPointer c) t" "own m c"
  obtains k l r where "getPointer c = Some k" "t = Node l k r" "set_tree t \<inter> Q \<noteq> {}" "marks_below m Q h t"
  using assms by (cases t) (auto simp: IS_OUR_NODE_VALID_def)

lemma selectState_loop_ok:
  assumes "tree_at (nodes T) par (Some n) t" "marks_below m Q (nodes T) t" "set_tree t \<inter> Q \<noteq> {}"
    and "\<forall>k \<in> set_tree t. node_ok T k" "distinct (inorder t)"
    and leaf: "\<And>k nd. k \<in> Q \<Longrightarrow> nodes T k = Some nd \<Longrightarrow> node_state nd \<noteq> None"
  shows "\<exists>s k nd. selectState_loop m rng T i flips bits n = Some s \<and> k \<in> set_tree t \<inter> Q \<and> nodes T k = Some nd \<and> node_state nd = Some s"
  using assms(1-5)
proof (induction t arbitrary: par n i flips bits)
  case (Node l k r)
  then obtain nd where nd: "n = k" "nodes T n = Some nd" "tree_at (nodes T) (Some n) (getPointer (node_left nd)) l"
      "tree_at (nodes T) (Some n) (getPointer (node_right nd)) r" "marks_at m Q (nodes T) (node_left nd) l" "marks_at m Q (nodes T) (node_right nd) r"
    by (auto split: option.splits)
  have ok: "node_ok T n" using Node.prems(4) nd(1) by simp
  show ?case
  proof (cases "node_state nd")
    case (Some s)
    then have "\<not> has_kid nd" using ok nd(2) by (simp add: node_ok_def)
    with nd(3,4) have "l = Leaf" "r = Leaf" using tree_at_Leaf_iff by (auto simp: has_kid_def)
    with Node.prems(3) nd(1) have "n \<in> set_tree (Node l k r) \<inter> Q" by auto
    moreover have "selectState_loop m rng T i flips bits n = Some s" using nd(2) Some by (subst selectState_loop.simps) simp
    ultimately show ?thesis using nd(2) Some by blast
  next
    case None
    have nq: "n \<notin> Q" using leaf [of n nd] nd(2) None by auto
    have goL: ?thesis if own: "own m (node_left nd)" and eq: "selectState_loop m rng T i flips bits n = getPointer (node_left nd) \<bind> selectState_loop m rng T i' fl' b'" for i' fl' b'
    proof -
      obtain c l' r' where c: "getPointer (node_left nd) = Some c" "set_tree l \<inter> Q \<noteq> {}" "marks_below m Q (nodes T) l"
        using own_kid [OF nd(5,3) own] by metis
      obtain s k nd' where "selectState_loop m rng T i' fl' b' c = Some s" "k \<in> set_tree l \<inter> Q" "nodes T k = Some nd'" "node_state nd' = Some s"
        using Node.IH(1) [of "Some n" c i' fl' b'] nd(3) c Node.prems(4,5) by auto
      with eq c(1) show ?thesis by auto
    qed
    have goR: ?thesis if own: "own m (node_right nd)" and eq: "selectState_loop m rng T i flips bits n = getPointer (node_right nd) \<bind> selectState_loop m rng T i' fl' b'" for i' fl' b'
    proof -
      obtain c l' r' where c: "getPointer (node_right nd) = Some c" "set_tree r \<inter> Q \<noteq> {}" "marks_below m Q (nodes T) r"
        using own_kid [OF nd(6,4) own] by metis
      obtain s k nd' where "selectState_loop m rng T i' fl' b' c = Some s" "k \<in> set_tree r \<inter> Q" "nodes T k = Some nd'" "node_state nd' = Some s"
        using Node.IH(2) [of "Some n" c i' fl' b'] nd(4) c Node.prems(4,5) by auto
      with eq c(1) show ?thesis by auto
    qed
    have ne: "getPointer (node_left nd) \<noteq> Some n" "getPointer (node_right nd) \<noteq> Some n"
      using nd(1,3,4) Node.prems(5) by (cases l; cases r; auto)+
    consider "\<not> own m (node_left nd)" "own m (node_right nd)" | "own m (node_left nd)" "\<not> own m (node_right nd)" | "own m (node_left nd)" "own m (node_right nd)"
      using nd(1,5,6) nq Node.prems(3) by (auto simp: marks_at_iff)
    then show ?thesis
    proof cases
      case 1
      then show ?thesis using nd(2) None ne by (intro goR [of i flips bits]) (simp_all, subst selectState_loop.simps, simp)
    next
      case 2
      then show ?thesis using nd(2) None ne by (intro goL [of i flips bits]) (simp_all, subst selectState_loop.simps, simp)
    next
      case 3
      define i' fl' b' where "i' = (if bits = 0 then Suc i else i)" and "fl' = (if bits = 0 then rng i else flips)" and "b' = (if bits = 0 then 31 else bits - 1)"
      have eq: "selectState_loop m rng T i flips bits n = getPointer (if bit fl' b' then node_left nd else node_right nd) \<bind> selectState_loop m rng T i' fl' b'"
        using 3 nd(2) None by (subst selectState_loop.simps) (simp add: i'_def fl'_def b'_def Let_def)
      show ?thesis using goL [OF 3(1), of i' fl' b'] goR [OF 3(2), of i' fl' b'] eq by (cases "bit fl' b'") auto
    qed
  qed
qed simp

lemma select_owns:
  assumes w: "wf_ptree T t" and o: "owns m S T t"
  shows "RandomPathSearcher__empty m T \<longleftrightarrow> S = {}"
    and "S \<noteq> {} \<Longrightarrow> \<exists>s \<in> S. RandomPathSearcher__selectState m rng T = Some s"
proof -
  let ?Q = "ptreeNode T ` S"
  have sub: "?Q \<subseteq> set_tree t" using o live_ptreeNode [OF w] unfolding owns_def by blast
  have mk: "own m (root T) \<longleftrightarrow> set_tree t \<inter> ?Q \<noteq> {}" "marks_below m ?Q (nodes T) t" using o by (auto simp: owns_def marks_at_iff)
  show "RandomPathSearcher__empty m T \<longleftrightarrow> S = {}" using mk(1) sub by (auto simp: RandomPathSearcher__empty_def)
  assume "S \<noteq> {}"
  then have own: "own m (root T)" "set_tree t \<inter> ?Q \<noteq> {}" using mk(1) sub by auto
  then obtain n where n: "getPointer (root T) = Some n" "getInt (root T) AND m \<noteq> 0" by (auto simp: IS_OUR_NODE_VALID_def)
  have st: "node_state nd \<noteq> None" if k: "k \<in> ?Q" "nodes T k = Some nd" for k nd
  proof -
    obtain s where s: "s \<in> live T t" "k = ptreeNode T s" using k(1) o by (auto simp: owns_def)
    then show ?thesis using live_ptreeNode [OF w s(1)] k(2) by (metis option.distinct(1) option.inject)
  qed
  obtain s k nd where s: "selectState_loop m rng T 0 0 0 n = Some s" "k \<in> set_tree t \<inter> ?Q" "nodes T k = Some nd" "node_state nd = Some s"
    using selectState_loop_ok [of T None n t m ?Q rng 0 0 0] w n(1) mk(2) own(2) st by (auto simp: wf_ptree_def)
  obtain s' where s': "s' \<in> S" "k = ptreeNode T s'" using s(2) by auto
  then have "s' \<in> live T t" using o by (auto simp: owns_def)
  then have "s' = s" using live_ptreeNode [OF w] s(3,4) s'(2) by (metis option.inject)
  then show "\<exists>s \<in> S. RandomPathSearcher__selectState m rng T = Some s" using s(1) s'(1) n by (auto simp: RandomPathSearcher__selectState_def)
qed

section \<open>Forks and ends keep the marks\<close>

lemma own_node_ptr: "getPointer c \<noteq> None \<Longrightarrow> own m (node_ptr k (getInt c)) \<longleftrightarrow> own m c"
  by (simp add: IS_OUR_NODE_VALID_def node_ptr_def)

lemma own_null [simp]: "\<not> own m null_ptr" "\<not> own m (node_ptr k 0)"
  by (simp_all add: IS_OUR_NODE_VALID_def null_ptr_def node_ptr_def)

lemma attach_owns:
  assumes w: "wf_ptree T t" and s: "s \<in> live T t" and s': "s' \<notin> live T t" "s' \<noteq> s"
  shows "\<exists>T' t'. PTree__attach (ptreeNode T s) s' s T = Some T' \<and> wf_ptree T' t' \<and> live T' t' = insert s' (live T t)
    \<and> (\<forall>m S. owns m S T t \<longrightarrow> owns m S T' t')"
proof -
  let ?n = "ptreeNode T s"
  obtain T' fs nd where a: "PTree__attach ?n s' s T = Some T'" "T' = attached ?n nd s' s (hole_ptr T fs) T"
    "t = plug (Node Leaf ?n Leaf) fs" "?n < brk T" "\<forall>m \<in> ctx_set fs. m < brk T"
    "wf_ptree T' (plug (Node (Node Leaf (brk T) Leaf) ?n (Node Leaf (Suc (brk T)) Leaf)) fs)"
    "live T' (plug (Node (Node Leaf (brk T) Leaf) ?n (Node Leaf (Suc (brk T)) Leaf)) fs) = insert s' (live T t)"
    using attach_ok [OF w s s'] .
  let ?t = "plug (Node (Node Leaf (brk T) Leaf) ?n (Node Leaf (Suc (brk T)) Leaf)) fs"
  have "owns m S T' ?t" if o: "owns m S T t" for m S
  proof -
    let ?Q = "ptreeNode T ` S" and ?Q' = "ptreeNode T' ` S"
    have d: "distinct (inorder t)" "tree_at (nodes T) None (getPointer (root T)) t" using w by (simp_all add: wf_ptree_def)
    have z: "?n \<notin> ctx_set fs" using d(1) unfolding a(3) distinct_plug by simp
    obtain par where "ctx_at (nodes T) (getPointer (root T)) (Some ?n) par fs" using d(2) unfolding a(3) tree_at_plug by auto
    then have hp: "getPointer (hole_ptr T fs) \<noteq> None" using hole_ptr_ctx by fastforce
    have mk: "marks_ctx m ?Q (nodes T) (root T) {?n} fs" using o unfolding owns_def a(3) marks_plug by simp
    have sub: "S \<subseteq> live T t" using o by (simp add: owns_def)
    have nS: "s' \<notin> S" using sub s'(1) by auto
    have lt: "ptreeNode T x < brk T" if "x \<in> S" for x
      using live_ptreeNode [OF w, of x] that sub w by (auto simp: wf_ptree_def node_ok_def)
    have pn: "ptreeNode T' = (ptreeNode T)(s' := brk T, s := Suc (brk T))" by (simp add: a(2) attached_def)
    have inj: "ptreeNode T x = ?n \<Longrightarrow> x = s" if "x \<in> S" for x using inj_ptreeNode [OF w s, of x] that sub by auto
    then have Qn: "?n \<in> ?Q \<longleftrightarrow> s \<in> S" by force
    have Q': "?Q' = (if s \<in> S then insert (Suc (brk T)) (?Q - {?n}) else ?Q)"
      using nS inj by (auto simp: pn image_iff)
    have mem: "brk T \<notin> ?Q'" "Suc (brk T) \<in> ?Q' \<longleftrightarrow> s \<in> S" "?n \<notin> ?Q'" "ctx_set fs \<inter> ?Q = ctx_set fs \<inter> ?Q'"
      using lt a(4,5) Qn z unfolding Q' by (auto dest!: bspec) fastforce+
    have hole: "own m (hole_ptr T fs) \<longleftrightarrow> s \<in> S" using hole_own [OF mk] Qn by simp
    have "marks_ctx m ?Q' (nodes T') (root T') {?n, brk T, Suc (brk T)} fs = marks_ctx m ?Q (nodes T) (root T') {?n} fs"
    proof (rule marks_ctx_cong)
      show "nodes T' k = nodes T k" if "k \<in> ctx_set fs" for k using that a(5) z by (auto simp: a(2) attached_def)
    qed (use mem Qn in auto)
    moreover have "root T' = root T" by (simp add: a(2) attached_def)
    moreover have "nodes T' ?n = Some (nd\<lparr>node_state := None, node_left := node_ptr (brk T) 0, node_right := node_ptr (Suc (brk T)) (getInt (hole_ptr T fs))\<rparr>)"
      "nodes T' (brk T) = Some (new_node (Some ?n) s')" "nodes T' (Suc (brk T)) = Some (new_node (Some ?n) s)"
      using a(4) by (auto simp: a(2) attached_def)
    ultimately have "marks_at m ?Q' (nodes T') (root T') ?t"
      unfolding marks_plug using mk mem hole hp by (simp add: own_node_ptr new_node_def insert_commute)
    then show ?thesis using sub by (auto simp: owns_def a(7))
  qed
  with a show ?thesis by blast
qed

lemma removed_marks:
  assumes w: "wf_ptree T (plug (Node Leaf n Leaf) fs)" and st: "staying fs = f # gs"
    and mk: "marks_at m Q (nodes T) (root T) (plug (Node Leaf n Leaf) fs)"
    and Q: "n \<notin> Q" "fnode ` set fs \<inter> Q = {}"
  shows "marks_at m Q (nodes (removed compress n fs T)) (root (removed compress n fs T)) (rest_tree compress fs)"
proof -
  let ?T = "removed compress n fs T"
  have t: "tree_at (nodes T) None (getPointer (root T)) (plug (Node Leaf n Leaf) fs)" "distinct_ctx fs" "n \<notin> ctx_set fs"
    using w unfolding wf_ptree_def distinct_plug by auto
  obtain pd l q r cd where x: "nodes T (fnode f) = Some pd" "sibling f = Node l q r" "nodes T q = Some cd"
    "getPointer (other_slot f pd) = Some q" "node_parent cd = Some (fnode f)"
    "tree_at (nodes T) (Some q) (getPointer (node_left cd)) l" "tree_at (nodes T) (Some q) (getPointer (node_right cd)) r"
    "ctx_at (nodes T) (getPointer (root T)) (Some (fnode f)) (node_parent pd) gs" "distinct_ctx (f # gs)"
    "n \<notin> insert (fnode f) (set_tree (sibling f) \<union> ctx_set gs)"
    and y1: "\<forall>m \<in> set_tree l \<union> set_tree r. nodes ?T m = nodes T m"
    and y2: "\<forall>m \<in> ctx_set gs. \<not> compress \<or> m \<noteq> fnode (hd gs) \<longrightarrow> nodes ?T m = nodes T m"
    and y3: "nodes ?T q = Some (if compress then cd\<lparr>node_parent := node_parent pd\<rparr> else cd)"
    and y4: "\<not> compress \<longrightarrow> nodes ?T (fnode f) = Some (set_slot f null_ptr pd)"
    and y5: "compress \<longrightarrow> gs \<noteq> [] \<longrightarrow> nodes ?T (fnode (hd gs)) = map_option (set_slot (hd gs) (other_slot f pd)) (nodes T (fnode (hd gs)))"
    and y6: "root ?T = (if compress \<and> gs = [] then other_slot f pd else root T)"
    using removed_nodes [OF t st] .
  have fs: "fs = dying fs @ f # gs" using st dying_staying [of fs] by simp
  let ?u = "plug (Node Leaf n Leaf) (dying fs)" and ?X = "insert (fnode f) (set_tree (sibling f))"
  have pl: "plug (Node Leaf n Leaf) fs = plug ?u (f # gs)" by (subst fs) (simp add: plug_append)
  have mc: "marks_ctx m Q (nodes T) (root T) (set_tree ?u) (f # gs)" using mk unfolding pl marks_plug by simp
  have uQ: "set_tree ?u \<inter> Q = {}"
  proof -
    have "sibling g = Leaf" "g \<in> set fs" if "g \<in> set (dying fs)" for g
      using set_takeWhileD [of g "\<lambda>f. sibling f = Leaf" fs] that by (auto simp: dying_def)
    then have "set_tree ?u \<subseteq> insert n (fnode ` set fs)" by (auto simp: set_plug ctx_set_def)
    then show ?thesis using Q by auto
  qed
  have fQ: "fnode f \<notin> Q" using Q(2) arg_cong [OF fs, of set] by auto
  have sib: "marks_at m Q (nodes T) (other_slot f pd) (sibling f)"
    and up: "marks_ctx m Q (nodes T) (root T) (insert (fnode f) (set_tree ?u \<union> set_tree (sibling f))) gs"
    using mc x(1) by simp_all
  have same: "marks_at m Q (nodes ?T) c l = marks_at m Q (nodes T) c l" "marks_at m Q (nodes ?T) c r = marks_at m Q (nodes T) c r" for c
    by (rule marks_at_cong; use y1 in auto)+
  have below: "marks_below m Q (nodes ?T) (sibling f)" using sib x(2,3) y3 same by simp
  show ?thesis
  proof (cases compress)
    case False
    have "marks_ctx m Q (nodes ?T) (root ?T) (insert (fnode f) ({} \<union> set_tree (sibling f))) gs
        = marks_ctx m Q (nodes T) (root ?T) (insert (fnode f) (set_tree ?u \<union> set_tree (sibling f))) gs"
      by (rule marks_ctx_cong) (use y2 False uQ in auto)
    moreover have "marks_at m Q (nodes ?T) (other_slot f pd) (sibling f)" using below sib by (simp only: marks_at_iff)
    ultimately have "marks_ctx m Q (nodes ?T) (root ?T) {} (f # gs)" using up y4 y6 False by simp
    then show ?thesis unfolding rest_tree_def st by (simp only: False list.case if_False marks_plug) simp
  next
    case True
    have "marks_ctx m Q (nodes ?T) (root ?T) (set_tree (sibling f)) gs"
    proof (cases gs)
      case Nil
      then show ?thesis using sib y6 True by (simp add: marks_at_iff)
    next
      case (Cons g hs)
      then obtain gd where gd: "nodes T (fnode g) = Some gd" using x(8) by (auto split: option.splits)
      have g1: "nodes ?T (fnode g) = Some (set_slot g (other_slot f pd) gd)" using y5 True gd by (simp add: Cons)
      have g2: "nodes ?T k = nodes T k" if "k \<in> set_tree (sibling g) \<union> ctx_set hs" for k
      proof -
        have "k \<in> ctx_set gs" "k \<noteq> fnode (hd gs)" using that x(9) by (auto simp: Cons)
        then show ?thesis using y2 by blast
      qed
      have "marks_at m Q (nodes ?T) (other_slot g gd) (sibling g) = marks_at m Q (nodes T) (other_slot g gd) (sibling g)"
        by (rule marks_at_cong) (use g2 in auto)
      moreover have "marks_ctx m Q (nodes ?T) (root T) (insert (fnode g) (set_tree (sibling f) \<union> set_tree (sibling g))) hs
          = marks_ctx m Q (nodes T) (root T) (insert (fnode g) (insert (fnode f) (set_tree ?u \<union> set_tree (sibling f)) \<union> set_tree (sibling g))) hs"
        by (rule marks_ctx_cong) (use g2 uQ fQ in auto)
      ultimately show ?thesis using up sib y6 True g1 gd unfolding Cons by (auto simp: marks_at_iff)
    qed
    then show ?thesis unfolding rest_tree_def st using below by (simp add: True marks_plug)
  qed
qed

lemma remove_owns:
  assumes w: "wf_ptree T t" and s: "s \<in> live T t" "live T t \<noteq> {s}"
  shows "\<exists>T' t'. PTree__remove compress (ptreeNode T s) T = Some T' \<and> wf_ptree T' t' \<and> live T' t' = live T t - {s}
    \<and> (\<forall>m S. owns m S T t \<and> s \<notin> S \<longrightarrow> owns m S T' t')"
proof -
  let ?n = "ptreeNode T s"
  obtain fs nd where z: "t = plug (Node Leaf ?n Leaf) fs" "nodes T ?n = Some nd" "node_state nd = Some s" "\<not> has_kid nd"
    "ctx_at (nodes T) (getPointer (root T)) (Some ?n) (node_parent nd) fs" "distinct_ctx fs" "?n \<notin> ctx_set fs"
    using live_zipper [OF w s(1)] .
  obtain f gs where st: "staying fs = f # gs"
    using staying_live [OF w [unfolded z(1)] z(2,3,5)] s(2) z(1) by (cases "staying fs") auto
  let ?T = "removed compress ?n fs T" and ?t = "rest_tree compress fs"
  have "tree_at (nodes T) None (getPointer (root T)) (plug (Node Leaf ?n Leaf) fs)" using w by (simp add: wf_ptree_def z(1))
  note eq = remove_eq [OF this z(6,7,2,4,5), of compress]
  have wf': "wf_ptree ?T ?t" "live ?T ?t = live T t - {s}" using removed_wf [OF w [unfolded z(1)] z(2,3,5) st, of compress] z(1) by auto
  have "owns m S ?T ?t" if o: "owns m S T t" "s \<notin> S" for m S
  proof -
    have sub: "S \<subseteq> live T t" using o by (simp add: owns_def)
    have nQ: "?n \<notin> ptreeNode T ` S" using inj_ptreeNode [OF w s(1)] sub o(2) by (metis imageE subsetD)
    have "fnode g \<noteq> ptreeNode T x" if "g \<in> set fs" "x \<in> S" for g x
    proof -
      have "x \<in> live T t" using sub that(2) by auto
      then obtain xd where "nodes T (ptreeNode T x) = Some xd" "\<not> has_kid xd" using live_ptreeNode [OF w] by metis
      then show ?thesis using ctx_at_kid [OF z(5) that(1)] by auto
    qed
    then have "fnode ` set fs \<inter> ptreeNode T ` S = {}" by auto
    from removed_marks [OF w [unfolded z(1)] st _ nQ this] o sub show ?thesis
      unfolding owns_def by (auto simp: z(1) [symmetric] wf'(2) removed_fields)
  qed
  with eq wf' show ?thesis by blast
qed

section \<open>Runs with several searchers\<close>

text \<open>
  The operations that touch the tree in a run: forks and ends of states, and updates of the
  searchers, of which the tree serves three; the mask of the \<open>j\<close>-th is what \<open>getNextId\<close>
  gave it.
\<close>

datatype rp_op = TreeOp ptree_op | Update nat "nat list" "nat list"

definition mask_of :: "nat \<Rightarrow> 8 word" where
  "mask_of j = push_bit j 1"

lemma getNextId_mask: "getNextId T = (if registeredIds T < 3 then Some (mask_of (registeredIds T), T\<lparr>registeredIds := registeredIds T + 1\<rparr>) else None)"
  by (simp add: getNextId_def mask_of_def)

fun rp_exec :: "bool \<Rightarrow> rp_op \<Rightarrow> pTree \<Rightarrow> pTree option" where
  "rp_exec compress (TreeOp a) T = exec_op compress a T"
| "rp_exec compress (Update j added gone) T = RandomPathSearcher__update (mask_of j) added gone T"

fun rp_execs :: "bool \<Rightarrow> rp_op list \<Rightarrow> pTree \<Rightarrow> pTree option" where
  "rp_execs compress [] T = Some T"
| "rp_execs compress (a # as) T = rp_exec compress a T \<bind> rp_execs compress as"

text \<open>
  The specification: the live states and, for every searcher, the states it was given. A
  state is taken from every searcher before it ends.
\<close>

fun rp_spec :: "rp_op \<Rightarrow> nat set \<times> (nat \<Rightarrow> nat set) \<Rightarrow> (nat set \<times> (nat \<Rightarrow> nat set)) option" where
  "rp_spec (TreeOp a) (L, S) =
     (if (case a of Fork _ _ \<Rightarrow> True | Kill s \<Rightarrow> s \<notin> S 0 \<and> s \<notin> S 1 \<and> s \<notin> S 2) then map_option (\<lambda>L'. (L', S)) (live_op a L) else None)"
| "rp_spec (Update j added gone) (L, S) =
     (if j < 3 \<and> set added \<subseteq> L \<and> set gone \<subseteq> S j \<union> set added \<and> distinct gone
      then Some (L, S(j := S j \<union> set added - set gone)) else None)"

fun rp_specs :: "rp_op list \<Rightarrow> nat set \<times> (nat \<Rightarrow> nat set) \<Rightarrow> (nat set \<times> (nat \<Rightarrow> nat set)) option" where
  "rp_specs [] LS = Some LS"
| "rp_specs (a # as) LS = rp_spec a LS \<bind> rp_specs as"

definition rp_inv :: "pTree \<Rightarrow> nat tree \<Rightarrow> nat set \<times> (nat \<Rightarrow> nat set) \<Rightarrow> bool" where
  "rp_inv T t LS \<longleftrightarrow> wf_ptree T t \<and> live T t = fst LS \<and> (\<forall>j < 3. owns (mask_of j) (snd LS j) T t)"

lemma less_3: "j < (3 :: nat) \<longleftrightarrow> j = 0 \<or> j = 1 \<or> j = 2"
  by auto

lemma mask_of_disjoint: "j < 3 \<Longrightarrow> k < 3 \<Longrightarrow> j \<noteq> k \<Longrightarrow> mask_of j AND mask_of k = 0" "j < 3 \<Longrightarrow> mask_of j \<noteq> 0"
  unfolding less_3 mask_of_def by (elim disjE; simp)+

lemma rp_exec_inv:
  assumes "rp_inv T t LS" "rp_spec a LS = Some LS'"
  shows "\<exists>T' t'. rp_exec compress a T = Some T' \<and> rp_inv T' t' LS'"
proof -
  obtain L S where LS: "LS = (L, S)" by (cases LS)
  have inv: "wf_ptree T t" "live T t = L" "\<forall>j < 3. owns (mask_of j) (S j) T t" using assms(1) by (simp_all add: rp_inv_def LS)
  show ?thesis
  proof (cases a)
    case (TreeOp b)
    show ?thesis
    proof (cases b)
      case (Fork s s')
      then have f: "s \<in> live T t" "s' \<notin> live T t" "s' \<noteq> s" "LS' = (insert s' L, S)"
        using assms(2) inv(2) TreeOp by (auto simp: LS split: if_splits)
      obtain T' t' where "PTree__attach (ptreeNode T s) s' s T = Some T'" "wf_ptree T' t'" "live T' t' = insert s' (live T t)"
          "\<forall>m S. owns m S T t \<longrightarrow> owns m S T' t'"
        using attach_owns [OF inv(1) f(1-3)] by blast
      then show ?thesis using TreeOp Fork f(4) inv by (intro exI [of _ T'] exI [of _ t']) (simp add: rp_inv_def)
    next
      case (Kill s)
      then have f: "s \<in> live T t" "live T t \<noteq> {s}" "LS' = (L - {s}, S)" "\<forall>j < 3. s \<notin> S j"
        using assms(2) inv(2) TreeOp by (auto simp: LS less_3 split: if_splits)
      obtain T' t' where "PTree__remove compress (ptreeNode T s) T = Some T'" "wf_ptree T' t'" "live T' t' = live T t - {s}"
          "\<forall>m S. owns m S T t \<and> s \<notin> S \<longrightarrow> owns m S T' t'"
        using remove_owns [OF inv(1) f(1,2), of compress] by blast
      then show ?thesis using TreeOp Kill f(3,4) inv by (intro exI [of _ T'] exI [of _ t']) (simp add: rp_inv_def)
    qed
  next
    case (Update j as rs)
    then have u: "j < 3" "set as \<subseteq> live T t" "set rs \<subseteq> S j \<union> set as" "distinct rs" "LS' = (L, S(j := S j \<union> set as - set rs))"
      using assms(2) inv(2) by (auto simp: LS split: if_splits)
    obtain T' where T': "RandomPathSearcher__update (mask_of j) as rs T = Some T'" "owns (mask_of j) (S j \<union> set as - set rs) T' t" "but_marks (mask_of j) T T'"
      using update_owns [OF inv(1) _ u(2-4) mask_of_disjoint(2)] inv(3) u(1) by blast
    have "owns (mask_of k) (S k) T' t" if "k < 3" "k \<noteq> j" for k
      using but_marks_owns [OF T'(3) mask_of_disjoint(1)] that u(1) inv(3) by auto
    then have "rp_inv T' t LS'" using T' inv but_marks_wf [OF T'(3), of t] by (auto simp: rp_inv_def u(5))
    with T'(1) Update show ?thesis by auto
  qed
qed

lemma rp_execs_inv:
  "rp_inv T t LS \<Longrightarrow> rp_specs as LS = Some LS' \<Longrightarrow> \<exists>T' t'. rp_execs compress as T = Some T' \<and> rp_inv T' t' LS'"
proof (induction as arbitrary: T t LS)
  case (Cons a as)
  then obtain LS1 where 1: "rp_spec a LS = Some LS1" "rp_specs as LS1 = Some LS'" by (auto split: bind_splits)
  obtain T1 t1 where "rp_exec compress a T = Some T1" "rp_inv T1 t1 LS1" using rp_exec_inv [OF Cons.prems(1) 1(1)] by blast
  with Cons.IH [of T1 t1 LS1] 1(2) show ?case by simp
qed auto

text \<open>
  (C5) A random path searcher selects among its own states: in every run of forks, ends and
  updates of the three searchers that share the process tree, the searcher is empty exactly
  when it was given no state that it still has, and otherwise its random walk passes its
  assertions, ends, and returns one of its states, whatever the random words are.
\<close>

theorem random_path_run:
  assumes "rp_specs as ({s}, \<lambda>_. {}) = Some (L, S)"
  shows "\<exists>T t. rp_execs compress as (PTree__PTree s) = Some T \<and> wf_ptree T t \<and> live T t = L \<and>
    (\<forall>j < 3. (RandomPathSearcher__empty (mask_of j) T \<longleftrightarrow> S j = {}) \<and>
       (S j \<noteq> {} \<longrightarrow> (\<exists>s' \<in> S j. RandomPathSearcher__selectState (mask_of j) rng T = Some s')))"
proof -
  have "rp_inv (PTree__PTree s) (Node Leaf 0 Leaf) ({s}, \<lambda>_. {})"
    using PTree__PTree_wf [of s]
    by (simp add: rp_inv_def owns_def PTree__PTree_def PTreeNode__PTreeNode_def new_node_def)
  from rp_execs_inv [OF this assms, of compress] obtain T t where T: "rp_execs compress as (PTree__PTree s) = Some T" "rp_inv T t (L, S)" by blast
  with select_owns [of T t] show ?thesis by (intro exI [of _ T] exI [of _ t]) (simp add: rp_inv_def)
qed

theorem random_path_run_witness:
  "\<exists>T. rp_execs True [Update 0 [1] [], TreeOp (Fork 1 2), Update 1 [2] [], TreeOp (Fork 2 3), Update 0 [2, 3] [1], TreeOp (Kill 1)] (PTree__PTree 1) = Some T
    \<and> (\<exists>s' \<in> {2, 3}. RandomPathSearcher__selectState (mask_of 0) (\<lambda>_. 5) T = Some s')"
proof -
  have "rp_specs [Update 0 [1] [], TreeOp (Fork 1 2), Update 1 [2] [], TreeOp (Fork 2 3), Update 0 [2, 3] [1], TreeOp (Kill 1)] ({1}, \<lambda>_. {})
      = Some ({2, 3 :: nat}, (\<lambda>_. {})(0 := {2, 3}, 1 := {2}))" by (auto simp: fun_eq_iff)
  from random_path_run [OF this, of True "\<lambda>_. 5"] show ?thesis by fastforce
qed

end
