(* ===== verification/Unsafe_Ops.thy ===== *)
theory Unsafe_Ops
  imports Prelude Analysis_State Complex_Main
begin

text \<open>
  How the static analysis guides the search. \<open>ccured-src/NesCheck.cpp\<close> writes a record for
  every memory operation it cannot prove safe; the engine counts the recorded operations of
  a simulation run (\<open>Executor::getSimulationReward\<close>) and of the two sides of a branch
  (\<open>MCTSSearcher::getBranchBlocks\<close>, \<open>MCTSSearcher::getExpansionScore\<close>).

  The program under test is data of LLVM: instructions and basic blocks are addresses, and
  their contents, the successors of a block and the post-dominator query are the fields of
  \<open>program\<close>.
\<close>

section \<open>The program under test\<close>

datatype instClass = StoreInst | LoadInst | GetElementPtrInst | CastInst | OtherInst

record instruction =
  inst_class :: instClass
  inst_function :: string
  inst_loc :: "(32 word \<times> 32 word) option"
  inst_parent :: nat

record program =
  inst_at :: "nat \<Rightarrow> instruction"
  bb_insts :: "nat \<Rightarrow> nat list"
  bb_name :: "nat \<Rightarrow> string"
  bb_parent :: "nat \<Rightarrow> nat"
  successors :: "nat \<Rightarrow> nat list"
  findNearestCommonDominator :: "nat \<Rightarrow> nat \<Rightarrow> nat option"

section \<open>Records\<close>

text \<open>\<open>std::to_string\<close> of an unsigned number.\<close>

definition digit :: "nat \<Rightarrow> char" where
  "digit d = char_of (48 + d)"

fun to_string :: "nat \<Rightarrow> string" where
  "to_string n = (if n < 10 then [digit n] else to_string (n div 10) @ [digit (n mod 10)])"

declare to_string.simps [simp del]

fun record_prefix :: "instClass \<Rightarrow> string option" where
  "record_prefix StoreInst = Some ''STORE-''"
| "record_prefix LoadInst = Some ''LOAD-''"
| "record_prefix GetElementPtrInst = Some ''GETE-''"
| "record_prefix CastInst = Some ''CAST-''"
| "record_prefix OtherInst = None"

definition location_string :: "32 word \<times> 32 word \<Rightarrow> string" where
  "location_string loc = ''-'' @ to_string (unat (fst loc)) @ ''-'' @ to_string (unat (snd loc))"

text \<open>The record the engine looks up for an instruction.\<close>

definition unsafe_record :: "instruction \<Rightarrow> string option" where
  "unsafe_record ii = (case (record_prefix (inst_class ii), inst_loc ii) of
     (Some p, Some loc) \<Rightarrow> Some (p @ inst_function ii @ ''_nesCheck'' @ location_string loc)
   | _ \<Rightarrow> None)"

definition is_recorded :: "string set \<Rightarrow> instruction \<Rightarrow> bool" where
  "is_recorded recordingSet ii = (case unsafe_record ii of None \<Rightarrow> False | Some r \<Rightarrow> r \<in> recordingSet)"

text \<open>
  What the analysis knows of an operation when it decides on a record: the class of the
  pointer of a store or a load, whether an offset is zero, whether a loaded pointer is cast to
  a different shape.
\<close>

datatype operation =
    StoreOp variableStates
  | LoadOp variableStates
  | GepOp bool
  | CastOp bool

fun op_class :: "operation \<Rightarrow> instClass" where
  "op_class (StoreOp c) = StoreInst"
| "op_class (LoadOp c) = LoadInst"
| "op_class (GepOp z) = GetElementPtrInst"
| "op_class (CastOp d) = CastInst"

fun op_marked :: "operation \<Rightarrow> bool" where
  "op_marked (StoreOp c) = (PtrTypeToString c = ''SEQ'' \<or> PtrTypeToString c = ''DYN'')"
| "op_marked (LoadOp c) = (PtrTypeToString c = ''SEQ'' \<or> PtrTypeToString c = ''DYN'')"
| "op_marked (GepOp hasAllZeroIndices) = (\<not> hasAllZeroIndices)"
| "op_marked (CastOp differs) = differs"

definition nescheck_mark :: "operation \<Rightarrow> string \<Rightarrow> (32 word \<times> 32 word) option \<Rightarrow> string set \<Rightarrow> string set" where
  "nescheck_mark oper func_name location records = (case (record_prefix (op_class oper), location) of
     (Some p, Some loc) \<Rightarrow> if op_marked oper then insert (p @ func_name @ location_string loc) records else records
   | _ \<Rightarrow> records)"

fun nescheck_records :: "(operation \<times> string \<times> (32 word \<times> 32 word) option) list \<Rightarrow> string set \<Rightarrow> string set" where
  "nescheck_records [] records = records"
| "nescheck_records ((oper, f, loc) # ops) records = nescheck_records ops (nescheck_mark oper f loc records)"

section \<open>The reward of a simulation run\<close>

definition collectInstructionsInSimulation :: "program \<Rightarrow> nat \<Rightarrow> nat set \<Rightarrow> nat set" where
  "collectInstructionsInSimulation P ii memoryOperationInstructionSet =
     (if inst_class (inst_at P ii) \<in> {StoreInst, LoadInst, GetElementPtrInst, CastInst}
      then insert ii memoryOperationInstructionSet else memoryOperationInstructionSet)"

fun reward_loop :: "program \<Rightarrow> string set \<Rightarrow> nat list \<Rightarrow> 32 word \<times> nat set \<Rightarrow> 32 word \<times> nat set" where
  "reward_loop P globalRecordingSet [] (count_unsafe, cache) = (count_unsafe, cache)"
| "reward_loop P globalRecordingSet (ii # records) (count_unsafe, cache) =
     (if ii \<in> cache then reward_loop P globalRecordingSet records (count_unsafe + 1, cache)
      else if is_recorded globalRecordingSet (inst_at P ii)
      then reward_loop P globalRecordingSet records (count_unsafe + 1, insert ii cache)
      else reward_loop P globalRecordingSet records (count_unsafe, cache))"

text \<open>The cache \<open>globalUnsafeInstructionSet\<close> is threaded through.\<close>

definition getSimulationReward ::
  "program \<Rightarrow> string set \<Rightarrow> nat set \<Rightarrow> 32 word \<Rightarrow> nat set \<Rightarrow> real \<times> nat set" where
  "getSimulationReward P globalRecordingSet current_records errorCount cache =
     (let (count_unsafe, cache) = reward_loop P globalRecordingSet (sorted_list_of_set current_records) (0, cache);
          count_error = errorCount
      in (real (unat (1 * count_unsafe + 1 * count_error)), cache))"

section \<open>The score of a branch\<close>

fun block_loop :: "program \<Rightarrow> string set \<Rightarrow> nat list \<Rightarrow> 32 word \<times> 32 word \<Rightarrow> 32 word \<times> 32 word" where
  "block_loop P recordingSet [] (count, bb_count) = (count, bb_count)"
| "block_loop P recordingSet (ii # is) (count, bb_count) =
     (if is_recorded recordingSet (inst_at P ii) then block_loop P recordingSet is (count + 1, bb_count + 1)
      else block_loop P recordingSet is (count, bb_count))"

text \<open>A block whose count is known ends the loop over the blocks.\<close>

fun expansion_loop ::
  "program \<Rightarrow> string set \<Rightarrow> nat list \<Rightarrow> 32 word \<times> (nat \<Rightarrow> 32 word option) \<Rightarrow> 32 word \<times> (nat \<Rightarrow> 32 word option)" where
  "expansion_loop P recordingSet [] (count, globalUnsafeBlockMap) = (count, globalUnsafeBlockMap)"
| "expansion_loop P recordingSet (bb # bbs) (count, globalUnsafeBlockMap) = (case globalUnsafeBlockMap bb of
     Some k \<Rightarrow> (count + k, globalUnsafeBlockMap)
   | None \<Rightarrow>
       let (count, bb_count) = block_loop P recordingSet (bb_insts P bb) (count, 0)
       in expansion_loop P recordingSet bbs (count, globalUnsafeBlockMap(bb \<mapsto> bb_count)))"

fun getExpansionScore ::
  "program \<Rightarrow> string set \<Rightarrow> nat list list \<Rightarrow> (nat \<Rightarrow> 32 word option) \<Rightarrow> ((real \<times> real) \<times> (nat \<Rightarrow> 32 word option)) option" where
  "getExpansionScore P recordingSet [bb_left_branch, bb_right_branch] globalUnsafeBlockMap = (
     let (count_left, globalUnsafeBlockMap) = expansion_loop P recordingSet bb_left_branch (0, globalUnsafeBlockMap);
         (count_right, globalUnsafeBlockMap) = expansion_loop P recordingSet bb_right_branch (0, globalUnsafeBlockMap)
     in Some ((1 / 2 * real (unat count_left), 1 / 2 * real (unat count_right)), globalUnsafeBlockMap))"
| "getExpansionScore P recordingSet blocks globalUnsafeBlockMap = None"

section \<open>The blocks of a branch\<close>

definition next_level :: "program \<Rightarrow> nat set \<Rightarrow> nat list" where
  "next_level P S = concat (map (\<lambda>bb. if successors P bb = [] then [bb] else successors P bb) (sorted_list_of_set S))"

fun first_common :: "program \<Rightarrow> nat \<Rightarrow> nat list \<Rightarrow> nat option" where
  "first_common P bb1 [] = None"
| "first_common P bb1 (bb2 # bbs) = (case findNearestCommonDominator P bb1 bb2 of
     Some b \<Rightarrow> Some b | None \<Rightarrow> first_common P bb1 bbs)"

fun search_common :: "program \<Rightarrow> nat list \<Rightarrow> nat list \<Rightarrow> nat option \<Rightarrow> nat option" where
  "search_common P [] bbs nearest_bb_post = nearest_bb_post"
| "search_common P (bb1 # bb1s) bbs nearest_bb_post =
     search_common P bb1s bbs (case first_common P bb1 bbs of Some b \<Rightarrow> Some b | None \<Rightarrow> nearest_bb_post)"

fun search_levels :: "program \<Rightarrow> nat \<Rightarrow> nat set \<Rightarrow> nat set \<Rightarrow> nat option \<times> nat set \<times> nat set" where
  "search_levels P 0 set_left set_right = (None, set_left, set_right)"
| "search_levels P (Suc i) set_left set_right = (
     let vec_left_temp = next_level P set_left;
         vec_right_temp = next_level P set_right;
         nearest_bb_post = search_common P vec_left_temp vec_right_temp None;
         nearest_bb_post = search_common P vec_right_temp vec_left_temp nearest_bb_post
     in case nearest_bb_post of
          Some b \<Rightarrow> (Some b, set_left, set_right)
        | None \<Rightarrow> search_levels P i (set_left \<union> set vec_left_temp) (set_right \<union> set vec_right_temp))"

fun visit_successors :: "nat \<Rightarrow> nat list \<Rightarrow> nat list \<times> nat list \<times> nat set \<Rightarrow> nat list \<times> nat list \<times> nat set" where
  "visit_successors post [] (stack, br, seen) = (stack, br, seen)"
| "visit_successors post (b # bs) (stack, br, seen) =
     (if b = post then (tl stack, br, seen)
      else
        let br = (if b \<in> set br then br else br @ [b]); stack = b # stack
        in if b \<in> seen then (stack, br, {}) else visit_successors post bs (stack, br, insert b seen))"

partial_function (option) walk_branch :: "program \<Rightarrow> nat \<Rightarrow> nat list \<Rightarrow> nat list \<Rightarrow> nat set \<Rightarrow> nat list option" where
  "walk_branch P post stack br seen = (case stack of
     [] \<Rightarrow> Some br
   | tbb # stack \<Rightarrow>
       if tbb = post then Some []
       else
         let (stack, br, seen) = visit_successors post (successors P tbb) (stack, br, seen)
         in if seen = {} then Some br else walk_branch P post stack br seen)"

definition branch_blocks :: "program \<Rightarrow> nat \<Rightarrow> nat \<Rightarrow> nat \<Rightarrow> nat list list option" where
  "branch_blocks P post left_pc_bb right_pc_bb = do {
     if_then_br \<leftarrow> walk_branch P post [left_pc_bb] [left_pc_bb] {};
     if_else_br \<leftarrow> walk_branch P post [right_pc_bb] [right_pc_bb] {};
     Some [if_then_br, if_else_br]
   }"

definition getBranchBlocks :: "program \<Rightarrow> nat \<Rightarrow> nat \<Rightarrow> nat list list option" where
  "getBranchBlocks P left_pc right_pc = (
     let left_pc_bb = inst_parent (inst_at P left_pc); right_pc_bb = inst_parent (inst_at P right_pc)
     in if bb_parent P left_pc_bb \<noteq> bb_parent P right_pc_bb then Some [[left_pc_bb], [right_pc_bb]]
        else case findNearestCommonDominator P left_pc_bb right_pc_bb of
          Some post \<Rightarrow> branch_blocks P post left_pc_bb right_pc_bb
        | None \<Rightarrow>
            (case search_levels P 2 {left_pc_bb} {right_pc_bb} of
               (None, set_left, set_right) \<Rightarrow> Some [sorted_list_of_set set_left, sorted_list_of_set set_right]
             | (Some post, _, _) \<Rightarrow> branch_blocks P post left_pc_bb right_pc_bb))"

section \<open>The analysis and the engine agree on records\<close>

definition string_to_nat :: "string \<Rightarrow> nat" where
  "string_to_nat = foldl (\<lambda>n c. 10 * n + (of_char c - 48)) 0"

lemma of_char_digit: "d < 10 \<Longrightarrow> (of_char (digit d) :: nat) = 48 + d"
  by (simp add: digit_def)

lemma string_to_nat_to_string: "string_to_nat (to_string n) = n"
proof (induction n rule: to_string.induct)
  case (1 n)
  then show ?case by (simp add: to_string.simps [of n] string_to_nat_def of_char_digit)
qed

lemma to_string_inj: "to_string n = to_string m \<longleftrightarrow> n = m"
  using string_to_nat_to_string by metis

lemma to_string_digits: "c \<in> set (to_string n) \<Longrightarrow> c \<in> digit ` {..<10}"
proof (induction n rule: to_string.induct)
  case (1 n)
  then show ?case by (auto simp: to_string.simps [of n] split: if_splits)
qed

lemma to_string_no_dash: "CHR ''-'' \<notin> set (to_string n)"
proof
  assume "CHR ''-'' \<in> set (to_string n)"
  then obtain d where "CHR ''-'' = digit d" "d < 10" using to_string_digits by auto
  then have "(of_char CHR ''-'' :: nat) = 48 + d" using of_char_digit by metis
  then show False by simp
qed

lemma split_first:
  "as @ c # xs = bs @ c # ys \<Longrightarrow> c \<notin> set as \<Longrightarrow> c \<notin> set bs \<Longrightarrow> as = bs \<and> xs = ys"
  by (induction as arbitrary: bs) (auto simp: Cons_eq_append_conv)

lemma split_last_dash:
  assumes "xs @ c # as = ys @ c # bs" "c \<notin> set as" "c \<notin> set bs"
  shows "xs = ys \<and> as = bs"
proof -
  have "rev as @ c # rev xs = rev bs @ c # rev ys" using arg_cong [OF assms(1), of rev] by simp
  from split_first [OF this] assms show ?thesis by simp
qed

lemma location_string_inj:
  assumes "xs @ location_string l = ys @ location_string m"
  shows "xs = ys \<and> l = m"
proof -
  have "(xs @ ''-'' @ to_string (unat (fst l))) @ CHR ''-'' # to_string (unat (snd l))
      = (ys @ ''-'' @ to_string (unat (fst m))) @ CHR ''-'' # to_string (unat (snd m))"
    using assms by (simp add: location_string_def)
  note a = split_last_dash [OF this to_string_no_dash to_string_no_dash]
  then have "xs @ CHR ''-'' # to_string (unat (fst l)) = ys @ CHR ''-'' # to_string (unat (fst m))" by simp
  note b = split_last_dash [OF this to_string_no_dash to_string_no_dash]
  from a b show ?thesis by (simp add: to_string_inj prod_eq_iff word_unat_eq_iff)
qed

lemma record_prefix_inj:
  "record_prefix c = Some p \<Longrightarrow> record_prefix d = Some q \<Longrightarrow> p @ xs = q @ ys \<longleftrightarrow> c = d \<and> xs = ys"
  by (cases c; cases d) auto

lemma op_prefix: "\<exists>p. record_prefix (op_class oper) = Some p"
  by (cases oper) auto

text \<open>The instruction an operation of the analysis is about.\<close>

definition same_operation :: "instruction \<Rightarrow> operation \<times> string \<times> (32 word \<times> 32 word) option \<Rightarrow> bool" where
  "same_operation ii e \<longleftrightarrow> inst_class ii = op_class (fst e) \<and> fst (snd e) = inst_function ii @ ''_nesCheck''
     \<and> snd (snd e) = inst_loc ii \<and> inst_loc ii \<noteq> None"

lemma mark_recorded:
  "is_recorded (nescheck_mark oper f loc R) ii \<longleftrightarrow> op_marked oper \<and> same_operation ii (oper, f, loc) \<or> is_recorded R ii"
proof -
  obtain p where p: "record_prefix (op_class oper) = Some p" using op_prefix by blast
  show ?thesis
  proof (cases "record_prefix (inst_class ii)")
    case None
    then show ?thesis using p by (auto simp: is_recorded_def unsafe_record_def same_operation_def)
  next
    case (Some q)
    show ?thesis
    proof (cases "inst_loc ii")
      case None
      then show ?thesis by (auto simp: is_recorded_def unsafe_record_def same_operation_def Some)
    next
      case (Some l)
      have "q @ inst_function ii @ ''_nesCheck'' @ location_string l = p @ f @ location_string m
          \<longleftrightarrow> inst_class ii = op_class oper \<and> f = inst_function ii @ ''_nesCheck'' \<and> m = l" for m
        unfolding record_prefix_inj [OF \<open>record_prefix (inst_class ii) = Some q\<close> p]
        using location_string_inj [of "inst_function ii @ ''_nesCheck''" l f m] by auto
      then show ?thesis using p Some \<open>record_prefix (inst_class ii) = Some q\<close>
        by (cases loc) (auto simp: is_recorded_def unsafe_record_def nescheck_mark_def same_operation_def simp del: append_assoc)
    qed
  qed
qed

lemma records_recorded:
  "is_recorded (nescheck_records ops R) ii \<longleftrightarrow> (\<exists>e \<in> set ops. op_marked (fst e) \<and> same_operation ii e) \<or> is_recorded R ii"
  by (induction ops R rule: nescheck_records.induct) (auto simp: mark_recorded)

text \<open>
  (C11) The engine treats an instruction of a function as unsafe exactly if the analysis
  marked an operation of the instrumented copy of that function with the same class and the
  same debug location: the records of different operations never coincide.
\<close>

theorem unsafe_iff_marked:
  "is_recorded (nescheck_records ops {}) ii \<longleftrightarrow> (\<exists>e \<in> set ops. op_marked (fst e) \<and> same_operation ii e)"
proof -
  have "\<not> is_recorded {} ii" by (simp add: is_recorded_def split: option.split)
  then show ?thesis by (simp add: records_recorded)
qed

section \<open>The reward counts the recorded instructions\<close>

lemma reward_loop_ok:
  assumes "distinct is" "cache \<subseteq> {ii. is_recorded R (inst_at P ii)}"
  shows "reward_loop P R is (c, cache) =
    (c + of_nat (card {ii \<in> set is. is_recorded R (inst_at P ii)}), cache \<union> {ii \<in> set is. is_recorded R (inst_at P ii)})"
  using assms
proof (induction "is" arbitrary: c cache)
  case (Cons ii "is")
  let ?u = "\<lambda>ii. is_recorded R (inst_at P ii)"
  define U where "U = {i \<in> set is. ?u i}"
  have U: "finite U" "ii \<notin> U" using Cons.prems by (auto simp: U_def)
  have *: "{i \<in> set (ii # is). ?u i} = (if ?u ii then insert ii U else U)" by (auto simp: U_def)
  have IH: "reward_loop P R is (c, cache) = (c + of_nat (card U), cache \<union> U)" if "cache \<subseteq> {i. ?u i}" for c cache
    unfolding U_def using Cons.prems by (intro Cons.IH that) simp
  show ?case unfolding * using Cons.prems(2) U by (auto simp: IH subset_iff)
qed simp

text \<open>
  The reward of a simulation run is the number of the recorded instructions that the
  run executed, each counted once, plus the errors it met; the cache of instructions known to
  be unsafe has no influence on it and stays sound.
\<close>

lemma getSimulationReward_eq:
  assumes "finite current_records" "cache \<subseteq> {ii. is_recorded R (inst_at P ii)}"
  shows "getSimulationReward P R current_records errorCount cache =
    (let U = {ii \<in> current_records. is_recorded R (inst_at P ii)}
     in (real (unat (of_nat (card U) + errorCount)), cache \<union> U))"
  using reward_loop_ok [of "sorted_list_of_set current_records" cache R P 0] assms
  by (simp add: getSimulationReward_def Let_def)

definition example_inst :: instruction where
  "example_inst = \<lparr>inst_class = StoreInst, inst_function = ''f'', inst_loc = Some (1, 2), inst_parent = 0\<rparr>"

definition example_program :: program where
  "example_program = \<lparr>inst_at = (\<lambda>i. if i < 3 then example_inst else example_inst\<lparr>inst_class := OtherInst\<rparr>), bb_insts = (\<lambda>b. [b, 3]),
     bb_name = (\<lambda>_. ''bb''), bb_parent = (\<lambda>_. 0), successors = (\<lambda>_. []), findNearestCommonDominator = (\<lambda>_ _. None)\<rparr>"

lemma example_recorded [simp]:
  "is_recorded {''STORE-f_nesCheck-1-2''} (inst_at example_program i) \<longleftrightarrow> i < 3"
proof -
  have "to_string 1 = ''1''" "to_string 2 = ''2''" by (simp_all add: to_string.simps digit_def char_of_def bit_0)
  then show ?thesis
    by (simp add: is_recorded_def example_program_def example_inst_def unsafe_record_def location_string_def)
qed

section \<open>The score of a branch that was scored before\<close>

definition block_count :: "program \<Rightarrow> string set \<Rightarrow> nat \<Rightarrow> 32 word" where
  "block_count P R bb = of_nat (length (filter (\<lambda>ii. is_recorded R (inst_at P ii)) (bb_insts P bb)))"

lemma block_loop_ok:
  "block_loop P R is (c, k) = (let n = of_nat (length (filter (\<lambda>ii. is_recorded R (inst_at P ii)) is)) in (c + n, k + n))"
  by (induction "is" arbitrary: c k) (auto simp: Let_def)

lemma expansion_loop_new:
  assumes "distinct bbs" "\<forall>bb \<in> set bbs. m bb = None"
  shows "expansion_loop P R bbs (c, m) =
    (c + sum_list (map (block_count P R) bbs), \<lambda>bb. if bb \<in> set bbs then Some (block_count P R bb) else m bb)"
  using assms
proof (induction bbs arbitrary: c m)
  case (Cons bb bbs)
  have "expansion_loop P R (bb # bbs) (c, m) = expansion_loop P R bbs (c + block_count P R bb, m(bb \<mapsto> block_count P R bb))"
    using Cons.prems by (simp add: block_loop_ok block_count_def Let_def)
  also have "\<dots> = (c + block_count P R bb + sum_list (map (block_count P R) bbs),
      \<lambda>b. if b \<in> set bbs then Some (block_count P R b) else (m(bb \<mapsto> block_count P R bb)) b)"
    using Cons.prems by (intro Cons.IH) auto
  finally show ?case by (auto simp: fun_eq_iff add.assoc)
qed simp

text \<open>
  (C39) The first score of a branch is half the number of the recorded operations in all
  its blocks; scoring the same branch again counts the first block of each side only.
\<close>

theorem getExpansionScore_forgets:
  assumes "distinct (ls @ rs)" "ls \<noteq> []" "rs \<noteq> []" "\<forall>bb \<in> set (ls @ rs). m bb = None"
  shows "\<exists>m'. getExpansionScore P R [ls, rs] m =
      Some ((real (unat (\<Sum>bb\<leftarrow>ls. block_count P R bb)) / 2, real (unat (\<Sum>bb\<leftarrow>rs. block_count P R bb)) / 2), m')
    \<and> getExpansionScore P R [ls, rs] m' =
      Some ((real (unat (block_count P R (hd ls))) / 2, real (unat (block_count P R (hd rs))) / 2), m')"
proof -
  define m1 where "m1 = (\<lambda>bb. if bb \<in> set ls then Some (block_count P R bb) else m bb)"
  define m2 where "m2 = (\<lambda>bb. if bb \<in> set rs then Some (block_count P R bb) else m1 bb)"
  have 1: "expansion_loop P R ls (0, m) = (\<Sum>bb\<leftarrow>ls. block_count P R bb, m1)"
    unfolding m1_def using assms by (subst expansion_loop_new) auto
  have "\<forall>bb \<in> set rs. m1 bb = None" using assms by (auto simp: m1_def)
  then have 2: "expansion_loop P R rs (0, m1) = (\<Sum>bb\<leftarrow>rs. block_count P R bb, m2)"
    unfolding m2_def using assms by (subst expansion_loop_new) auto
  have "m2 (hd ls) = Some (block_count P R (hd ls))" "m2 (hd rs) = Some (block_count P R (hd rs))"
    using assms by (auto simp: m2_def m1_def)
  then have 3: "expansion_loop P R ls (0, m2) = (block_count P R (hd ls), m2)" "expansion_loop P R rs (0, m2) = (block_count P R (hd rs), m2)"
    using assms by (cases ls; cases rs; simp)+
  show ?thesis using 1 2 3 by (intro exI [of _ m2]) simp
qed

theorem getExpansionScore_forgets_witness:
  "\<exists>m'. getExpansionScore example_program {''STORE-f_nesCheck-1-2''} [[0, 1], [2]] (\<lambda>_. None) = Some ((1, 1 / 2), m')
    \<and> getExpansionScore example_program {''STORE-f_nesCheck-1-2''} [[0, 1], [2]] m' = Some ((1 / 2, 1 / 2), m')"
proof -
  have "block_count example_program {''STORE-f_nesCheck-1-2''} b = 1" if "b < 3" for b
  proof -
    have "bb_insts example_program b = [b, 3]" by (simp add: example_program_def)
    then show ?thesis using that by (simp add: block_count_def)
  qed
  then show ?thesis
    using getExpansionScore_forgets [of "[0, 1]" "[2]" "\<lambda>_. None" example_program "{''STORE-f_nesCheck-1-2''}"] by simp
qed

section \<open>The walk along a branch ends\<close>

lemma visit_successors_ok:
  assumes "visit_successors post bs (stack, br, seen) = (stack', br', seen')" "set bs \<subseteq> B" "set stack \<subseteq> B" "set br \<subseteq> B" "seen \<subseteq> B"
  shows "set stack' \<subseteq> B \<and> set br' \<subseteq> B \<and> seen' \<subseteq> B \<and> (seen' = {} \<or> seen \<subset> seen' \<or> seen' = seen \<and> length stack' \<le> length stack)"
  using assms
proof (induction bs arbitrary: stack br seen)
  case (Cons b bs)
  consider "b = post" | "b \<noteq> post" "b \<in> seen" | "b \<noteq> post" "b \<notin> seen" by blast
  then show ?case
  proof cases
    case 1
    have "set (tl stack) \<subseteq> set stack" by (cases stack) auto
    then show ?thesis using Cons.prems 1 by auto
  next
    case 2
    then show ?thesis using Cons.prems by (auto simp: Let_def split: if_splits)
  next
    case 3
    then have v: "visit_successors post bs (b # stack, if b \<in> set br then br else br @ [b], insert b seen) = (stack', br', seen')"
      using Cons.prems(1) by simp
    have "set stack' \<subseteq> B \<and> set br' \<subseteq> B \<and> seen' \<subseteq> B \<and>
        (seen' = {} \<or> insert b seen \<subset> seen' \<or> seen' = insert b seen \<and> length stack' \<le> length (b # stack))"
      using Cons.prems by (intro Cons.IH [OF v]) auto
    then show ?thesis using 3 by blast
  qed
qed simp

lemma walk_branch_ok:
  assumes "finite B" "\<forall>b \<in> B. set (successors P b) \<subseteq> B"
  shows "set stack \<subseteq> B \<Longrightarrow> set br \<subseteq> B \<Longrightarrow> seen \<subseteq> B \<Longrightarrow> \<exists>br'. walk_branch P post stack br seen = Some br' \<and> set br' \<subseteq> B"
proof (induction "(card (B - seen), length stack)" arbitrary: stack br seen rule: wf_induct [OF wf_lex_prod [OF wf_less wf_less]])
  case 1
  show ?case
  proof (cases stack)
    case Nil
    then show ?thesis using 1(3) by (subst walk_branch.simps) simp
  next
    case (Cons tbb st)
    obtain st' br' seen' where v: "visit_successors post (successors P tbb) (st, br, seen) = (st', br', seen')" by (metis prod_cases3)
    note ok = visit_successors_ok [OF v, of B]
    have w: "walk_branch P post stack br seen = (if tbb = post then Some [] else if seen' = {} then Some br' else walk_branch P post st' br' seen')"
      by (subst walk_branch.simps) (simp add: Cons v)
    have B: "set st' \<subseteq> B" "set br' \<subseteq> B" "seen' \<subseteq> B" "seen' = {} \<or> seen \<subset> seen' \<or> seen' = seen \<and> length st' \<le> length st"
      using ok 1(2-4) assms(2) by (auto simp: Cons)
    have "seen' \<noteq> {} \<Longrightarrow> card (B - seen') < card (B - seen) \<or> card (B - seen') = card (B - seen) \<and> length st' < length stack"
    proof -
      assume "seen' \<noteq> {}"
      with B(4) consider "seen \<subset> seen'" | "seen' = seen" "length st' \<le> length st" by blast
      then show ?thesis
      proof cases
        case 1
        then have "B - seen' \<subset> B - seen" using B(3) by blast
        then have "card (B - seen') < card (B - seen)" using assms(1) by (intro psubset_card_mono) auto
        then show ?thesis by simp
      qed (simp add: Cons)
    qed
    then have "seen' \<noteq> {} \<Longrightarrow> \<exists>b. walk_branch P post st' br' seen' = Some b \<and> set b \<subseteq> B"
      using 1(1) B(1-3) by auto
    then show ?thesis unfolding w using B(2) by auto
  qed
qed

lemma branch_blocks_ok:
  assumes "finite B" "\<forall>b \<in> B. set (successors P b) \<subseteq> B" "l \<in> B" "r \<in> B"
  shows "\<exists>ls rs. branch_blocks P post l r = Some [ls, rs] \<and> set ls \<union> set rs \<subseteq> B"
  using walk_branch_ok [OF assms(1,2), of "[l]" "[l]" "{}" post] walk_branch_ok [OF assms(1,2), of "[r]" "[r]" "{}" post] assms(3,4)
  by (auto simp: branch_blocks_def)

lemma search_levels_ok:
  assumes "finite B" "\<forall>b \<in> B. set (successors P b) \<subseteq> B" "search_levels P i L R = (post, L', R')" "L \<subseteq> B" "R \<subseteq> B"
  shows "L' \<subseteq> B \<and> R' \<subseteq> B"
  using assms(3-5)
proof (induction i arbitrary: L R)
  case (Suc i)
  have n: "set (next_level P S) \<subseteq> B" if "S \<subseteq> B" for S
    using that assms(2) finite_subset [OF that assms(1)] by (auto simp: next_level_def split: if_splits)
  from Suc show ?case using n by (auto simp: Let_def split: option.splits)
qed simp

text \<open>The blocks of both sides are found and reached from where the two states are.\<close>

lemma getBranchBlocks_ok:
  assumes "finite B" "\<forall>b \<in> B. set (successors P b) \<subseteq> B" "inst_parent (inst_at P l) \<in> B" "inst_parent (inst_at P r) \<in> B"
  shows "\<exists>ls rs. getBranchBlocks P l r = Some [ls, rs] \<and> set ls \<union> set rs \<subseteq> B"
proof -
  let ?l = "inst_parent (inst_at P l)" and ?r = "inst_parent (inst_at P r)"
  obtain post L R where s: "search_levels P 2 {?l} {?r} = (post, L, R)" by (metis prod_cases3)
  have "L \<subseteq> B \<and> R \<subseteq> B" using search_levels_ok [OF assms(1,2) s] assms(3,4) by simp
  moreover from this have "finite L" "finite R" using assms(1) finite_subset by blast+
  ultimately show ?thesis
    using branch_blocks_ok [OF assms(1,2) assms(3,4)] s assms(3,4)
    by (auto simp: getBranchBlocks_def Let_def split: option.splits)
qed

end
