(* ===== verification/Simulation.thy ===== *)
theory Simulation
  imports Process_Tree Unsafe_Ops
begin

text \<open>
  The bookkeeping of execution states around simulation runs (\<open>lib/Core/Executor.cpp\<close>,
  \<open>lib/Core/ExecutionState.h\<close>, \<open>MCTSSearcher::doSimulation\<close>). A state chosen for simulation is
  suspended and a copy of it runs to its end in simulation mode; its reward goes up the
  process tree and the state is resumed.

  Execution states are addresses; \<open>estate\<close> holds the fields of the live ones that the
  bookkeeping uses. \<open>None\<close> is a failed assertion or the use of a null or freed state.
  The counters of \<open>interpreterHandler\<close> and \<open>stats\<close>, the seeds and the test cases that are
  written are not modelled.
\<close>

section \<open>States\<close>

definition NORMAL_STATE :: "32 word" where "NORMAL_STATE = 1"
definition SIMULATION_STATE :: "32 word" where "SIMULATION_STATE = 2"

record executionState =
  es_type :: "32 word"
  suspendStatus :: bool
  simulationState :: "nat option"
  errorCount :: "32 word"
  dependentState :: "nat option"
  es_pc :: nat
  es_prevPC :: nat

definition isNormalState :: "executionState \<Rightarrow> bool" where
  "isNormalState es \<longleftrightarrow> es_type es AND NORMAL_STATE \<noteq> 0"

definition isSimulationState :: "executionState \<Rightarrow> bool" where
  "isSimulationState es \<longleftrightarrow> es_type es AND SIMULATION_STATE \<noteq> 0"

record executor =
  estate :: "nat \<Rightarrow> executionState option"
  estate_brk :: nat
  processTree :: pTree
  states :: "nat set"
  addedStates :: "nat list"
  removedStates :: "nat list"
  suspendedStates :: "nat list"
  resumedStates :: "nat list"
  is_simulation_mode :: bool
  inhibitForking :: bool
  haltExecution :: bool
  simulationReward :: real
  memoryOperationInstructionSet :: "nat set"
  globalUnsafeInstructionSet :: "nat set"
  inst_count_per_simulation :: int
  simulatedHistory :: "string \<Rightarrow> (real \<times> real \<times> real) option"

definition set_estate :: "nat \<Rightarrow> executionState \<Rightarrow> executor \<Rightarrow> executor" where
  "set_estate s es E = E\<lparr>estate := (estate E)(s \<mapsto> es)\<rparr>"

definition setSuspended :: "nat \<Rightarrow> executor \<Rightarrow> executor option" where
  "setSuspended s E = do {
     es \<leftarrow> estate E s;
     assert_that (isNormalState es);
     Some (set_estate s (es\<lparr>suspendStatus := True\<rparr>) E)
   }"

definition setResumed :: "nat \<Rightarrow> executor \<Rightarrow> executor option" where
  "setResumed s E = do {
     es \<leftarrow> estate E s;
     assert_that (isNormalState es);
     Some (set_estate s (es\<lparr>suspendStatus := False\<rparr>) E)
   }"

definition setSimulationState :: "nat \<Rightarrow> nat option \<Rightarrow> executor \<Rightarrow> executor option" where
  "setSimulationState s st E = do {
     es \<leftarrow> estate E s;
     assert_that (isNormalState es);
     (case st of None \<Rightarrow> Some () | Some a \<Rightarrow> do { as \<leftarrow> estate E a; assert_that (isSimulationState as) });
     Some (set_estate s (es\<lparr>simulationState := st\<rparr>) E)
   }"

definition setDependentState :: "nat \<Rightarrow> nat \<Rightarrow> executor \<Rightarrow> executor option" where
  "setDependentState a s E = do {
     as \<leftarrow> estate E a;
     assert_that (isSimulationState as);
     es \<leftarrow> estate E s;
     assert_that (isNormalState es);
     Some (set_estate a (as\<lparr>dependentState := Some s\<rparr>) E)
   }"

definition getDependentState :: "nat \<Rightarrow> executor \<Rightarrow> nat option" where
  "getDependentState a E = do {
     as \<leftarrow> estate E a;
     assert_that (isSimulationState as);
     dependentState as
   }"

section \<open>Suspending, simulating and resuming\<close>

definition suspendState :: "nat \<Rightarrow> executor \<Rightarrow> executor option" where
  "suspendState s E = do {
     E \<leftarrow> setSuspended s E;
     Some (E\<lparr>suspendedStates := suspendedStates E @ [s]\<rparr>)
   }"

text \<open>The snapshot is the state itself; the copy is a new address.\<close>

definition startSimulationState :: "nat \<Rightarrow> nat \<Rightarrow> executor \<Rightarrow> executor option" where
  "startSimulationState s snapshotState E = do {
     snapshot \<leftarrow> estate E snapshotState;
     let a = estate_brk E;
     let E = set_estate a (snapshot\<lparr>es_type := SIMULATION_STATE\<rparr>) (E\<lparr>estate_brk := a + 1\<rparr>);
     E \<leftarrow> setDependentState a s E;
     as \<leftarrow> estate E a;
     let E = set_estate a (as\<lparr>es_pc := es_prevPC as\<rparr>) E;
     E \<leftarrow> setSimulationState s (Some a) E;
     let T = processTree E;
     Some (E\<lparr>processTree := T\<lparr>ptreeNode := (ptreeNode T)(a := ptreeNode T s)\<rparr>,
       addedStates := addedStates E @ [a], inhibitForking := True\<rparr>)
   }"

definition resumeState :: "nat \<Rightarrow> executor \<Rightarrow> executor option" where
  "resumeState s E = do {
     E \<leftarrow> setResumed s E;
     E \<leftarrow> setSimulationState s None E;
     Some (E\<lparr>addedStates := addedStates E @ [s]\<rparr>)
   }"

definition notifyDependentState :: "nat \<Rightarrow> executor \<Rightarrow> executor option" where
  "notifyDependentState a E = do {
     d \<leftarrow> getDependentState a E;
     nd \<leftarrow> nodes (processTree E) (ptreeNode (processTree E) a);
     let E = E\<lparr>processTree := set_node (ptreeNode (processTree E) a) (nd\<lparr>node_state := Some d\<rparr>) (processTree E)\<rparr>;
     resumeState d E
   }"

definition doSimulation :: "nat \<Rightarrow> executor \<Rightarrow> (real \<times> executor) option" where
  "doSimulation n E = do {
     nd \<leftarrow> nodes (processTree E) n;
     s \<leftarrow> node_state nd;
     let E = E\<lparr>is_simulation_mode := True\<rparr>;
     E \<leftarrow> suspendState s E;
     E \<leftarrow> startSimulationState s s E;
     nd \<leftarrow> nodes (processTree E) n;
     let E = E\<lparr>processTree := set_node n (nd\<lparr>isSimulated := True\<rparr>) (processTree E)\<rparr>;
     Some (simulationReward E, E)
   }"

section \<open>Termination of a state\<close>

text \<open>What \<open>terminateState\<close> does outside of simulation mode.\<close>

definition terminateState_base :: "bool \<Rightarrow> nat \<Rightarrow> executor \<Rightarrow> executor option" where
  "terminateState_base compress s E = do {
     es \<leftarrow> estate E s;
     E \<leftarrow> (if s \<notin> set (addedStates E)
          then Some (set_estate s (es\<lparr>es_pc := es_prevPC es\<rparr>) (E\<lparr>removedStates := removedStates E @ [s]\<rparr>))
          else do {
            T \<leftarrow> PTree__remove compress (ptreeNode (processTree E) s) (processTree E);
            Some (E\<lparr>addedStates := remove1 s (addedStates E), processTree := T, estate := (estate E)(s := None)\<rparr>)
          });
     (if is_simulation_mode E then Some E
      else do {
        es \<leftarrow> estate E s;
        (if isNormalState es then do {
           nd \<leftarrow> nodes (processTree E) (ptreeNode (processTree E) s);
           Some (E\<lparr>processTree := set_node (ptreeNode (processTree E) s) (nd\<lparr>isTerminal := True\<rparr>) (processTree E)\<rparr>)
         } else Some E)
      })
   }"

text \<open>
  The loop of \<open>onSimulationStateExit\<close> goes over the states as they were at its start. The
  source erases from the set while it iterates over it, which C++ leaves undefined; the model
  is the loop that visits every state once. The set is ordered by the number of a state; as
  one simulation runs at a time, the order makes no difference and is that of the addresses
  here. Simulation mode is off by then, so that \<open>terminateStateEarly\<close> comes down to
  \<open>terminateState_base\<close>.
\<close>

fun exit_loop :: "bool \<Rightarrow> nat list \<Rightarrow> executor \<Rightarrow> executor option" where
  "exit_loop compress [] E = Some E"
| "exit_loop compress (s # ss) E = do {
     es \<leftarrow> estate E s;
     (if isSimulationState es \<or> \<not> isNormalState es
      then do {
        E \<leftarrow> terminateState_base compress s E;
        exit_loop compress ss (E\<lparr>states := states E - {s}\<rparr>)
      } else exit_loop compress ss E)
   }"

definition onSimulationStateExit :: "bool \<Rightarrow> nat \<Rightarrow> executor \<Rightarrow> executor option" where
  "onSimulationStateExit compress a E = do {
     E \<leftarrow> notifyDependentState a E;
     E \<leftarrow> terminateState_base compress a E;
     E \<leftarrow> exit_loop compress (sorted_list_of_set (states E)) E;
     Some (E\<lparr>inhibitForking := False\<rparr>)
   }"

definition terminateState :: "program \<Rightarrow> string set \<Rightarrow> bool \<Rightarrow> nat \<Rightarrow> executor \<Rightarrow> executor option" where
  "terminateState P globalRecordingSet compress s E = do {
     E \<leftarrow> terminateState_base compress s E;
     (if \<not> is_simulation_mode E then Some E
      else do {
        let E = E\<lparr>is_simulation_mode := False\<rparr>;
        es \<leftarrow> estate E s;
        let (r, U) = getSimulationReward P globalRecordingSet (memoryOperationInstructionSet E) (errorCount es) (globalUnsafeInstructionSet E);
        E \<leftarrow> onSimulationStateExit compress s (E\<lparr>simulationReward := r, globalUnsafeInstructionSet := U\<rparr>);
        d \<leftarrow> getDependentState s E;
        T \<leftarrow> doBackpropagation r (Some (ptreeNode (processTree E) d)) (processTree E);
        Some (E\<lparr>processTree := T, memoryOperationInstructionSet := {}, inst_count_per_simulation := 0\<rparr>)
      })
   }"

text \<open>The count of errors at the head of \<open>terminateStateOnError\<close>; \<open>counted\<close> says that the reason is \<open>Abort\<close> or \<open>Ptr\<close>.\<close>

definition count_error :: "bool \<Rightarrow> nat \<Rightarrow> executor \<Rightarrow> executor option" where
  "count_error counted s E = do {
     es \<leftarrow> estate E s;
     Some (if isSimulationState es \<and> \<not> isNormalState es \<and> counted
           then set_estate s (es\<lparr>errorCount := errorCount es + 1\<rparr>) E else E)
   }"

section \<open>Telling the searcher\<close>

text \<open>
  The searcher is a state \<open>\<sigma>\<close> with its update function, which may change the process tree.
\<close>

fun update_each :: "(nat \<Rightarrow> 's \<times> pTree \<Rightarrow> ('s \<times> pTree) option) \<Rightarrow> nat list \<Rightarrow> 's \<times> pTree \<Rightarrow> ('s \<times> pTree) option" where
  "update_each f [] x = Some x"
| "update_each f (s # ss) x = f s x \<bind> update_each f ss"

fun update_removed :: "bool \<Rightarrow> nat list \<Rightarrow> executor \<Rightarrow> executor option" where
  "update_removed compress [] E = Some E"
| "update_removed compress (s # ss) E = do {
     es \<leftarrow> estate E s;
     (if isSimulationState es then update_removed compress ss E
      else do {
        assert_that (s \<in> states E);
        let E = E\<lparr>states := states E - {s}\<rparr>;
        nd \<leftarrow> nodes (processTree E) (ptreeNode (processTree E) s);
        E \<leftarrow> (if haltExecution E \<and> has_kid nd then Some E
             else do {
               T \<leftarrow> PTree__remove compress (ptreeNode (processTree E) s) (processTree E);
               Some (E\<lparr>processTree := T, estate := (estate E)(s := None)\<rparr>)
             });
        update_removed compress ss E
      })
   }"

fun filter_suspended :: "executor \<Rightarrow> nat list \<Rightarrow> nat list option" where
  "filter_suspended E [] = Some []"
| "filter_suspended E (s # ss) = do {
     es \<leftarrow> estate E s;
     filteredStates \<leftarrow> filter_suspended E ss;
     Some (if isNormalState es \<and> suspendStatus es then filteredStates else s # filteredStates)
   }"

definition updateStates ::
  "(nat option \<Rightarrow> nat list \<Rightarrow> nat list \<Rightarrow> 's \<times> pTree \<Rightarrow> ('s \<times> pTree) option)
   \<Rightarrow> bool \<Rightarrow> nat option \<Rightarrow> 's \<times> executor \<Rightarrow> ('s \<times> executor) option" where
  "updateStates upd compress current x = (case x of (\<sigma>, E) \<Rightarrow> do {
     filteredStates \<leftarrow> filter_suspended E (removedStates E);
     x \<leftarrow> upd current (addedStates E) filteredStates (\<sigma>, processTree E);
     x \<leftarrow> update_each (\<lambda>s. upd None [] [s]) (suspendedStates E) x;
     (\<sigma>, T) \<leftarrow> update_each (\<lambda>s. upd None [s] []) (resumedStates E) x;
     E \<leftarrow> update_removed compress (removedStates E)
           (E\<lparr>processTree := T, suspendedStates := [], resumedStates := [],
              states := states E \<union> set (addedStates E), addedStates := []\<rparr>);
     Some (\<sigma>, E\<lparr>removedStates := []\<rparr>)
   })"

section \<open>A simulation run\<close>

text \<open>States that the executor holds between two turns: allocated, and normal ones.\<close>

definition wf_executor :: "executor \<Rightarrow> bool" where
  "wf_executor E \<longleftrightarrow> finite (states E) \<and> (\<forall>s \<ge> estate_brk E. estate E s = None)
     \<and> (\<forall>s \<in> states E. \<exists>es. estate E s = Some es \<and> es_type es = NORMAL_STATE)
     \<and> addedStates E = [] \<and> removedStates E = [] \<and> suspendedStates E = [] \<and> resumedStates E = []
     \<and> \<not> is_simulation_mode E \<and> memoryOperationInstructionSet E = {}"

lemma state_types [simp]:
  "es_type es = NORMAL_STATE \<Longrightarrow> isNormalState es" "es_type es = NORMAL_STATE \<Longrightarrow> \<not> isSimulationState es"
  "es_type es = SIMULATION_STATE \<Longrightarrow> \<not> isNormalState es" "es_type es = SIMULATION_STATE \<Longrightarrow> isSimulationState es"
  by (simp_all add: isNormalState_def isSimulationState_def NORMAL_STATE_def SIMULATION_STATE_def)

lemma state_type_fields [simp]:
  "isNormalState (es\<lparr>suspendStatus := b\<rparr>) = isNormalState es" "isNormalState (es\<lparr>simulationState := x\<rparr>) = isNormalState es"
  "isNormalState (es\<lparr>errorCount := k\<rparr>) = isNormalState es" "isNormalState (es\<lparr>es_pc := q\<rparr>) = isNormalState es"
  "isNormalState (es\<lparr>dependentState := x\<rparr>) = isNormalState es"
  "isSimulationState (es\<lparr>suspendStatus := b\<rparr>) = isSimulationState es" "isSimulationState (es\<lparr>simulationState := x\<rparr>) = isSimulationState es"
  "isSimulationState (es\<lparr>errorCount := k\<rparr>) = isSimulationState es" "isSimulationState (es\<lparr>es_pc := q\<rparr>) = isSimulationState es"
  "isSimulationState (es\<lparr>dependentState := x\<rparr>) = isSimulationState es"
  by (simp_all add: isNormalState_def isSimulationState_def)

text \<open>A searcher that notes what it is told.\<close>

definition log_update ::
  "nat option \<Rightarrow> nat list \<Rightarrow> nat list \<Rightarrow> (nat option \<times> nat list \<times> nat list) list \<times> pTree
   \<Rightarrow> ((nat option \<times> nat list \<times> nat list) list \<times> pTree) option" where
  "log_update current added gone x = Some (fst x @ [(current, added, gone)], snd x)"

text \<open>
  A simulation of the state \<open>s\<close> that executes the instructions \<open>is\<close> and ends with an error
  or not: the searcher starts it, the executor tells the searcher, runs the copy to its end
  and tells the searcher again. The one instruction of \<open>s\<close> itself that the main loop executes
  in the turn of the selection is not part of it.
\<close>

definition simulate ::
  "program \<Rightarrow> string set \<Rightarrow> bool \<Rightarrow> nat \<Rightarrow> nat list \<Rightarrow> bool \<Rightarrow> executor \<Rightarrow> ((nat option \<times> nat list \<times> nat list) list \<times> executor) option" where
  "simulate P R compress s is fails E = do {
     let a = estate_brk E;
     (_, E) \<leftarrow> doSimulation (ptreeNode (processTree E) s) E;
     (l, E) \<leftarrow> updateStates log_update compress (Some s) ([], E);
     E \<leftarrow> count_error fails a (E\<lparr>memoryOperationInstructionSet := fold (collectInstructionsInSimulation P) is (memoryOperationInstructionSet E)\<rparr>);
     E \<leftarrow> terminateState P R compress a E;
     updateStates log_update compress (Some a) (l, E)
   }"

lemma doSimulation_ok:
  assumes "nodes (processTree E) (ptreeNode (processTree E) s) = Some nd" "node_state nd = Some s"
    "estate E s = Some es" "es_type es = NORMAL_STATE" "estate E (estate_brk E) = None"
  shows "doSimulation (ptreeNode (processTree E) s) E = Some (simulationReward E, E\<lparr>
    estate := (estate E)(estate_brk E \<mapsto> es\<lparr>suspendStatus := True, es_type := SIMULATION_STATE, dependentState := Some s, es_pc := es_prevPC es\<rparr>,
      s \<mapsto> es\<lparr>suspendStatus := True, simulationState := Some (estate_brk E)\<rparr>),
    estate_brk := estate_brk E + 1,
    processTree := (processTree E)\<lparr>nodes := (nodes (processTree E))(ptreeNode (processTree E) s \<mapsto> nd\<lparr>isSimulated := True\<rparr>),
      ptreeNode := (ptreeNode (processTree E))(estate_brk E := ptreeNode (processTree E) s)\<rparr>,
    is_simulation_mode := True, inhibitForking := True,
    addedStates := addedStates E @ [estate_brk E], suspendedStates := suspendedStates E @ [s]\<rparr>)"
proof -
  have "s \<noteq> estate_brk E" using assms by auto
  then show ?thesis using assms
    by (simp add: doSimulation_def suspendState_def setSuspended_def startSimulationState_def setDependentState_def
        setSimulationState_def set_estate_def set_node_def Let_def)
qed

lemma exit_loop_ok:
  assumes "\<not> is_simulation_mode E" "a \<notin> set (addedStates E)" "estate E a = Some as" "es_type as = SIMULATION_STATE" "es_pc as = es_prevPC as"
    "\<forall>s \<in> set ss - {a}. \<exists>es. estate E s = Some es \<and> es_type es = NORMAL_STATE" "distinct ss"
  shows "exit_loop compress ss E = Some (if a \<in> set ss then E\<lparr>removedStates := removedStates E @ [a], states := states E - {a}\<rparr> else E)"
  using assms
proof (induction ss arbitrary: E)
  case (Cons s ss)
  show ?case
  proof (cases "s = a")
    case False
    then obtain es where "estate E s = Some es" "es_type es = NORMAL_STATE" using Cons.prems(6) by auto
    then have "exit_loop compress (s # ss) E = exit_loop compress ss E" by simp
    also have "\<dots> = Some (if a \<in> set ss then E\<lparr>removedStates := removedStates E @ [a], states := states E - {a}\<rparr> else E)"
      using Cons.prems by (intro Cons.IH) auto
    finally show ?thesis using False by simp
  next
    case True
    let ?E = "E\<lparr>removedStates := removedStates E @ [a], states := states E - {a}\<rparr>"
    have "as\<lparr>es_pc := es_prevPC as\<rparr> = as" using Cons.prems(5) by simp
    then have "set_estate a (as\<lparr>es_pc := es_prevPC as\<rparr>) E' = E'" if "estate E' a = Some as" for E'
      using that by (simp add: set_estate_def fun_upd_idem)
    then have "exit_loop compress (s # ss) E = exit_loop compress ss ?E"
      using Cons.prems True by (simp add: terminateState_base_def)
    also have "\<dots> = Some ?E" using Cons.prems True by (subst Cons.IH) auto
    finally show ?thesis using True by simp
  qed
qed simp

lemma set_estate_idem: "estate E a = Some as \<Longrightarrow> es_pc as = es_prevPC as \<Longrightarrow> set_estate a (as\<lparr>es_pc := es_prevPC as\<rparr>) E = E"
  by (simp add: set_estate_def fun_upd_idem)

lemma terminate_simulation:
  assumes a: "estate E a = Some as" "es_type as = SIMULATION_STATE" "dependentState as = Some s" "es_pc as = es_prevPC as"
    and s: "estate E s = Some es" "es_type es = NORMAL_STATE" "s \<noteq> a"
    and E: "is_simulation_mode E" "addedStates E = []" "removedStates E = []" "finite (states E)" "a \<in> states E"
      "\<forall>x \<in> states E - {a}. \<exists>es. estate E x = Some es \<and> es_type es = NORMAL_STATE"
    and T: "ptreeNode (processTree E) a = ptreeNode (processTree E) s" "nodes (processTree E) (ptreeNode (processTree E) s) = Some nd" "node_state nd = Some s"
    and r: "getSimulationReward P R (memoryOperationInstructionSet E) (errorCount as) (globalUnsafeInstructionSet E) = (r, U)"
      "doBackpropagation r (Some (ptreeNode (processTree E) s)) (processTree E) = Some T'"
  shows "terminateState P R compress a E = Some (E\<lparr>estate := (estate E)(s \<mapsto> es\<lparr>suspendStatus := False, simulationState := None\<rparr>),
    processTree := T', states := states E - {a}, addedStates := [s], removedStates := [a, a, a], is_simulation_mode := False,
    inhibitForking := False, simulationReward := r, memoryOperationInstructionSet := {}, globalUnsafeInstructionSet := U, inst_count_per_simulation := 0\<rparr>)"
proof -
  define E1 where "E1 = E\<lparr>removedStates := [a], is_simulation_mode := False, simulationReward := r, globalUnsafeInstructionSet := U\<rparr>"
  define E2 where "E2 = E1\<lparr>estate := (estate E)(s \<mapsto> es\<lparr>suspendStatus := False, simulationState := None\<rparr>), addedStates := [s]\<rparr>"
  have nd: "nd\<lparr>node_state := Some s\<rparr> = nd" using T(3) by simp
  have idem: "set_node (ptreeNode (processTree E) s) (nd\<lparr>node_state := Some s\<rparr>) (processTree E) = processTree E"
    using T(2) by (simp add: nd set_node_def fun_upd_idem)
  have notify: "notifyDependentState a E1 = Some E2"
    using a s T idem E(2) by (simp add: notifyDependentState_def getDependentState_def resumeState_def setResumed_def setSimulationState_def
        set_estate_def E1_def E2_def)
  have E2: "estate E2 a = Some as" "\<not> is_simulation_mode E2" "a \<notin> set (addedStates E2)" "removedStates E2 = [a]" "states E2 = states E"
    "processTree E2 = processTree E" using a s by (simp_all add: E1_def E2_def)
  have base: "terminateState_base compress a E2 = Some (E2\<lparr>removedStates := [a, a]\<rparr>)"
    using E2 a by (simp add: terminateState_base_def set_estate_idem)
  have "exit_loop compress (sorted_list_of_set (states E)) (E2\<lparr>removedStates := [a, a]\<rparr>)
      = Some (E2\<lparr>removedStates := [a, a, a], states := states E - {a}\<rparr>)"
  proof (subst exit_loop_ok [of _ a as])
    show "\<forall>x \<in> set (sorted_list_of_set (states E)) - {a}. \<exists>es. estate (E2\<lparr>removedStates := [a, a]\<rparr>) x = Some es \<and> es_type es = NORMAL_STATE"
      using E(4,6) s by (auto simp: E2_def)
  qed (use E2 E(4,5) a in simp_all)
  then have exit: "onSimulationStateExit compress a E1 = Some (E2\<lparr>removedStates := [a, a, a], states := states E - {a}, inhibitForking := False\<rparr>)"
    using notify base E2 by (simp add: onSimulationStateExit_def)
  have "terminateState_base compress a E = Some (E\<lparr>removedStates := [a]\<rparr>)"
    using a E by (simp add: terminateState_base_def set_estate_idem)
  then have "terminateState P R compress a E = Some (E2\<lparr>removedStates := [a, a, a], states := states E - {a}, inhibitForking := False, processTree := T',
      memoryOperationInstructionSet := {}, inst_count_per_simulation := 0\<rparr>)"
    using exit E2 a E(1) r by (simp add: terminateState_def getDependentState_def E1_def)
  then show ?thesis by (simp add: E2_def E1_def)
qed

lemma collect_set:
  "fold (collectInstructionsInSimulation P) is M = M \<union> {ii \<in> set is. inst_class (inst_at P ii) \<noteq> OtherInst}"
proof -
  have "inst_class i \<in> {StoreInst, LoadInst, GetElementPtrInst, CastInst} \<longleftrightarrow> inst_class i \<noteq> OtherInst" for i :: instruction
    by (cases "inst_class i") auto
  then show ?thesis by (induction "is" arbitrary: M) (auto simp: collectInstructionsInSimulation_def)
qed

lemma recorded_class: "is_recorded R i \<Longrightarrow> inst_class i \<noteq> OtherInst"
  by (auto simp: is_recorded_def unsafe_record_def split: option.splits)

text \<open>The reward of a run with the instructions \<open>is\<close>.\<close>

definition run_reward :: "program \<Rightarrow> string set \<Rightarrow> nat list \<Rightarrow> bool \<Rightarrow> executionState \<Rightarrow> real" where
  "run_reward P R is fails es =
     real (unat (of_nat (card {ii \<in> set is. is_recorded R (inst_at P ii)}) + (errorCount es + (if fails then 1 else 0))))"

lemma same_links_state:
  "h n = Some nd \<Longrightarrow> same_links (h m) ((h(n \<mapsto> nd\<lparr>isSimulated := b\<rparr>)) m)"
  by (cases "m = n"; cases "h m") (simp_all add: same_links_def)

lemma same_links_rewarded: "same_links x (if b then map_option (rewarded r) x else x)"
  by (cases x) (simp_all add: same_links_def rewarded_def)

lemma wf_ptree_new_state:
  assumes "wf_ptree T t" "a \<notin> live T t"
  shows "wf_ptree (T\<lparr>ptreeNode := (ptreeNode T)(a := n)\<rparr>) t" "live (T\<lparr>ptreeNode := (ptreeNode T)(a := n)\<rparr>) t = live T t"
  using assms by (fastforce simp: wf_ptree_def node_ok_def live_def split: option.splits)+


text \<open>The executor at the start of a run, with one state.\<close>

definition initial_executor :: "nat \<Rightarrow> executor" where
  "initial_executor s = \<lparr>
     estate = [s \<mapsto> \<lparr>es_type = NORMAL_STATE, suspendStatus = False, simulationState = None, errorCount = 0, dependentState = None, es_pc = 0, es_prevPC = 0\<rparr>],
     estate_brk = s + 1, processTree = PTree__PTree s, states = {s}, addedStates = [], removedStates = [], suspendedStates = [], resumedStates = [],
     is_simulation_mode = False, inhibitForking = False, haltExecution = False, simulationReward = 0, memoryOperationInstructionSet = {},
     globalUnsafeInstructionSet = {}, inst_count_per_simulation = 0, simulatedHistory = \<lambda>_. None\<rparr>"

lemma initial_wf: "wf_executor (initial_executor s)"
  by (auto simp: wf_executor_def initial_executor_def)


section \<open>A state that ends while it is simulated\<close>

text \<open>
  (C40) Once a simulation of a state has been started, ending the state itself, which the
  main loop executes next, fails: in simulation mode \<open>terminateState\<close> asks the state that
  ends for the state that depends on it, which only simulation states have.
\<close>

theorem terminate_suspended_fails:
  assumes "doSimulation n E = Some (r, E')" "nodes (processTree E) n = Some nd" "node_state nd = Some s"
    "estate E s = Some es" "es_type es = NORMAL_STATE" "estate E (estate_brk E) = None"
  shows "terminateState P R compress s E' = None"
proof -
  have "s \<noteq> estate_brk E" using assms(4,6) by auto
  then have E': "is_simulation_mode E'" "\<exists>es'. estate E' s = Some es' \<and> \<not> isSimulationState es'"
    using assms by (auto simp: doSimulation_def suspendState_def setSuspended_def startSimulationState_def setDependentState_def
        setSimulationState_def set_estate_def Let_def bind_eq_Some_conv)
  have "notifyDependentState s E1 = None" if "estate E1 s = None \<or> (\<exists>es'. estate E1 s = Some es' \<and> \<not> isSimulationState es')" for E1
    using that by (auto simp: notifyDependentState_def getDependentState_def)
  then have exit: "onSimulationStateExit compress s E1 = None" if "estate E1 s = None \<or> (\<exists>es'. estate E1 s = Some es' \<and> \<not> isSimulationState es')" for E1
    using that by (simp add: onSimulationStateExit_def)
  show ?thesis
  proof (cases "terminateState_base compress s E'")
    case (Some E1)
    have "is_simulation_mode E1" "estate E1 s = None \<or> (\<exists>es'. estate E1 s = Some es' \<and> \<not> isSimulationState es')"
      using Some E' by (auto simp: terminateState_base_def set_estate_def bind_eq_Some_conv split: if_splits)
    with exit show ?thesis by (cases "estate E1 s") (auto simp: terminateState_def Some split: prod.split)
  qed (simp add: terminateState_def)
qed

theorem terminate_suspended_fails_witness:
  "\<exists>E'. doSimulation 0 (initial_executor 1) = Some (0, E') \<and> terminateState example_program {} False 1 E' = None"
proof -
  let ?E = "initial_executor 1"
  obtain es where es: "estate ?E 1 = Some es" "es_type es = NORMAL_STATE" "estate ?E (estate_brk ?E) = None"
    by (simp add: initial_executor_def)
  have n: "ptreeNode (processTree ?E) 1 = 0" "nodes (processTree ?E) 0 = Some (new_node None 1)" "node_state (new_node None 1) = Some 1"
    "simulationReward ?E = 0"
    by (simp_all add: initial_executor_def PTree__PTree_def PTreeNode__PTreeNode_def new_node_def)
  obtain E' where "doSimulation 0 ?E = Some (0, E')" using doSimulation_ok [of ?E 1 "new_node None 1" es] es n by auto
  with terminate_suspended_fails [OF this n(2,3) es] show ?thesis by blast
qed

end
