(* ===== verification/Mcts.thy ===== *)
theory Mcts
  imports Simulation "HOL-Library.Product_Lexorder"
begin

text \<open>
  Monte Carlo tree search (\<open>MCTSSearcher\<close> of \<open>lib/Core/Searcher.cpp\<close>) over the process tree.
  From the root the searcher goes down the nodes it has taken into its tree, by their
  rewards and visits, until it meets a child that is not in it; that child is expanded, and
  its state simulated and selected.

  Random words are the function \<open>rng\<close>, read at the position \<open>draws\<close>. Rewards are exact
  numbers and scores have the special values of floating point numbers: the score of a
  node that was never visited is infinite or undefined. \<open>None\<close> is a failed assertion, the
  use of a null or freed pointer, an \<open>exit(1)\<close>, or a selection that never ends. The sets of
  nodes that only serve debug messages are not modelled.
\<close>

section \<open>Scores\<close>

datatype double = Fin real | PInf | NInf | NaN

fun dbl_less :: "double \<Rightarrow> double \<Rightarrow> bool" where
  "dbl_less (Fin x) (Fin y) \<longleftrightarrow> x < y"
| "dbl_less (Fin x) PInf \<longleftrightarrow> True"
| "dbl_less NInf (Fin y) \<longleftrightarrow> True"
| "dbl_less NInf PInf \<longleftrightarrow> True"
| "dbl_less _ _ \<longleftrightarrow> False"

fun dbl_add :: "double \<Rightarrow> double \<Rightarrow> double" where
  "dbl_add (Fin x) (Fin y) = Fin (x + y)"
| "dbl_add NaN _ = NaN"
| "dbl_add _ NaN = NaN"
| "dbl_add PInf NInf = NaN"
| "dbl_add NInf PInf = NaN"
| "dbl_add PInf _ = PInf"
| "dbl_add _ PInf = PInf"
| "dbl_add NInf _ = NInf"
| "dbl_add _ NInf = NInf"

text \<open>The product with a positive number, the quotient by an unsigned one.\<close>

fun dbl_times :: "real \<Rightarrow> double \<Rightarrow> double" where
  "dbl_times c (Fin x) = Fin (c * x)"
| "dbl_times c d = d"

fun dbl_div :: "double \<Rightarrow> nat \<Rightarrow> double" where
  "dbl_div (Fin x) n = (if n \<noteq> 0 then Fin (x / real n) else if x > 0 then PInf else if x < 0 then NInf else NaN)"
| "dbl_div d n = d"

fun dbl_sqrt :: "double \<Rightarrow> double" where
  "dbl_sqrt (Fin x) = (if x < 0 then NaN else Fin (sqrt x))"
| "dbl_sqrt PInf = PInf"
| "dbl_sqrt NInf = NaN"
| "dbl_sqrt NaN = NaN"

definition dbl_log :: "nat \<Rightarrow> double" where
  "dbl_log n = (if n = 0 then NInf else Fin (ln (real n)))"

text \<open>\<open>int bias_parameter = sqrt(2)\<close>.\<close>

definition bias_parameter :: int where
  "bias_parameter = \<lfloor>sqrt 2\<rfloor>"

definition computeUCT :: "pTreeNode \<Rightarrow> pTreeNode \<Rightarrow> double" where
  "computeUCT parent child = (
     let quality = reward child;
         nu_child_visited = unat (visit child);
         nu_parent_visited = unat (visit parent);
         exploitation_score = dbl_div (Fin quality) nu_child_visited;
         exploration_score = dbl_times (real_of_int bias_parameter) (dbl_sqrt (dbl_div (dbl_times 2 (dbl_log nu_parent_visited)) nu_child_visited))
     in dbl_add exploration_score exploitation_score)"

section \<open>The searcher\<close>

record config =
  prog :: program
  recordingSet :: "string set"
  rng :: "nat \<Rightarrow> 32 word"
  enable_simulation :: bool
  simulation_opt :: bool
  simulation_limit :: "32 word"
  compressProcessTree :: bool

record mctsSearcher =
  children :: "nat list"
  current_state :: "nat option"
  globalUnsafeBlockMap :: "nat \<Rightarrow> 32 word option"
  draws :: nat

text \<open>A child of a node: null, or the address and the node there.\<close>

type_synonym kid = "(nat \<times> pTreeNode) option"

definition load_kid :: "pTree \<Rightarrow> pTreeNodePtr \<Rightarrow> kid option" where
  "load_kid T p = (case getPointer p of None \<Rightarrow> Some None | Some n \<Rightarrow> map_option (\<lambda>nd. Some (n, nd)) (nodes T n))"

definition kid_in :: "kid \<Rightarrow> bool" where
  "kid_in k = (case k of None \<Rightarrow> False | Some (_, nd) \<Rightarrow> isInMCTSTree nd)"

definition kid_out :: "kid \<Rightarrow> bool" where
  "kid_out k = (case k of None \<Rightarrow> False | Some (_, nd) \<Rightarrow> \<not> isInMCTSTree nd)"

definition kid_terminal :: "kid \<Rightarrow> bool" where
  "kid_terminal k = (case k of None \<Rightarrow> False | Some (_, nd) \<Rightarrow> isTerminal nd)"

definition kid_state :: "kid \<Rightarrow> bool" where
  "kid_state k = (case k of None \<Rightarrow> False | Some (_, nd) \<Rightarrow> node_state nd \<noteq> None)"

text \<open>The node of a switch statement: both children are inner nodes.\<close>

definition switch_node :: "pTreeNode \<Rightarrow> kid \<Rightarrow> kid \<Rightarrow> bool" where
  "switch_node nd l r \<longleftrightarrow> l \<noteq> None \<and> r \<noteq> None \<and> node_state nd = None \<and> \<not> kid_state l \<and> \<not> kid_state r"

definition eligible :: "pTreeNode \<Rightarrow> kid \<Rightarrow> kid \<Rightarrow> bool" where
  "eligible nd l r =
     (if kid_out l \<and> kid_out r then \<not> kid_terminal l \<or> \<not> kid_terminal r
      else if l = None \<and> r = None then False
      else if kid_out l then \<not> kid_terminal l
      else if kid_out r then \<not> kid_terminal r
      else if switch_node nd l r then False
      else \<not> isForked nd \<and> \<not> isInMCTSTree nd)"

text \<open>The second test of the source for two null children is not reached after the first.\<close>

definition hasEligiableChildren :: "pTree \<Rightarrow> nat \<Rightarrow> bool option" where
  "hasEligiableChildren T n = do {
     nd \<leftarrow> nodes T n;
     l \<leftarrow> load_kid T (node_left nd);
     r \<leftarrow> load_kid T (node_right nd);
     Some (eligible nd l r)
   }"

definition random_child :: "config \<Rightarrow> nat \<Rightarrow> nat \<Rightarrow> mctsSearcher \<Rightarrow> nat \<times> mctsSearcher" where
  "random_child C l r \<sigma> = (if rng C (draws \<sigma>) mod 2 = 0 then l else r, \<sigma>\<lparr>draws := draws \<sigma> + 1\<rparr>)"

definition selectBestChildren ::
  "config \<Rightarrow> pTreeNode \<Rightarrow> nat \<times> pTreeNode \<Rightarrow> nat \<times> pTreeNode \<Rightarrow> mctsSearcher \<Rightarrow> nat \<times> mctsSearcher" where
  "selectBestChildren C current_node lk rk \<sigma> = (
     let uct_left = computeUCT current_node (snd lk); uct_right = computeUCT current_node (snd rk)
     in if dbl_less uct_right uct_left then (fst lk, \<sigma>)
        else if dbl_less uct_left uct_right then (fst rk, \<sigma>)
        else random_child C (fst lk) (fst rk) \<sigma>)"

text \<open>
  A switch node whose children are not in the tree ends the program (\<open>exit(1)\<close>); the
  comparison of rewards that follows in the source is not reached, as two children in the
  tree have been compared before.
\<close>

definition doSelection :: "config \<Rightarrow> pTree \<Rightarrow> nat \<Rightarrow> mctsSearcher \<Rightarrow> (nat \<times> mctsSearcher) option" where
  "doSelection C T n \<sigma> = do {
     nd \<leftarrow> nodes T n;
     l \<leftarrow> load_kid T (node_left nd);
     r \<leftarrow> load_kid T (node_right nd);
     (case (l, r) of
        (Some lk, Some rk) \<Rightarrow>
          if kid_in l \<and> kid_in r then Some (selectBestChildren C nd lk rk \<sigma>)
          else if kid_in l then Some (fst lk, \<sigma>)
          else if kid_in r then Some (fst rk, \<sigma>)
          else if switch_node nd l r then None
          else Some (n, \<sigma>)
      | (Some lk, None) \<Rightarrow> Some (if kid_in l \<or> kid_terminal l then fst lk else n, \<sigma>)
      | (None, Some rk) \<Rightarrow> Some (if kid_in r \<or> kid_terminal r then fst rk else n, \<sigma>)
      | (None, None) \<Rightarrow> Some (n, \<sigma>))
   }"

section \<open>Expansion\<close>

definition mark :: "nat \<Rightarrow> pTree \<Rightarrow> pTree option" where
  "mark n T = map_option (\<lambda>nd. set_node n (nd\<lparr>isInMCTSTree := True\<rparr>) T) (nodes T n)"

definition expandBestChildren ::
  "config \<Rightarrow> (nat \<Rightarrow> executionState option) \<Rightarrow> nat \<times> pTreeNode \<Rightarrow> nat \<times> pTreeNode \<Rightarrow> mctsSearcher \<Rightarrow> (nat \<times> mctsSearcher) option" where
  "expandBestChildren C states_of lk rk \<sigma> = do {
     left_state \<leftarrow> node_state (snd lk) \<bind> states_of;
     right_state \<leftarrow> node_state (snd rk) \<bind> states_of;
     blocks \<leftarrow> getBranchBlocks (prog C) (es_pc left_state) (es_pc right_state);
     ((score_left, score_right), m) \<leftarrow> getExpansionScore (prog C) (recordingSet C) blocks (globalUnsafeBlockMap \<sigma>);
     let \<sigma> = \<sigma>\<lparr>globalUnsafeBlockMap := m\<rparr>;
     Some (if score_left > score_right then (fst lk, \<sigma>)
           else if score_left < score_right then (fst rk, \<sigma>)
           else random_child C (fst lk) (fst rk) \<sigma>)
   }"

definition doExpansion ::
  "config \<Rightarrow> (nat \<Rightarrow> executionState option) \<Rightarrow> nat \<Rightarrow> mctsSearcher \<times> pTree \<Rightarrow> (nat \<times> mctsSearcher \<times> pTree) option" where
  "doExpansion C states_of n x = (case x of (\<sigma>, T) \<Rightarrow> do {
     nd \<leftarrow> nodes T n;
     l \<leftarrow> load_kid T (node_left nd);
     r \<leftarrow> load_kid T (node_right nd);
     (if kid_out l \<and> kid_out r \<and> kid_state l \<and> kid_state r
      then do {
        (m, \<sigma>) \<leftarrow> expandBestChildren C states_of (the l) (the r) \<sigma>;
        Some (m, \<sigma>, T)
      }
      else if kid_out l \<and> kid_state l then Some (fst (the l), \<sigma>, T)
      else if kid_out r \<and> kid_state r then Some (fst (the r), \<sigma>, T)
      else if switch_node nd l r then do {
        T \<leftarrow> mark n T;
        T \<leftarrow> mark (fst (the l)) T;
        T \<leftarrow> mark (fst (the r)) T;
        Some (n, \<sigma>, T)
      }
      else if \<not> isForked nd \<and> \<not> isInMCTSTree nd
      then do {
        c \<leftarrow> current_state \<sigma>;
        _ \<leftarrow> states_of c;
        Some (ptreeNode T c, \<sigma>, T)
      }
      else Some (n, \<sigma>, T))
   })"

section \<open>Selection\<close>

text \<open>
  Whether to simulate the state of an expanded node: with the optimisation on, a block whose
  simulations have not improved the reward \<open>simulation_limit\<close> times is not simulated again
  and the state is ended, and the search goes on (\<open>False\<close>).
\<close>

definition try_simulation :: "config \<Rightarrow> nat \<Rightarrow> nat \<Rightarrow> executor \<Rightarrow> (bool \<times> executor) option" where
  "try_simulation C n s E = do {
     nd \<leftarrow> nodes (processTree E) n;
     (if \<not> enable_simulation C \<or> isSimulated nd then Some (True, E)
      else if \<not> simulation_opt C then do {
        (_, E) \<leftarrow> doSimulation n E;
        Some (True, E)
      }
      else do {
        es \<leftarrow> estate E s;
        let name = bb_name (prog C) (inst_parent (inst_at (prog C) (es_pc es)));
        let (best, repeated, visited) = (case simulatedHistory E name of None \<Rightarrow> (0, 0, 0) | Some (b, k, v) \<Rightarrow> (b, k, v + 1));
        let E = E\<lparr>simulatedHistory := (simulatedHistory E)(name \<mapsto> (best, repeated, visited))\<rparr>;
        (if repeated < real (unat (simulation_limit C)) then do {
           (r, E) \<leftarrow> doSimulation n E;
           let entry = (if best \<ge> r then (best, repeated + 1, visited) else (r, 0, visited));
           Some (True, E\<lparr>simulatedHistory := (simulatedHistory E)(name \<mapsto> entry)\<rparr>)
         }
         else do {
           let E = E\<lparr>processTree := set_node n (nd\<lparr>isSimulated := True\<rparr>) (processTree E)\<rparr>;
           E \<leftarrow> terminateState (prog C) (recordingSet C) (compressProcessTree C) s E;
           Some (False, E)
         })
      })
   }"

text \<open>
  One round of the loop of \<open>selectState\<close> at the node \<open>n\<close>: a selected state, or the node and
  the variable \<open>selected_state\<close> for the next round.
\<close>

definition select_leaf :: "nat \<Rightarrow> mctsSearcher \<times> executor \<Rightarrow> ((nat + nat) \<times> mctsSearcher \<times> executor) option" where
  "select_leaf n x = (case x of (\<sigma>, E) \<Rightarrow> do {
     nd \<leftarrow> nodes (processTree E) n;
     (if has_kid nd then Some (Inr n, \<sigma>, E)
      else do {
        s \<leftarrow> node_state nd;
        Some (Inl s, \<sigma>, E)
      })
   })"

definition mark_kids :: "pTreeNode \<Rightarrow> pTree \<Rightarrow> pTree option" where
  "mark_kids nd T = (case (getPointer (node_left nd), getPointer (node_right nd)) of
     (Some l, Some r) \<Rightarrow> mark l T \<bind> mark r
   | (Some l, None) \<Rightarrow> mark l T
   | (None, Some r) \<Rightarrow> mark r T
   | (None, None) \<Rightarrow> None)"

definition select_expanded ::
  "config \<Rightarrow> nat \<Rightarrow> nat \<Rightarrow> mctsSearcher \<times> executor \<Rightarrow> ((nat + nat \<times> nat option) \<times> mctsSearcher \<times> executor) option" where
  "select_expanded C n expanded x = (case x of (\<sigma>, E) \<Rightarrow> do {
     nd \<leftarrow> nodes (processTree E) expanded;
     (case node_state nd of
        None \<Rightarrow> do {
          T \<leftarrow> mark_kids nd (processTree E);
          Some (Inr (n, None), \<sigma>, E\<lparr>processTree := T\<rparr>)
        }
      | Some s \<Rightarrow> do {
          T \<leftarrow> mark expanded (processTree E);
          let E = E\<lparr>processTree := T\<rparr>;
          (if isTerminal nd then do {
             c \<leftarrow> current_state \<sigma>;
             Some (Inl c, \<sigma>, E)
           }
           else do {
             let \<sigma> = \<sigma>\<lparr>current_state := Some s\<rparr>;
             es \<leftarrow> estate E s;
             (if \<not> isNormalState es \<and> isSimulationState es
              then if has_kid nd then None else Some (Inr (n, Some s), \<sigma>, E)
              else do {
                (found, E) \<leftarrow> try_simulation C expanded s E;
                Some (if found then Inl s else Inr (n, Some s), \<sigma>, E)
              })
           })
        })
   })"

definition select_step ::
  "config \<Rightarrow> nat \<Rightarrow> nat option \<Rightarrow> mctsSearcher \<times> executor \<Rightarrow> ((nat + nat \<times> nat option) \<times> mctsSearcher \<times> executor) option" where
  "select_step C n selected_state x = (case x of (\<sigma>, E) \<Rightarrow> do {
     nd \<leftarrow> nodes (processTree E) n;
     (if isTerminal nd then do {
        s \<leftarrow> selected_state;
        Some (Inl s, \<sigma>, E)
      }
      else do {
        e \<leftarrow> hasEligiableChildren (processTree E) n;
        (if e then do {
           (expanded, \<sigma>, T) \<leftarrow> doExpansion C (estate E) n (\<sigma>, processTree E);
           select_expanded C n expanded (\<sigma>, E\<lparr>processTree := T\<rparr>)
         }
         else do {
           (m, \<sigma>) \<leftarrow> doSelection C (processTree E) n \<sigma>;
           (res, x) \<leftarrow> select_leaf m (\<sigma>, E);
           Some (map_sum id (\<lambda>m. (m, selected_state)) res, x)
         })
      })
   })"

partial_function (option) select_loop ::
  "config \<Rightarrow> nat \<Rightarrow> nat option \<Rightarrow> mctsSearcher \<times> executor \<Rightarrow> (nat \<times> mctsSearcher \<times> executor) option" where
  "select_loop C n selected_state x = do {
     (res, x) \<leftarrow> select_step C n selected_state x;
     (case res of Inl s \<Rightarrow> Some (s, x) | Inr (n, selected_state) \<Rightarrow> select_loop C n selected_state x)
   }"

definition MCTSSearcher__selectState ::
  "config \<Rightarrow> mctsSearcher \<times> executor \<Rightarrow> (nat \<times> mctsSearcher \<times> executor) option" where
  "MCTSSearcher__selectState C x = (case x of (\<sigma>, E) \<Rightarrow>
     (case children \<sigma> of
        [] \<Rightarrow> None
      | [s] \<Rightarrow> Some (s, x)
      | _ \<Rightarrow> do {
          n \<leftarrow> getPointer (root (processTree E));
          select_loop C n None x
        }))"

section \<open>Update\<close>

text \<open>The walks to the root only test links here: this searcher does not tag nodes.\<close>

partial_function (option) insert_walk :: "nat option \<Rightarrow> nat option \<Rightarrow> pTree \<Rightarrow> unit option" where
  "insert_walk pnode parent T = (case pnode of
     None \<Rightarrow> Some ()
   | Some n \<Rightarrow> do {
       c \<leftarrow> child_ptr n parent T;
       (if getPointer c \<noteq> None then Some ()
        else do {
          up \<leftarrow> (case parent of None \<Rightarrow> Some None | Some p \<Rightarrow> map_option node_parent (nodes T p));
          insert_walk parent up T
        })
     })"

partial_function (option) erase_walk :: "nat option \<Rightarrow> nat option \<Rightarrow> pTree \<Rightarrow> unit option" where
  "erase_walk pnode parent T = (case pnode of
     None \<Rightarrow> Some ()
   | Some n \<Rightarrow> do {
       nd \<leftarrow> nodes T n;
       (if has_kid nd then Some ()
        else do {
          c \<leftarrow> child_ptr n parent T;
          assert_that (getPointer c \<noteq> None);
          up \<leftarrow> (case parent of None \<Rightarrow> Some None | Some p \<Rightarrow> map_option node_parent (nodes T p));
          erase_walk parent up T
        })
     })"

fun mcts_insert ::
  "(nat \<Rightarrow> executionState option) \<Rightarrow> bool \<Rightarrow> nat list \<Rightarrow> mctsSearcher \<times> pTree \<Rightarrow> (mctsSearcher \<times> pTree) option" where
  "mcts_insert states_of first [] x = Some x"
| "mcts_insert states_of first (s # ss) (\<sigma>, T) = do {
     es \<leftarrow> states_of s;
     let \<sigma> = (if first \<and> isNormalState es then \<sigma>\<lparr>current_state := Some s\<rparr> else \<sigma>);
     let \<sigma> = \<sigma>\<lparr>children := children \<sigma> @ [s]\<rparr>;
     nd \<leftarrow> nodes T (ptreeNode T s);
     insert_walk (Some (ptreeNode T s)) (node_parent nd) T;
     mcts_insert states_of first ss (\<sigma>, T)
   }"

fun mcts_remove :: "nat list \<Rightarrow> mctsSearcher \<times> pTree \<Rightarrow> (mctsSearcher \<times> pTree) option" where
  "mcts_remove [] x = Some x"
| "mcts_remove (s # ss) (\<sigma>, T) = do {
     assert_that (s \<in> set (children \<sigma>));
     let \<sigma> = \<sigma>\<lparr>children := remove1 s (children \<sigma>)\<rparr>;
     nd \<leftarrow> nodes T (ptreeNode T s);
     erase_walk (Some (ptreeNode T s)) (node_parent nd) T;
     mcts_remove ss (\<sigma>, T)
   }"

definition MCTSSearcher__update ::
  "(nat \<Rightarrow> executionState option) \<Rightarrow> nat option \<Rightarrow> nat list \<Rightarrow> nat list \<Rightarrow> mctsSearcher \<times> pTree \<Rightarrow> (mctsSearcher \<times> pTree) option" where
  "MCTSSearcher__update states_of current added gone x = (case x of (\<sigma>, T) \<Rightarrow> do {
     T \<leftarrow> (case current of
         None \<Rightarrow> Some T
       | Some c \<Rightarrow> do {
           nd \<leftarrow> nodes T (ptreeNode T c);
           Some (set_node (ptreeNode T c) (nd\<lparr>isInMCTSTree := False\<rparr>) T)
         });
     let \<sigma> = \<sigma>\<lparr>current_state := current\<rparr>;
     x \<leftarrow> mcts_insert states_of (length added = 1 \<and> current = None) added (\<sigma>, T);
     mcts_remove gone x
   })"

definition MCTSSearcher__empty :: "pTree \<Rightarrow> bool" where
  "MCTSSearcher__empty T \<longleftrightarrow> getPointer (root T) = None"

section \<open>The main loop\<close>

text \<open>
  What the instruction of the selected state may do: go on with the next one, go to another
  one, fork in two that go to two, or end the state. The conditions of the branches and the
  memory are not modelled: every sequence of effects is considered.
\<close>

datatype effect = Fall | Jump nat | Branch nat nat | Exit

definition stepInstruction :: "nat \<Rightarrow> executor \<Rightarrow> executor option" where
  "stepInstruction s E = do {
     es \<leftarrow> estate E s;
     let E = (if isNormalState es then E else E\<lparr>inst_count_per_simulation := inst_count_per_simulation E + 1\<rparr>);
     Some (set_estate s (es\<lparr>es_prevPC := es_pc es, es_pc := es_pc es + 1\<rparr>) E)
   }"

definition transferTo :: "nat \<Rightarrow> nat \<Rightarrow> executor \<Rightarrow> executor option" where
  "transferTo pc s E = do {
     es \<leftarrow> estate E s;
     Some (set_estate s (es\<lparr>es_pc := pc\<rparr>) E)
   }"

text \<open>The part of \<open>fork\<close> where both values of the condition are possible; it returns the new state.\<close>

definition fork_state :: "nat \<Rightarrow> executor \<Rightarrow> (nat \<times> executor) option" where
  "fork_state s E = do {
     es \<leftarrow> estate E s;
     assert_that (\<not> (isSimulationState es \<and> is_simulation_mode E));
     let falseState = estate_brk E;
     let E = set_estate falseState es (E\<lparr>estate_brk := falseState + 1, addedStates := addedStates E @ [falseState]\<rparr>);
     let n = ptreeNode (processTree E) s;
     nd \<leftarrow> nodes (processTree E) n;
     let T = (if is_simulation_mode E then processTree E else set_node n (nd\<lparr>isForked := True\<rparr>) (processTree E));
     T \<leftarrow> PTree__attach n falseState s T;
     Some (falseState, E\<lparr>processTree := T\<rparr>)
   }"

fun execute :: "config \<Rightarrow> effect \<Rightarrow> nat \<Rightarrow> executor \<Rightarrow> executor option" where
  "execute C Fall s E = Some E"
| "execute C (Jump pc) s E = transferTo pc s E"
| "execute C (Branch pc pc') s E = do {
     (falseState, E) \<leftarrow> fork_state s E;
     E \<leftarrow> transferTo pc s E;
     transferTo pc' falseState E
   }"
| "execute C Exit s E = terminateState (prog C) (recordingSet C) (compressProcessTree C) s E"

definition end_turn :: "config \<Rightarrow> nat \<Rightarrow> mctsSearcher \<Rightarrow> executor \<Rightarrow> (mctsSearcher \<times> executor) option" where
  "end_turn C s \<sigma> E = do {
     T \<leftarrow> (if is_simulation_mode E then Some (processTree E) else mark (ptreeNode (processTree E) s) (processTree E));
     updateStates (MCTSSearcher__update (estate E)) (compressProcessTree C) (Some s) (\<sigma>, E\<lparr>processTree := T\<rparr>)
   }"

definition mcts_turn :: "config \<Rightarrow> effect \<Rightarrow> mctsSearcher \<times> executor \<Rightarrow> (mctsSearcher \<times> executor) option" where
  "mcts_turn C a x = do {
     (s, \<sigma>, E) \<leftarrow> MCTSSearcher__selectState C x;
     es \<leftarrow> estate E s;
     let E = (if is_simulation_mode E
       then E\<lparr>memoryOperationInstructionSet := collectInstructionsInSimulation (prog C) (es_pc es) (memoryOperationInstructionSet E)\<rparr> else E);
     E \<leftarrow> stepInstruction s E;
     E \<leftarrow> execute C a s E;
     end_turn C s \<sigma> E
   }"

fun mcts_turns :: "config \<Rightarrow> effect list \<Rightarrow> mctsSearcher \<times> executor \<Rightarrow> (mctsSearcher \<times> executor) option" where
  "mcts_turns C [] x = Some x"
| "mcts_turns C (a # as) x = (if states (snd x) = {} then Some x else mcts_turn C a x \<bind> mcts_turns C as)"

definition new_mcts :: mctsSearcher where
  "new_mcts = \<lparr>children = [], current_state = None, globalUnsafeBlockMap = \<lambda>_. None, draws = 0\<rparr>"

text \<open>A run from one state: the searcher is told of it, and the turns follow.\<close>

definition mcts_run :: "config \<Rightarrow> effect list \<Rightarrow> nat \<Rightarrow> (mctsSearcher \<times> executor) option" where
  "mcts_run C as s = do {
     (\<sigma>, T) \<leftarrow> MCTSSearcher__update (estate (initial_executor s)) None [s] [] (new_mcts, processTree (initial_executor s));
     mcts_turns C as (\<sigma>, (initial_executor s)\<lparr>processTree := T\<rparr>)
   }"

section \<open>Trees that differ in the marks only\<close>

definition clear :: "pTreeNode \<Rightarrow> pTreeNode" where
  "clear nd = nd\<lparr>isInMCTSTree := False\<rparr>"

definition same_tree :: "pTree \<Rightarrow> pTree \<Rightarrow> bool" where
  "same_tree T T' \<longleftrightarrow> root T' = root T \<and> ptreeNode T' = ptreeNode T \<and> brk T' = brk T \<and> (\<forall>m. map_option clear (nodes T m) = map_option clear (nodes T' m))"

lemma clear_fields [simp]:
  "node_parent (clear nd) = node_parent nd" "node_left (clear nd) = node_left nd" "node_right (clear nd) = node_right nd"
  "node_state (clear nd) = node_state nd" "isTerminal (clear nd) = isTerminal nd" "isForked (clear nd) = isForked nd"
  by (simp_all add: clear_def)

lemma clear_eqD:
  assumes "clear nd = clear nd'"
  shows "node_parent nd = node_parent nd'" "node_left nd = node_left nd'" "node_right nd = node_right nd'"
    "node_state nd = node_state nd'" "isTerminal nd = isTerminal nd'" "isForked nd = isForked nd'"
  using arg_cong [OF assms, of node_parent] arg_cong [OF assms, of node_left] arg_cong [OF assms, of node_right]
    arg_cong [OF assms, of node_state] arg_cong [OF assms, of isTerminal] arg_cong [OF assms, of isForked] by simp_all

lemma same_tree_refl [simp]: "same_tree T T"
  by (simp add: same_tree_def)

lemma same_tree_trans: "same_tree T T' \<Longrightarrow> same_tree T' T'' \<Longrightarrow> same_tree T T''"
  by (simp add: same_tree_def)

lemma same_tree_fields:
  assumes "same_tree T T'"
  shows "root T' = root T" "ptreeNode T' = ptreeNode T" "brk T' = brk T"
  using assms by (simp_all add: same_tree_def)

lemma same_tree_nodes:
  assumes "same_tree T T'" "nodes T m = Some nd"
  obtains nd' where "nodes T' m = Some nd'" "clear nd' = clear nd"
proof -
  have "map_option clear (nodes T m) = map_option clear (nodes T' m)" using assms(1) by (simp add: same_tree_def)
  then show ?thesis using assms(2) that by (cases "nodes T' m") auto
qed

lemma same_tree_links:
  assumes "same_tree T T'"
  shows "same_links (nodes T m) (nodes T' m)"
proof -
  have "map_option clear (nodes T m) = map_option clear (nodes T' m)" using assms by (simp add: same_tree_def)
  moreover have "same_links (Some nd) (Some nd')" if "clear nd = clear nd'" for nd nd'
    using clear_eqD [OF that] by (simp add: same_links_def)
  ultimately show ?thesis by (cases "nodes T m"; cases "nodes T' m") simp_all
qed

text \<open>The nodes that are not in the tree of the searcher.\<close>

definition outs :: "pTree \<Rightarrow> nat tree \<Rightarrow> nat set" where
  "outs T t = {m \<in> set_tree t. \<exists>nd. nodes T m = Some nd \<and> \<not> isInMCTSTree nd}"

lemma finite_outs [simp]: "finite (outs T t)"
  by (simp add: outs_def)

lemma mark_ok:
  assumes "nodes T n = Some nd"
  obtains T' where "mark n T = Some T'" "same_tree T T'" "outs T' t = outs T t - {n}" "T' = set_node n (nd\<lparr>isInMCTSTree := True\<rparr>) T"
proof -
  let ?T = "set_node n (nd\<lparr>isInMCTSTree := True\<rparr>) T"
  have "same_tree T ?T" using assms by (auto simp: same_tree_def set_node_def clear_def)
  moreover have "outs ?T t = outs T t - {n}" by (auto simp: outs_def set_node_def)
  ultimately show ?thesis using that [of ?T] assms by (simp add: mark_def)
qed

section \<open>Selection ends with a live state\<close>

text \<open>
  The searcher holds the states of the executor; no node is terminal between two turns, and
  the inner nodes come from forks.
\<close>

definition mcts_nodes :: "pTree \<Rightarrow> nat tree \<Rightarrow> bool" where
  "mcts_nodes T t \<longleftrightarrow> (\<forall>n \<in> set_tree t. \<exists>nd. nodes T n = Some nd \<and> \<not> isTerminal nd \<and> (node_state nd = None \<longrightarrow> isForked nd))"

definition mcts_inv :: "mctsSearcher \<Rightarrow> executor \<Rightarrow> nat tree \<Rightarrow> bool" where
  "mcts_inv \<sigma> E t \<longleftrightarrow> wf_executor E \<and> wf_ptree (processTree E) t \<and> live (processTree E) t = states E \<and> mcts_nodes (processTree E) t
     \<and> distinct (children \<sigma>) \<and> set (children \<sigma>) = states E \<and> (\<forall>s \<in> states E. \<exists>es. estate E s = Some es \<and> \<not> suspendStatus es)"

lemma mcts_nodes_same:
  assumes "same_tree T T'" "mcts_nodes T t"
  shows "mcts_nodes T' t"
  unfolding mcts_nodes_def
proof
  fix n assume n: "n \<in> set_tree t"
  obtain nd where nd: "nodes T n = Some nd" "\<not> isTerminal nd" "node_state nd = None \<longrightarrow> isForked nd"
    using bspec [OF assms(2) [unfolded mcts_nodes_def] n] by (elim exE conjE)
  obtain nd' where nd': "nodes T' n = Some nd'" "clear nd' = clear nd" using same_tree_nodes [OF assms(1) nd(1)] .
  note c = clear_eqD(4-6) [OF nd'(2)]
  have "\<not> isTerminal nd'" "node_state nd' = None \<longrightarrow> isForked nd'" unfolding c using nd(2,3) by simp_all
  with nd'(1) show "\<exists>nd. nodes T' n = Some nd \<and> \<not> isTerminal nd \<and> (node_state nd = None \<longrightarrow> isForked nd)"
    by (intro exI [of _ nd'] conjI)
qed

lemma wf_same_tree:
  assumes "same_tree T T'"
  shows "wf_ptree T' t \<longleftrightarrow> wf_ptree T t" "live T' t = live T t"
proof -
  have l: "\<forall>n \<in> set_tree t. same_links (nodes T n) (nodes T' n)" using same_tree_links [OF assms] by blast
  have r: "getPointer (root T') = getPointer (root T)" using same_tree_fields(1) [OF assms] by (rule arg_cong)
  note * = wf_ptree_links [OF l r same_tree_fields(2,3) [OF assms]]
  show "wf_ptree T' t \<longleftrightarrow> wf_ptree T t" by (rule *(1))
  show "live T' t = live T t" by (rule *(2))
qed

lemma wf_executor_tree [simp]: "wf_executor (E\<lparr>processTree := T\<rparr>) = wf_executor E"
  by (simp add: wf_executor_def)

lemma mcts_inv_same:
  assumes "mcts_inv \<sigma> E t" "same_tree (processTree E) T'" "children \<sigma>' = children \<sigma>"
  shows "mcts_inv \<sigma>' (E\<lparr>processTree := T'\<rparr>) t"
  using assms mcts_nodes_same [OF assms(2)] by (simp add: mcts_inv_def wf_same_tree [OF assms(2)])

text \<open>What the pointers of a node lead to.\<close>

definition kid_of :: "pTree \<Rightarrow> nat tree \<Rightarrow> kid" where
  "kid_of T l = (case l of Leaf \<Rightarrow> None | Node _ m _ \<Rightarrow> Some (m, the (nodes T m)))"

lemma load_kid_ok: "tree_at (nodes T) par (getPointer p) l \<Longrightarrow> load_kid T p = Some (kid_of T l)"
  by (cases l) (auto simp: load_kid_def kid_of_def split: option.splits)

lemma kid_of_Leaf [simp]: "kid_of T Leaf = None"
  by (simp add: kid_of_def)

lemma kid_of_None [simp]: "kid_of T l = None \<longleftrightarrow> l = Leaf"
  by (cases l) (simp_all add: kid_of_def)

lemma kid_of_Some:
  assumes "kid_of T l = Some (m, md)" "tree_at (nodes T) par p l"
  obtains l1 l2 where "l = Node l1 m l2" "nodes T m = Some md"
  using assms by (cases l) (auto simp: kid_of_def split: option.splits)

lemma kid_cases: "kid_out k \<longleftrightarrow> k \<noteq> None \<and> \<not> kid_in k"
  by (cases k) (auto simp: kid_in_def kid_out_def)

text \<open>With these nodes, a child can be expanded exactly if it is not in the tree.\<close>

lemma eligible_iff:
  assumes "\<not> kid_terminal l" "\<not> kid_terminal r" "l \<noteq> None \<or> r \<noteq> None \<Longrightarrow> isForked nd"
  shows "eligible nd l r \<longleftrightarrow> kid_out l \<or> kid_out r"
  using assms by (auto simp: eligible_def kid_cases)

lemma random_child_ok: "fst (random_child C l r \<sigma>) \<in> {l, r}" "children (snd (random_child C l r \<sigma>)) = children \<sigma>"
  by (simp_all add: random_child_def)

lemma selectBestChildren_ok:
  "fst (selectBestChildren C nd l r \<sigma>) \<in> {fst l, fst r}" "children (snd (selectBestChildren C nd l r \<sigma>)) = children \<sigma>"
  using random_child_ok by (simp_all add: selectBestChildren_def Let_def)

lemma getExpansionScore_ok: "\<exists>sl sr m'. getExpansionScore P R [ls, rs] m = Some ((sl, sr), m')"
proof -
  obtain c m1 where 1: "expansion_loop P R ls (0, m) = (c, m1)" by fastforce
  obtain d m2 where 2: "expansion_loop P R rs (0, m1) = (d, m2)" by fastforce
  have "getExpansionScore P R [ls, rs] m = Some ((1 / 2 * real (unat c), 1 / 2 * real (unat d)), m2)" using 1 2 by simp
  then show ?thesis by blast
qed

text \<open>The control flow of the program under test is finite.\<close>

definition finite_program :: "program \<Rightarrow> bool" where
  "finite_program P \<longleftrightarrow> (\<exists>B. finite B \<and> (\<forall>b \<in> B. set (successors P b) \<subseteq> B) \<and> (\<forall>i. inst_parent (inst_at P i) \<in> B))"

lemma expandBestChildren_ok:
  assumes "finite_program (prog C)" "node_state (snd l) \<bind> states_of \<noteq> None" "node_state (snd r) \<bind> states_of \<noteq> None"
  shows "\<exists>m \<sigma>'. expandBestChildren C states_of l r \<sigma> = Some (m, \<sigma>') \<and> m \<in> {fst l, fst r} \<and> children \<sigma>' = children \<sigma>"
proof -
  obtain lst rst where st: "node_state (snd l) \<bind> states_of = Some lst" "node_state (snd r) \<bind> states_of = Some rst" using assms(2,3) by auto
  obtain B where B: "finite B" "\<forall>b \<in> B. set (successors (prog C) b) \<subseteq> B" "\<And>i. inst_parent (inst_at (prog C) i) \<in> B"
    using assms(1) unfolding finite_program_def by auto
  obtain ls rs where b: "getBranchBlocks (prog C) (es_pc lst) (es_pc rst) = Some [ls, rs]"
    using getBranchBlocks_ok [OF B(1,2) B(3) B(3), of "es_pc lst" "es_pc rst"] by auto
  obtain sl sr m where g: "getExpansionScore (prog C) (recordingSet C) [ls, rs] (globalUnsafeBlockMap \<sigma>) = Some ((sl, sr), m)"
    using getExpansionScore_ok by blast
  define \<sigma>' where "\<sigma>' = \<sigma>\<lparr>globalUnsafeBlockMap := m\<rparr>"
  obtain m' \<sigma>'' where rc: "random_child C (fst l) (fst r) \<sigma>' = (m', \<sigma>'')" "m' \<in> {fst l, fst r}" "children \<sigma>'' = children \<sigma>"
    using random_child_ok [of C "fst l" "fst r" \<sigma>'] by (cases "random_child C (fst l) (fst r) \<sigma>'") (simp add: \<sigma>'_def)
  have "expandBestChildren C states_of l r \<sigma> = Some (if sl > sr then (fst l, \<sigma>') else if sl < sr then (fst r, \<sigma>') else (m', \<sigma>''))"
    by (simp add: expandBestChildren_def st b g Let_def \<sigma>'_def [symmetric] rc(1) del: getExpansionScore.simps)
  moreover have "children \<sigma>' = children \<sigma>" by (simp add: \<sigma>'_def)
  ultimately show ?thesis using rc(2,3) by simp
qed

lemma mcts_node:
  assumes "mcts_inv \<sigma> E t" "n \<in> set_tree t"
  obtains nd where "nodes (processTree E) n = Some nd" "\<not> isTerminal nd" "node_state nd = None \<longrightarrow> isForked nd"
    "node_state nd = None \<longleftrightarrow> has_kid nd" "\<forall>s. node_state nd = Some s \<longrightarrow> s \<in> states E"
proof -
  have inv: "mcts_nodes (processTree E) t" "wf_ptree (processTree E) t" "live (processTree E) t = states E"
    using assms(1) by (simp_all add: mcts_inv_def)
  obtain nd where nd: "nodes (processTree E) n = Some nd" "\<not> isTerminal nd" "node_state nd = None \<longrightarrow> isForked nd"
    using bspec [OF inv(1) [unfolded mcts_nodes_def] assms(2)] by (elim exE conjE)
  have "node_ok (processTree E) n" using inv(2) assms(2) by (simp add: wf_ptree_def)
  then have "node_state nd = None \<longleftrightarrow> has_kid nd" using nd(1) by (simp add: node_ok_def split: option.splits)
  moreover have "\<forall>s. node_state nd = Some s \<longrightarrow> s \<in> states E"
    unfolding inv(3) [symmetric] live_def using nd(1) assms(2) by (intro allI impI CollectI bexI [of _ n] exI [of _ nd] conjI)
  ultimately show ?thesis by (rule that [OF nd])
qed

definition kids :: "pTreeNode \<Rightarrow> nat set" where
  "kids nd = {m. getPointer (node_left nd) = Some m \<or> getPointer (node_right nd) = Some m}"

lemma mark_kids_ok:
  assumes "\<forall>m \<in> kids nd. nodes T m \<noteq> None" "has_kid nd"
  shows "\<exists>T'. mark_kids nd T = Some T' \<and> same_tree T T' \<and> outs T' t = outs T t - kids nd"
proof -
  have mark: "\<exists>T'. mark m T = Some T' \<and> same_tree T T' \<and> outs T' t = outs T t - {m}" if m: "nodes T m \<noteq> None" for m T
  proof -
    obtain md where "nodes T m = Some md" using m by auto
    then show ?thesis by (rule mark_ok [of T m md t]) (intro exI conjI)
  qed
  consider l where "getPointer (node_left nd) = Some l" "getPointer (node_right nd) = None"
    | r where "getPointer (node_left nd) = None" "getPointer (node_right nd) = Some r"
    | l r where "getPointer (node_left nd) = Some l" "getPointer (node_right nd) = Some r"
    using assms(2) by (cases "getPointer (node_left nd)"; cases "getPointer (node_right nd)") (simp_all add: has_kid_def)
  then show ?thesis
  proof cases
    case (1 l)
    then have "kids nd = {l}" by (auto simp: kids_def)
    then show ?thesis using mark [of T l] assms(1) 1 by (simp add: mark_kids_def)
  next
    case (2 r)
    then have "kids nd = {r}" by (auto simp: kids_def)
    then show ?thesis using mark [of T r] assms(1) 2 by (simp add: mark_kids_def)
  next
    case (3 l r)
    then have k: "kids nd = {l, r}" by (auto simp: kids_def)
    have "nodes T l \<noteq> None" using assms(1) k by simp
    from mark [OF this] obtain T1 where T1: "mark l T = Some T1" "same_tree T T1" "outs T1 t = outs T t - {l}" by (elim exE conjE)
    have "nodes T1 r \<noteq> None" using assms(1) k same_tree_links [OF T1(2), of r]
      by (cases "nodes T r"; cases "nodes T1 r") (simp_all add: same_links_def)
    from mark [OF this] obtain T2 where T2: "mark r T1 = Some T2" "same_tree T1 T2" "outs T2 t = outs T1 t - {r}" by (elim exE conjE)
    have "outs T2 t = outs T t - kids nd" using T1(3) T2(3) k by auto
    then show ?thesis using T1(1) T2(1) same_tree_trans [OF T1(2) T2(2)] 3 by (simp add: mark_kids_def)
  qed
qed

text \<open>Expanding a node with a state selects the state.\<close>

lemma select_expanded_state:
  assumes "mcts_inv \<sigma> E t" "\<not> enable_simulation C" "m \<in> set_tree t" "nodes (processTree E) m = Some md" "node_state md = Some s"
  shows "\<exists>\<sigma>' T'. select_expanded C n m (\<sigma>, E) = Some (Inl s, \<sigma>', E\<lparr>processTree := T'\<rparr>) \<and> same_tree (processTree E) T' \<and> children \<sigma>' = children \<sigma>"
proof -
  obtain nd where nd: "nodes (processTree E) m = Some nd" "\<not> isTerminal nd" "node_state nd = None \<longrightarrow> isForked nd"
    "node_state nd = None \<longleftrightarrow> has_kid nd" "\<forall>s. node_state nd = Some s \<longrightarrow> s \<in> states E"
    using mcts_node [OF assms(1,3)] .
  then have md: "nd = md" "s \<in> states E" using assms(4,5) by simp_all
  obtain es where es: "estate E s = Some es" "es_type es = NORMAL_STATE"
    using assms(1) md(2) unfolding mcts_inv_def wf_executor_def by (elim conjE) (drule (1) bspec, elim exE conjE, rule that)
  obtain T' where T': "mark m (processTree E) = Some T'" "same_tree (processTree E) T'" "T' = set_node m (md\<lparr>isInMCTSTree := True\<rparr>) (processTree E)"
    using mark_ok [OF assms(4)] .
  have "nodes T' m = Some (md\<lparr>isInMCTSTree := True\<rparr>)" by (simp add: T'(3) set_node_def)
  then have "select_expanded C n m (\<sigma>, E) = Some (Inl s, \<sigma>\<lparr>current_state := Some s\<rparr>, E\<lparr>processTree := T'\<rparr>)"
    using assms nd(2) md(1) T'(1) es by (simp add: select_expanded_def try_simulation_def)
  then show ?thesis using T'(2) by (intro exI [of _ "\<sigma>\<lparr>current_state := Some s\<rparr>"] exI [of _ T']) simp
qed

text \<open>A node of the tree with its children.\<close>

definition at_node :: "pTree \<Rightarrow> nat tree \<Rightarrow> nat \<Rightarrow> pTreeNode \<Rightarrow> nat tree \<Rightarrow> nat tree \<Rightarrow> bool" where
  "at_node T t n nd l r \<longleftrightarrow> nodes T n = Some nd \<and> set_tree (Node l n r) \<subseteq> set_tree t
     \<and> tree_at (nodes T) (Some n) (getPointer (node_left nd)) l \<and> tree_at (nodes T) (Some n) (getPointer (node_right nd)) r"

lemma at_node_kids:
  assumes "at_node T t n nd l r"
  shows "load_kid T (node_left nd) = Some (kid_of T l)" "load_kid T (node_right nd) = Some (kid_of T r)"
    "has_kid nd \<longleftrightarrow> kid_of T l \<noteq> None \<or> kid_of T r \<noteq> None"
proof -
  have t: "tree_at (nodes T) (Some n) (getPointer (node_left nd)) l" "tree_at (nodes T) (Some n) (getPointer (node_right nd)) r"
    using assms by (simp_all add: at_node_def)
  show "load_kid T (node_left nd) = Some (kid_of T l)" "load_kid T (node_right nd) = Some (kid_of T r)"
    using load_kid_ok [OF t(1)] load_kid_ok [OF t(2)] by simp_all
  show "has_kid nd \<longleftrightarrow> kid_of T l \<noteq> None \<or> kid_of T r \<noteq> None"
    using tree_at_Leaf_iff [OF t(1)] tree_at_Leaf_iff [OF t(2)] by (simp add: has_kid_def)
qed

lemma at_node_kid:
  assumes "at_node T t n nd l r" "k \<in> {l, r}" "kid_of T k = Some (m, md)"
  shows "nodes T m = Some md" "m \<in> set_tree t" "m \<in> kids nd" "\<exists>k1 k2. k = Node k1 m k2"
proof -
  have t: "tree_at (nodes T) (Some n) (getPointer (node_left nd)) l" "tree_at (nodes T) (Some n) (getPointer (node_right nd)) r"
    "set_tree (Node l n r) \<subseteq> set_tree t" using assms(1) by (simp_all add: at_node_def)
  obtain p where p: "tree_at (nodes T) (Some n) p k" "p = getPointer (node_left nd) \<or> p = getPointer (node_right nd)"
    using assms(2) t(1,2) by auto
  obtain k1 k2 where k: "k = Node k1 m k2" "nodes T m = Some md" using kid_of_Some [OF assms(3) p(1)] .
  have "p = Some m" using p(1) k(1) by simp
  then show "m \<in> kids nd" using p(2) by (auto simp: kids_def)
  show "nodes T m = Some md" "\<exists>k1 k2. k = Node k1 m k2" using k by simp_all
  show "m \<in> set_tree t" using assms(2) t(3) k(1) by auto
qed

lemma kids_nodes:
  assumes "at_node T t n nd l r"
  shows "\<forall>k \<in> kids nd. nodes T k \<noteq> None"
proof
  fix k assume "k \<in> kids nd"
  then obtain u where "tree_at (nodes T) (Some n) (Some k) u" using assms by (auto simp: kids_def at_node_def)
  then show "nodes T k \<noteq> None" by (cases u) (auto split: option.splits)
qed

lemma kid_not_terminal:
  assumes "mcts_inv \<sigma> E t" "at_node (processTree E) t n nd l r" "k \<in> {l, r}"
  shows "\<not> kid_terminal (kid_of (processTree E) k)"
proof (cases "kid_of (processTree E) k")
  case (Some x)
  obtain m md where m: "kid_of (processTree E) k = Some (m, md)" using Some by (cases x) simp
  note k = at_node_kid [OF assms(2,3) m]
  obtain nd where "nodes (processTree E) m = Some nd" "\<not> isTerminal nd" "node_state nd = None \<longrightarrow> isForked nd"
    "node_state nd = None \<longleftrightarrow> has_kid nd" "\<forall>s. node_state nd = Some s \<longrightarrow> s \<in> states E" using mcts_node [OF assms(1) k(2)] .
  then show ?thesis using k(1) m by (simp add: kid_terminal_def)
qed (simp add: kid_terminal_def kid_of_def)

lemma kid_state_known:
  assumes "mcts_inv \<sigma> E t" "at_node (processTree E) t n nd l r" "k \<in> {l, r}" "kid_of (processTree E) k = Some (m, md)" "kid_state (kid_of (processTree E) k)"
  shows "\<exists>s. node_state md = Some s \<and> estate E s \<noteq> None"
proof -
  note k = at_node_kid [OF assms(2-4)]
  obtain s where s: "node_state md = Some s" using assms(4,5) by (auto simp: kid_state_def)
  obtain nd where nd: "nodes (processTree E) m = Some nd" "\<not> isTerminal nd" "node_state nd = None \<longrightarrow> isForked nd"
    "node_state nd = None \<longleftrightarrow> has_kid nd" "\<forall>s. node_state nd = Some s \<longrightarrow> s \<in> states E" using mcts_node [OF assms(1) k(2)] .
  then have "s \<in> states E" using k(1) s by simp
  then show ?thesis using s assms(1) by (auto simp: mcts_inv_def wf_executor_def)
qed

lemma doExpansion_ok:
  assumes inv: "mcts_inv \<sigma> E t" and fin: "finite_program (prog C)" and n: "at_node (processTree E) t n nd l r" "isForked nd"
    and out: "kid_out (kid_of (processTree E) l) \<or> kid_out (kid_of (processTree E) r)"
  shows "\<exists>m \<sigma>' T'. doExpansion C (estate E) n (\<sigma>, processTree E) = Some (m, \<sigma>', T') \<and> same_tree (processTree E) T'
    \<and> outs T' t \<subseteq> outs (processTree E) t \<and> children \<sigma>' = children \<sigma>
    \<and> (m = n \<or> T' = processTree E \<and> m \<in> set_tree t \<and> (\<exists>md s. nodes (processTree E) m = Some md \<and> node_state md = Some s))"
proof -
  let ?T = "processTree E"
  let ?l = "kid_of ?T l" and ?r = "kid_of ?T r"
  have nd: "nodes ?T n = Some nd" using n(1) by (simp add: at_node_def)
  note kids = at_node_kids [OF n(1)]
  have found: "\<exists>md s. nodes ?T (fst (the (kid_of ?T k))) = Some md \<and> node_state md = Some s" "fst (the (kid_of ?T k)) \<in> set_tree t"
    if kk: "k \<in> {l, r}" "kid_out (kid_of ?T k)" "kid_state (kid_of ?T k)" for k
  proof -
    obtain m md where k: "kid_of ?T k = Some (m, md)" using kk(3) by (cases "kid_of ?T k") (auto simp: kid_state_def)
    obtain s where "node_state md = Some s" using kid_state_known [OF inv n(1) kk(1) k kk(3)] by (elim exE conjE)
    with at_node_kid [OF n(1) kk(1) k] k show "\<exists>md s. nodes ?T (fst (the (kid_of ?T k))) = Some md \<and> node_state md = Some s" "fst (the (kid_of ?T k)) \<in> set_tree t"
      by simp_all
  qed
  consider "kid_out ?l \<and> kid_out ?r \<and> kid_state ?l \<and> kid_state ?r"
    | "\<not> (kid_out ?l \<and> kid_out ?r \<and> kid_state ?l \<and> kid_state ?r)" "kid_out ?l \<and> kid_state ?l"
    | "\<not> (kid_out ?l \<and> kid_state ?l)" "kid_out ?r \<and> kid_state ?r"
    | "\<not> (kid_out ?l \<and> kid_state ?l)" "\<not> (kid_out ?r \<and> kid_state ?r)" "switch_node nd ?l ?r"
    | "\<not> (kid_out ?l \<and> kid_state ?l)" "\<not> (kid_out ?r \<and> kid_state ?r)" "\<not> switch_node nd ?l ?r" by argo
  then show ?thesis
  proof cases
    case 1
    then obtain lm ld rm rd where k: "?l = Some (lm, ld)" "?r = Some (rm, rd)" by (cases ?l; cases ?r) (auto simp: kid_state_def)
    obtain s1 s2 where st: "node_state ld = Some s1" "estate E s1 \<noteq> None" "node_state rd = Some s2" "estate E s2 \<noteq> None"
      using kid_state_known [OF inv n(1) _ k(1)] kid_state_known [OF inv n(1) _ k(2)] 1 by auto
    obtain m \<sigma>' where e: "expandBestChildren C (estate E) (lm, ld) (rm, rd) \<sigma> = Some (m, \<sigma>')" "m \<in> {lm, rm}" "children \<sigma>' = children \<sigma>"
      using expandBestChildren_ok [OF fin, of "(lm, ld)" "estate E" "(rm, rd)" \<sigma>] st by auto
    have "doExpansion C (estate E) n (\<sigma>, ?T) = Some (m, \<sigma>', ?T)" using 1 nd kids(1,2) e(1) k by (simp add: doExpansion_def)
    moreover have "m \<in> set_tree t" "\<exists>md s. nodes ?T m = Some md \<and> node_state md = Some s" using found [of l] found [of r] 1 k e(2) by auto
    ultimately show ?thesis using e(3) by simp
  next
    case 2
    then have "\<not> (kid_out ?r \<and> kid_state ?r)" by argo
    then have "doExpansion C (estate E) n (\<sigma>, ?T) = Some (fst (the ?l), \<sigma>, ?T)"
      using 2(2) nd kids(1,2) unfolding doExpansion_def by auto
    then show ?thesis using found [of l] 2(2) by simp
  next
    case 3
    then have "doExpansion C (estate E) n (\<sigma>, ?T) = Some (fst (the ?r), \<sigma>, ?T)"
      using nd kids(1,2) unfolding doExpansion_def by auto
    then show ?thesis using found [of r] 3(2) by simp
  next
    case 4
    then obtain lm ld rm rd where k: "?l = Some (lm, ld)" "?r = Some (rm, rd)" by (cases ?l; cases ?r) (auto simp: switch_node_def)
    have ln: "nodes ?T lm = Some ld" "nodes ?T rm = Some rd" using at_node_kid(1) [OF n(1) _ k(1)] at_node_kid(1) [OF n(1) _ k(2)] by simp_all
    obtain T1 where T1: "mark n ?T = Some T1" "same_tree ?T T1" "outs T1 t = outs ?T t - {n}" using mark_ok [OF nd] .
    obtain ld' where "nodes T1 lm = Some ld'" "clear ld' = clear ld" using same_tree_nodes [OF T1(2) ln(1)] .
    then obtain T2 where T2: "mark lm T1 = Some T2" "same_tree T1 T2" "outs T2 t = outs T1 t - {lm}" using mark_ok by metis
    note s2 = same_tree_trans [OF T1(2) T2(2)]
    obtain rd' where "nodes T2 rm = Some rd'" "clear rd' = clear rd" using same_tree_nodes [OF s2 ln(2)] .
    then obtain T3 where T3: "mark rm T2 = Some T3" "same_tree T2 T3" "outs T3 t = outs T2 t - {rm}" using mark_ok by metis
    have "doExpansion C (estate E) n (\<sigma>, ?T) = Some (n, \<sigma>, T3)"
      using 4 nd kids(1,2) T1(1) T2(1) T3(1) k unfolding doExpansion_def by auto
    moreover have "outs T3 t \<subseteq> outs ?T t" using T1(3) T2(3) T3(3) by auto
    ultimately show ?thesis using same_tree_trans [OF s2 T3(2)] by simp
  next
    case 5
    then have "doExpansion C (estate E) n (\<sigma>, ?T) = Some (n, \<sigma>, ?T)" using nd kids(1,2) n(2) unfolding doExpansion_def by auto
    then show ?thesis by simp
  qed
qed

text \<open>With every child in the tree, selection goes down to one of them.\<close>

lemma doSelection_ok:
  assumes "mcts_inv \<sigma> E t" "at_node (processTree E) t n nd l r" "\<not> kid_out (kid_of (processTree E) l)" "\<not> kid_out (kid_of (processTree E) r)"
  shows "\<exists>m \<sigma>'. doSelection C (processTree E) n \<sigma> = Some (m, \<sigma>') \<and> children \<sigma>' = children \<sigma>
    \<and> (if has_kid nd then \<exists>k \<in> {l, r}. \<exists>md. kid_of (processTree E) k = Some (m, md) else m = n)"
proof -
  let ?T = "processTree E"
  have nd: "nodes ?T n = Some nd" using assms(2) by (simp add: at_node_def)
  note kids = at_node_kids [OF assms(2)]
  note in_l = assms(3) [unfolded kid_cases] and in_r = assms(4) [unfolded kid_cases]
  show ?thesis
  proof (cases "kid_of ?T l")
    case None
    show ?thesis
    proof (cases "kid_of ?T r")
      case (Some x)
      obtain m md where "x = (m, md)" by (cases x)
      then show ?thesis using None Some nd kids in_r by (simp add: doSelection_def)
    qed (use None nd kids in \<open>simp add: doSelection_def\<close>)
  next
    case (Some x)
    obtain lm ld where x: "x = (lm, ld)" by (cases x)
    show ?thesis
    proof (cases "kid_of ?T r")
      case None
      then show ?thesis using x Some nd kids in_l by (simp add: doSelection_def)
    next
      case (Some y)
      obtain rm rd where y: "y = (rm, rd)" by (cases y)
      obtain m \<sigma>' where s: "selectBestChildren C nd (lm, ld) (rm, rd) \<sigma> = (m, \<sigma>')" by (cases "selectBestChildren C nd (lm, ld) (rm, rd) \<sigma>")
      have "m \<in> {lm, rm}" "children \<sigma>' = children \<sigma>"
        using selectBestChildren_ok [of C nd "(lm, ld)" "(rm, rd)" \<sigma>] s by simp_all
      moreover have "doSelection C ?T n \<sigma> = Some (m, \<sigma>')"
        using \<open>kid_of ?T l = Some x\<close> x Some y nd kids(1,2) in_l in_r s by (simp add: doSelection_def)
      ultimately show ?thesis using \<open>kid_of ?T l = Some x\<close> x Some y kids(3) by auto
    qed
  qed
qed

lemma outs_kid:
  assumes "at_node T t n nd l r" "kid_out (kid_of T l) \<or> kid_out (kid_of T r)"
  shows "\<exists>m. m \<in> kids nd \<and> m \<in> outs T t"
proof -
  obtain k where k: "k \<in> {l, r}" "kid_out (kid_of T k)" using assms(2) by blast
  obtain m md where m: "kid_of T k = Some (m, md)" "\<not> isInMCTSTree md" using k(2) by (cases "kid_of T k") (auto simp: kid_out_def)
  note a = at_node_kid [OF assms(1) k(1) m(1)]
  then have "m \<in> outs T t" using m(2) by (simp add: outs_def)
  with a(3) show ?thesis by blast
qed

lemma at_node_same:
  assumes "at_node T t n nd l r" "same_tree T T'" "nodes T' n = Some nd'"
  shows "at_node T' t n nd' l r" "kids nd' = kids nd" "node_state nd' = node_state nd" "has_kid nd' = has_kid nd"
proof -
  have nd: "nodes T n = Some nd" using assms(1) by (simp add: at_node_def)
  obtain x where x: "nodes T' n = Some x" "clear x = clear nd" using same_tree_nodes [OF assms(2) nd] .
  then have c: "clear nd' = clear nd" using assms(3) by simp
  note f = clear_eqD [OF c]
  have "tree_at (nodes T) p q u \<longleftrightarrow> tree_at (nodes T') p q u" for p q u
    by (rule tree_at_links) (simp add: same_tree_links [OF assms(2)])
  then show "at_node T' t n nd' l r" using assms(1,3) by (simp add: at_node_def f(2,3))
  show "kids nd' = kids nd" "node_state nd' = node_state nd" "has_kid nd' = has_kid nd" by (simp_all add: kids_def has_kid_def f(2-4))
qed

text \<open>A round of the selection: a live state, more nodes in the tree, or a smaller subtree.\<close>

lemma select_step_ok:
  assumes inv: "mcts_inv \<sigma> E t" and C: "finite_program (prog C)" "\<not> enable_simulation C" and n: "at_node (processTree E) t n nd l r"
  shows "\<exists>res \<sigma>' T'. select_step C n sel (\<sigma>, E) = Some (res, \<sigma>', E\<lparr>processTree := T'\<rparr>) \<and> same_tree (processTree E) T' \<and> children \<sigma>' = children \<sigma>
    \<and> (case res of Inl s \<Rightarrow> s \<in> states E
       | Inr (m, _) \<Rightarrow> m = n \<and> outs T' t \<subset> outs (processTree E) t
           \<or> T' = processTree E \<and> (\<exists>k1 k2. Node k1 m k2 \<in> {l, r}))"
proof -
  let ?T = "processTree E"
  have nt: "n \<in> set_tree t" "nodes ?T n = Some nd" using n by (auto simp: at_node_def)
  obtain nd1 where "nodes ?T n = Some nd1" "\<not> isTerminal nd1" "node_state nd1 = None \<longrightarrow> isForked nd1"
    "node_state nd1 = None \<longleftrightarrow> has_kid nd1" "\<forall>s. node_state nd1 = Some s \<longrightarrow> s \<in> states E" using mcts_node [OF inv nt(1)] .
  then have nd: "\<not> isTerminal nd" "node_state nd = None \<longrightarrow> isForked nd" "node_state nd = None \<longleftrightarrow> has_kid nd" "\<forall>s. node_state nd = Some s \<longrightarrow> s \<in> states E"
    using nt(2) by simp_all
  note kd = at_node_kids [OF n]
  have el: "eligible nd (kid_of ?T l) (kid_of ?T r) \<longleftrightarrow> kid_out (kid_of ?T l) \<or> kid_out (kid_of ?T r)"
    using kid_not_terminal [OF inv n, of l] kid_not_terminal [OF inv n, of r] nd(2,3) kd(3) by (intro eligible_iff) simp_all
  have he: "hasEligiableChildren ?T n = Some (kid_out (kid_of ?T l) \<or> kid_out (kid_of ?T r))"
    using nt(2) kd(1,2) el by (simp add: hasEligiableChildren_def)
  show ?thesis
  proof (cases "kid_out (kid_of ?T l) \<or> kid_out (kid_of ?T r)")
    case True
    then have kid: "has_kid nd" using kd(3) by (auto simp: kid_cases)
    then have f: "isForked nd" using nd(2,3) by simp
    obtain m \<sigma>1 T1 where x: "doExpansion C (estate E) n (\<sigma>, ?T) = Some (m, \<sigma>1, T1)" "same_tree ?T T1"
      "outs T1 t \<subseteq> outs ?T t" "children \<sigma>1 = children \<sigma>"
      and m: "m = n \<or> T1 = ?T \<and> m \<in> set_tree t \<and> (\<exists>md s. nodes ?T m = Some md \<and> node_state md = Some s)"
      using doExpansion_ok [OF inv C(1) n f True] by (elim exE conjE)
    define E1 where "E1 = E\<lparr>processTree := T1\<rparr>"
    have step: "select_step C n sel (\<sigma>, E) = select_expanded C n m (\<sigma>1, E1)"
      using nt(2) nd(1) he True x(1) by (simp add: select_step_def E1_def)
    have inv1: "mcts_inv \<sigma>1 E1 t" unfolding E1_def by (rule mcts_inv_same [OF inv x(2,4)])
    from m show ?thesis
    proof
      assume a: "T1 = ?T \<and> m \<in> set_tree t \<and> (\<exists>md s. nodes ?T m = Some md \<and> node_state md = Some s)"
      then obtain md s where md: "nodes (processTree E1) m = Some md" "node_state md = Some s" "m \<in> set_tree t" by (auto simp: E1_def)
      obtain nd2 where "nodes (processTree E1) m = Some nd2" "\<not> isTerminal nd2" "node_state nd2 = None \<longrightarrow> isForked nd2"
        "node_state nd2 = None \<longleftrightarrow> has_kid nd2" "\<forall>s. node_state nd2 = Some s \<longrightarrow> s \<in> states E1" using mcts_node [OF inv1 md(3)] .
      then have "s \<in> states E" using md by (simp add: E1_def)
      moreover obtain \<sigma>2 T2 where "select_expanded C n m (\<sigma>1, E1) = Some (Inl s, \<sigma>2, E1\<lparr>processTree := T2\<rparr>)" "same_tree (processTree E1) T2" "children \<sigma>2 = children \<sigma>1"
        using select_expanded_state [OF inv1 C(2) md(3,1,2), of n] by (elim exE conjE)
      ultimately show ?thesis using step x(2,4) same_tree_trans [OF x(2), of T2]
        by (intro exI [of _ "Inl s"] exI [of _ \<sigma>2] exI [of _ T2]) (simp add: E1_def)
    next
      assume m: "m = n"
      obtain nd' where nd': "nodes T1 n = Some nd'" "clear nd' = clear nd" using same_tree_nodes [OF x(2) nt(2)] .
      note sm = at_node_same [OF n x(2) nd'(1)]
      have hk: "has_kid nd'" using sm(4) kid by simp
      obtain T2 where T2: "mark_kids nd' T1 = Some T2" "same_tree T1 T2" "outs T2 t = outs T1 t - kids nd'"
        using mark_kids_ok [OF kids_nodes [OF sm(1)] hk, of t] by (elim exE conjE)
      have "select_expanded C n m (\<sigma>1, E1) = Some (Inr (n, None), \<sigma>1, E1\<lparr>processTree := T2\<rparr>)"
        using nd'(1) sm(3) nd(3) kid T2(1) by (simp add: select_expanded_def E1_def m)
      moreover have "outs T2 t \<subset> outs ?T t" using outs_kid [OF n True] T2(3) x(3) sm(2) by auto
      ultimately show ?thesis using step x(4) same_tree_trans [OF x(2) T2(2)]
        by (intro exI [of _ "Inr (n, None)"] exI [of _ \<sigma>1] exI [of _ T2]) (simp add: E1_def)
    qed
  next
    case False
    then have f: "\<not> kid_out (kid_of ?T l)" "\<not> kid_out (kid_of ?T r)" by simp_all
    obtain m \<sigma>1 where x: "doSelection C ?T n \<sigma> = Some (m, \<sigma>1)" "children \<sigma>1 = children \<sigma>"
      and m: "if has_kid nd then \<exists>k \<in> {l, r}. \<exists>md. kid_of ?T k = Some (m, md) else m = n"
      using doSelection_ok [OF inv n f, of C] by (elim exE conjE)
    have mt: "m \<in> set_tree t" "has_kid nd \<Longrightarrow> \<exists>k1 k2. Node k1 m k2 \<in> {l, r}"
    proof -
      show "m \<in> set_tree t" using m nt(1) at_node_kid(2) [OF n] by (auto split: if_splits)
      show "\<exists>k1 k2. Node k1 m k2 \<in> {l, r}" if "has_kid nd"
        using m that at_node_kid(4) [OF n] by (simp split: if_splits) blast
    qed
    obtain md where md: "nodes ?T m = Some md" "\<not> isTerminal md" "node_state md = None \<longrightarrow> isForked md"
      "node_state md = None \<longleftrightarrow> has_kid md" "\<forall>s. node_state md = Some s \<longrightarrow> s \<in> states E" using mcts_node [OF inv mt(1)] .
    have step: "select_step C n sel (\<sigma>, E) = select_leaf m (\<sigma>1, E) \<bind> (\<lambda>(res, x). Some (map_sum id (\<lambda>m. (m, sel)) res, x))"
      using nt(2) nd(1) he f x(1) by (simp add: select_step_def)
    have E: "E\<lparr>processTree := ?T\<rparr> = E" by simp
    show ?thesis
    proof (cases "has_kid md")
      case True
      then have "select_step C n sel (\<sigma>, E) = Some (Inr (m, sel), \<sigma>1, E)" using step md(1) by (simp add: select_leaf_def)
      moreover have "has_kid nd" using m md(1) nt(2) True by (cases "has_kid nd") simp_all
      ultimately show ?thesis using x(2) mt(2) by (intro exI [of _ "Inr (m, sel)"] exI [of _ \<sigma>1] exI [of _ ?T]) simp
    next
      case False
      then obtain s where "node_state md = Some s" using md(4) by (cases "node_state md") simp_all
      then have "select_step C n sel (\<sigma>, E) = Some (Inl s, \<sigma>1, E)" "s \<in> states E" using step md False by (simp_all add: select_leaf_def)
      then show ?thesis using x(2) by (intro exI [of _ "Inl s"] exI [of _ \<sigma>1] exI [of _ ?T]) simp
    qed
  qed
qed

lemma at_node_tree:
  assumes "tree_at (nodes T) par p (Node k1 m k2)" "set_tree (Node k1 m k2) \<subseteq> set_tree t"
  shows "\<exists>md. at_node T t m md k1 k2 \<and> p = Some m"
  using assms by (cases "nodes T m") (simp_all add: at_node_def)

lemma at_node_sub:
  assumes "at_node T t n nd l r" "Node k1 m k2 \<in> {l, r}"
  shows "\<exists>md. at_node T t m md k1 k2"
proof -
  obtain p where "tree_at (nodes T) (Some n) p (Node k1 m k2)" using assms by (auto simp: at_node_def)
  moreover have "set_tree (Node k1 m k2) \<subseteq> set_tree t" using assms by (auto simp: at_node_def)
  ultimately show ?thesis using at_node_tree [of T "Some n" p k1 m k2 t] by auto
qed

lemma select_loop_ok:
  assumes C: "finite_program (prog C)" "\<not> enable_simulation C"
  shows "mcts_inv \<sigma> E t \<Longrightarrow> at_node (processTree E) t n nd l r \<Longrightarrow>
    \<exists>s \<sigma>' T'. select_loop C n sel (\<sigma>, E) = Some (s, \<sigma>', E\<lparr>processTree := T'\<rparr>) \<and> s \<in> states E \<and> same_tree (processTree E) T' \<and> children \<sigma>' = children \<sigma>"
proof (induction "(card (outs (processTree E) t), size (Node l n r))" arbitrary: \<sigma> E n nd l r sel rule: less_induct)
  case less
  obtain res \<sigma>1 T1 where st: "select_step C n sel (\<sigma>, E) = Some (res, \<sigma>1, E\<lparr>processTree := T1\<rparr>)" "same_tree (processTree E) T1" "children \<sigma>1 = children \<sigma>"
    and res: "case res of Inl s \<Rightarrow> s \<in> states E
       | Inr (m, _) \<Rightarrow> m = n \<and> outs T1 t \<subset> outs (processTree E) t \<or> T1 = processTree E \<and> (\<exists>k1 k2. Node k1 m k2 \<in> {l, r})"
    using select_step_ok [OF less.prems(1) C less.prems(2), of sel] by (elim exE conjE)
  show ?case
  proof (cases res)
    case (Inl s)
    then have "select_loop C n sel (\<sigma>, E) = Some (s, \<sigma>1, E\<lparr>processTree := T1\<rparr>)" "s \<in> states E"
      using st(1) res by (simp_all add: select_loop.simps [of C n sel])
    then show ?thesis using st(2,3) by (intro exI conjI)
  next
    case (Inr x)
    obtain m sel1 where x: "res = Inr (m, sel1)" using Inr by (cases x) simp
    define E1 where "E1 = E\<lparr>processTree := T1\<rparr>"
    have loop: "select_loop C n sel (\<sigma>, E) = select_loop C m sel1 (\<sigma>1, E1)" using st(1) x by (subst select_loop.simps) (simp add: E1_def)
    have inv1: "mcts_inv \<sigma>1 E1 t" unfolding E1_def by (rule mcts_inv_same [OF less.prems(1) st(2,3)])
    obtain md k1 k2 where next1: "at_node (processTree E1) t m md k1 k2"
      "card (outs T1 t) < card (outs (processTree E) t) \<or> card (outs T1 t) = card (outs (processTree E) t) \<and> size (Node k1 m k2) < size (Node l n r)"
    proof -
      consider "m = n" "outs T1 t \<subset> outs (processTree E) t" | k1 k2 where "T1 = processTree E" "Node k1 m k2 \<in> {l, r}" using res x by auto
      then show ?thesis
      proof cases
        case 1
        obtain nd' where "nodes T1 n = Some nd'" "clear nd' = clear nd"
          using same_tree_nodes [OF st(2)] less.prems(2) unfolding at_node_def by blast
        then show ?thesis using that [of nd' l r] at_node_same(1) [OF less.prems(2) st(2)] 1 psubset_card_mono [OF finite_outs 1(2)]
          by (simp add: E1_def)
      next
        case (2 k1 k2)
        obtain md where "at_node (processTree E) t m md k1 k2" using at_node_sub [OF less.prems(2) 2(2)] by (elim exE)
        then show ?thesis using that [of md k1 k2] 2 by (auto simp: E1_def)
      qed
    qed
    have "\<exists>s \<sigma>' T'. select_loop C m sel1 (\<sigma>1, E1) = Some (s, \<sigma>', E1\<lparr>processTree := T'\<rparr>) \<and> s \<in> states E1 \<and> same_tree (processTree E1) T' \<and> children \<sigma>' = children \<sigma>1"
      by (rule less.hyps [OF _ inv1 next1(1)]) (use next1(2) in \<open>auto simp: E1_def less_prod_def\<close>)
    then obtain s \<sigma>' T' where "select_loop C m sel1 (\<sigma>1, E1) = Some (s, \<sigma>', E1\<lparr>processTree := T'\<rparr>)" "s \<in> states E1" "same_tree T1 T'" "children \<sigma>' = children \<sigma>1"
      by (auto simp: E1_def)
    then show ?thesis using loop st(3) same_tree_trans [OF st(2), of T'] by (intro exI [of _ s] exI [of _ \<sigma>'] exI [of _ T']) (simp add: E1_def)
  qed
qed

lemma selectState_ok:
  assumes C: "finite_program (prog C)" "\<not> enable_simulation C" and inv: "mcts_inv \<sigma> E t" "states E \<noteq> {}"
  shows "\<exists>s \<sigma>' T'. MCTSSearcher__selectState C (\<sigma>, E) = Some (s, \<sigma>', E\<lparr>processTree := T'\<rparr>) \<and> s \<in> states E
    \<and> same_tree (processTree E) T' \<and> children \<sigma>' = children \<sigma>"
proof -
  have c: "set (children \<sigma>) = states E" "live (processTree E) t = states E" "wf_ptree (processTree E) t" using inv(1) by (simp_all add: mcts_inv_def)
  show ?thesis
  proof (cases "\<exists>s. children \<sigma> = [s]")
    case True
    then obtain s where s: "children \<sigma> = [s]" by (elim exE)
    then show ?thesis using c(1) by (intro exI [of _ s] exI [of _ \<sigma>] exI [of _ "processTree E"]) (auto simp: MCTSSearcher__selectState_def)
  next
    case False
    obtain l n r where t: "t = Node l n r" using c(2) inv(2) by (cases t) (auto simp: live_def)
    obtain nd where n: "at_node (processTree E) t n nd l r" "getPointer (root (processTree E)) = Some n"
      using at_node_tree [of "processTree E" None "getPointer (root (processTree E))" l n r t] c(3) unfolding t wf_ptree_def by auto
    have "MCTSSearcher__selectState C (\<sigma>, E) = select_loop C n None (\<sigma>, E)"
      using False c(1) inv(2) n(2) by (auto simp: MCTSSearcher__selectState_def split: list.splits)
    then show ?thesis using select_loop_ok [OF C inv(1) n(1), of None] by simp
  qed
qed

section \<open>Updates keep the searcher and the tree in step\<close>

lemma walks_ok:
  assumes "wf_ptree T t" "s \<in> live T t" "nodes T (ptreeNode T s) = Some nd"
  shows "insert_walk (Some (ptreeNode T s)) (node_parent nd) T = Some ()" "erase_walk (Some (ptreeNode T s)) (node_parent nd) T = Some ()"
proof -
  let ?n = "ptreeNode T s"
  obtain fs nd1 where z: "nodes T ?n = Some nd1" "\<not> has_kid nd1" "ctx_at (nodes T) (getPointer (root T)) (Some ?n) (node_parent nd1) fs" "?n \<notin> ctx_set fs"
    by (rule live_zipper [OF assms(1,2)])
  have nd: "nd1 = nd" using z(1) assms(3) by simp
  have c: "child_ptr ?n (node_parent nd) T = Some (hole_ptr T fs)" using child_ptr_ctx [OF z(3,4)] nd by simp
  have p: "getPointer (hole_ptr T fs) = Some ?n" using z(3) by (cases fs) (auto split: option.splits)
  show "insert_walk (Some ?n) (node_parent nd) T = Some ()" by (simp add: insert_walk.simps [of "Some ?n"] c p)
  show "erase_walk (Some ?n) (node_parent nd) T = Some ()"
  proof (cases fs)
    case Nil
    then have "node_parent nd = None" using z(3) nd by simp
    then show ?thesis using z(1,2) nd c p by (simp add: erase_walk.simps [of "Some ?n"] erase_walk.simps [of None])
  next
    case (Cons f gs)
    then obtain pd where pd: "node_parent nd = Some (fnode f)" "nodes T (fnode f) = Some pd" using z(3) nd by (auto split: option.splits)
    have "has_kid pd" using ctx_at_kid [OF z(3), of f] pd(2) Cons by auto
    then show ?thesis using z(1,2) nd c p pd by (simp add: erase_walk.simps [of "Some ?n"] erase_walk.simps [of "Some (fnode f)"])
  qed
qed

text \<open>The effect of an update after a turn of \<open>s\<close>, with at most one state more or less.\<close>

lemma update_current:
  assumes "nodes T (ptreeNode T s) = Some nd"
  obtains T' where "same_tree T T'" "\<forall>states_of added gone \<sigma>. MCTSSearcher__update states_of (Some s) added gone (\<sigma>, T) =
    mcts_insert states_of False added (\<sigma>\<lparr>current_state := Some s\<rparr>, T') \<bind> mcts_remove gone"
proof -
  let ?T = "set_node (ptreeNode T s) (nd\<lparr>isInMCTSTree := False\<rparr>) T"
  have "same_tree T ?T" using assms by (auto simp: same_tree_def set_node_def clear_def)
  moreover have "\<forall>states_of added gone \<sigma>. MCTSSearcher__update states_of (Some s) added gone (\<sigma>, T) =
    mcts_insert states_of False added (\<sigma>\<lparr>current_state := Some s\<rparr>, ?T) \<bind> mcts_remove gone"
    using assms by (simp add: MCTSSearcher__update_def Let_def)
  ultimately show ?thesis by (rule that)
qed

text \<open>Nodes that agree in what the searcher relies on.\<close>

definition same_flags :: "pTreeNode option \<Rightarrow> pTreeNode option \<Rightarrow> bool" where
  "same_flags x y \<longleftrightarrow> (case (x, y) of (Some a, Some b) \<Rightarrow> isTerminal b = isTerminal a \<and> isForked b = isForked a \<and> node_state b = node_state a | _ \<Rightarrow> False)"

lemma set_slot_flags [simp]: "isTerminal (set_slot f c nd) = isTerminal nd" "isForked (set_slot f c nd) = isForked nd"
  by (cases f; simp)+

lemma remove_marks:
  assumes w: "wf_ptree T t" and s: "s \<in> live T t" "live T t \<noteq> {s}"
  shows "\<exists>T' t'. PTree__remove compress (ptreeNode T s) T = Some T' \<and> wf_ptree T' t' \<and> live T' t' = live T t - {s}
    \<and> (\<forall>m \<in> set_tree t'. m \<noteq> ptreeNode T s \<and> m \<in> set_tree t \<and> same_flags (nodes T m) (nodes T' m))"
proof -
  let ?n = "ptreeNode T s"
  obtain fs nd where z: "t = plug (Node Leaf ?n Leaf) fs" "nodes T ?n = Some nd"
    "node_state nd = Some s" "\<not> has_kid nd"
    "ctx_at (nodes T) (getPointer (root T)) (Some ?n) (node_parent nd) fs"
    "distinct_ctx fs" "?n \<notin> ctx_set fs" using live_zipper [OF w s(1)] .
  obtain f gs where st: "staying fs = f # gs"
    using staying_live [OF w [unfolded z(1)] z(2,3,5)] s(2) z(1) by (cases "staying fs") auto
  have t: "tree_at (nodes T) None (getPointer (root T)) (plug (Node Leaf ?n Leaf) fs)" using w by (simp add: wf_ptree_def z(1))
  define T' where "T' = removed compress ?n fs T"
  define t' where "t' = rest_tree compress fs"
  have rm: "PTree__remove compress ?n T = Some T'" "wf_ptree T' t' \<and> live T' t' = live T t - {s}"
    unfolding T'_def t'_def using remove_eq [OF t z(6,7,2,4,5)] removed_wf [OF w [unfolded z(1)] z(2,3,5) st] z(1) by simp_all
  have "ctx_set fs = ctx_set (dying fs) \<union> ctx_set (f # gs)" using dying_staying [of fs] st ctx_set_append [of "dying fs" "f # gs"] by simp
  moreover have "set_tree t' \<subseteq> ctx_set (f # gs)" by (auto simp: t'_def rest_tree_def st set_plug)
  ultimately have sub: "set_tree t' \<subseteq> ctx_set fs" by blast
  obtain pd l q r cd where x: "nodes T (fnode f) = Some pd" "sibling f = Node l q r" "nodes T q = Some cd"
    and y1: "\<forall>m \<in> set_tree l \<union> set_tree r. nodes T' m = nodes T m"
    and y2: "\<forall>m \<in> ctx_set gs. \<not> compress \<or> m \<noteq> fnode (hd gs) \<longrightarrow> nodes T' m = nodes T m"
    and y3: "nodes T' q = Some (if compress then cd\<lparr>node_parent := node_parent pd\<rparr> else cd)"
    and y4: "\<not> compress \<longrightarrow> nodes T' (fnode f) = Some (set_slot f null_ptr pd)"
    and y5: "compress \<longrightarrow> gs \<noteq> [] \<longrightarrow> nodes T' (fnode (hd gs)) = map_option (set_slot (hd gs) (other_slot f pd)) (nodes T (fnode (hd gs)))"
    unfolding T'_def by (rule removed_nodes [OF t z(6,7) st, of compress])
  have "same_flags (nodes T m) (nodes T' m)" if m: "m \<in> set_tree t'" for m
  proof -
    have "m \<in> set_tree t" using sub m by (auto simp: z(1) set_plug)
    then obtain md where md: "nodes T m = Some md" using w by (auto simp: wf_ptree_def node_ok_def split: option.splits)
    consider "m \<in> set_tree l \<union> set_tree r" | "m = q" | "m \<in> ctx_set gs" "\<not> compress \<or> m \<noteq> fnode (hd gs)"
      | "compress" "gs \<noteq> []" "m = fnode (hd gs)" | "\<not> compress" "m = fnode f"
      using m by (cases gs) (auto simp: t'_def rest_tree_def st set_plug x(2) split: if_splits)
    then show ?thesis using x y1 y2 y3 y4 y5 md by cases (auto simp: same_flags_def)
  qed
  moreover have "m \<noteq> ?n \<and> m \<in> set_tree t" if "m \<in> set_tree t'" for m using sub that z(7) by (auto simp: z(1) set_plug)
  ultimately show ?thesis using rm by (intro exI [of _ T'] exI [of _ t']) simp
qed

lemma mcts_nodes_flags:
  assumes "mcts_nodes T t" "\<forall>m \<in> set_tree t'. m \<in> set_tree t \<and> same_flags (nodes T m) (nodes T' m)"
  shows "mcts_nodes T' t'"
  unfolding mcts_nodes_def
proof
  fix m assume m: "m \<in> set_tree t'"
  then have mt: "m \<in> set_tree t" "same_flags (nodes T m) (nodes T' m)" using assms(2) by simp_all
  obtain md where md: "nodes T m = Some md" "\<not> isTerminal md" "node_state md = None \<longrightarrow> isForked md"
    using bspec [OF assms(1) [unfolded mcts_nodes_def] mt(1)] by (elim exE conjE)
  then obtain md' where "nodes T' m = Some md'" using mt(2) by (cases "nodes T' m") (simp_all add: same_flags_def)
  then show "\<exists>nd. nodes T' m = Some nd \<and> \<not> isTerminal nd \<and> (node_state nd = None \<longrightarrow> isForked nd)"
    using md mt(2) by (intro exI [of _ md']) (simp add: same_flags_def)
qed

lemma attach_nodes:
  assumes "PTree__attach n s' s T = Some T'" "nodes T n = Some nd" "n < brk T"
  shows "\<exists>x. nodes T' n = Some x \<and> isTerminal x = isTerminal nd \<and> isForked x = isForked nd"
    "nodes T' (brk T) = Some (new_node (Some n) s')" "nodes T' (Suc (brk T)) = Some (new_node (Some n) s)"
    "m \<noteq> n \<Longrightarrow> m < brk T \<Longrightarrow> nodes T' m = nodes T m" "ptreeNode T' = (ptreeNode T)(s' := brk T, s := Suc (brk T))"
  using assms by (auto simp: PTree__attach_def PTreeNode__PTreeNode_def set_node_def Let_def bind_eq_Some_conv)

lemma attach_marks:
  assumes w: "wf_ptree T t" "mcts_nodes T t" and s: "s \<in> live T t" "a \<notin> live T t" "a \<noteq> s"
    and nd: "nodes T (ptreeNode T s) = Some nd" "isForked nd"
  shows "\<exists>T' t'. PTree__attach (ptreeNode T s) a s T = Some T' \<and> wf_ptree T' t' \<and> live T' t' = insert a (live T t) \<and> mcts_nodes T' t'"
proof -
  let ?n = "ptreeNode T s" and ?b = "brk T"
  obtain T' fs nd1 where x: "PTree__attach ?n a s T = Some T'" "T' = attached ?n nd1 a s (hole_ptr T fs) T"
    "t = plug (Node Leaf ?n Leaf) fs" "?n < ?b" "\<forall>m \<in> ctx_set fs. m < ?b"
    "wf_ptree T' (plug (Node (Node Leaf ?b Leaf) ?n (Node Leaf (Suc ?b) Leaf)) fs)"
    "live T' (plug (Node (Node Leaf ?b Leaf) ?n (Node Leaf (Suc ?b) Leaf)) fs) = insert a (live T t)"
    using attach_ok [OF w(1) s] .
  let ?t = "plug (Node (Node Leaf ?b Leaf) ?n (Node Leaf (Suc ?b) Leaf)) fs"
  note an = attach_nodes [OF x(1) nd(1) x(4)]
  have nt: "\<not> isTerminal nd"
  proof -
    have "?n \<in> set_tree t" by (simp add: x(3) set_plug)
    from bspec [OF w(2) [unfolded mcts_nodes_def] this] show ?thesis using nd(1) by auto
  qed
  have "\<exists>md. nodes T' m = Some md \<and> \<not> isTerminal md \<and> (node_state md = None \<longrightarrow> isForked md)" if m: "m \<in> set_tree ?t" for m
  proof -
    consider "m = ?n" | "m = ?b" | "m = Suc ?b" | "m \<in> ctx_set fs" "m \<noteq> ?n" using m by (auto simp: set_plug)
    then show ?thesis
    proof cases
      case 1
      then show ?thesis using an(1) nt nd(2) by auto
    next
      case 4
      then have "nodes T' m = nodes T m" "m \<in> set_tree t" using an(4) [of m] x(5) by (auto simp: x(3) set_plug)
      then show ?thesis using bspec [OF w(2) [unfolded mcts_nodes_def], of m] by simp
    qed (simp_all add: an(2,3) new_node_def)
  qed
  then have "mcts_nodes T' ?t" unfolding mcts_nodes_def by blast
  with x(1,6,7) show ?thesis by (intro exI [of _ T'] exI [of _ ?t]) simp
qed

lemma mcts_insert_ok:
  assumes "wf_ptree T t" "\<forall>a \<in> set as. states_of a \<noteq> None \<and> a \<in> live T t"
  shows "\<exists>\<sigma>'. mcts_insert states_of False as (\<sigma>, T) = Some (\<sigma>', T) \<and> children \<sigma>' = children \<sigma> @ as"
  using assms(2)
proof (induction as arbitrary: \<sigma>)
  case (Cons a as)
  then obtain es where es: "states_of a = Some es" "a \<in> live T t" by auto
  obtain nd where nd: "nodes T (ptreeNode T a) = Some nd" by (rule live_ptreeNode [OF assms(1) es(2)])
  let ?\<sigma> = "\<sigma>\<lparr>children := children \<sigma> @ [a]\<rparr>"
  have "mcts_insert states_of False (a # as) (\<sigma>, T) = mcts_insert states_of False as (?\<sigma>, T)"
    using es(1) nd walks_ok(1) [OF assms(1) es(2) nd] by simp
  moreover obtain \<sigma>' where "mcts_insert states_of False as (?\<sigma>, T) = Some (\<sigma>', T)" "children \<sigma>' = children ?\<sigma> @ as"
    using Cons.IH [of ?\<sigma>] Cons.prems by (auto simp del: mctsSearcher.select_convs)
  ultimately show ?case by (intro exI [of _ \<sigma>']) simp
qed simp

lemma mark_current:
  assumes "wf_ptree T t" "s \<in> live T t"
  obtains T' where "mark (ptreeNode T s) T = Some T'" "same_tree T T'"
proof -
  obtain nd where nd: "nodes T (ptreeNode T s) = Some nd" by (rule live_ptreeNode [OF assms])
  show ?thesis by (rule mark_ok [OF nd]) (rule that)
qed

lemma end_turn_added:
  assumes w: "wf_ptree (processTree E) t" "s \<in> live (processTree E) t" "\<forall>a \<in> set (addedStates E). estate E a \<noteq> None \<and> a \<in> live (processTree E) t"
    and E: "\<not> is_simulation_mode E" "removedStates E = []" "suspendedStates E = []" "resumedStates E = []"
  shows "\<exists>\<sigma>' T'. end_turn C s \<sigma> E = Some (\<sigma>', E\<lparr>processTree := T', states := states E \<union> set (addedStates E), addedStates := []\<rparr>)
    \<and> same_tree (processTree E) T' \<and> children \<sigma>' = children \<sigma> @ addedStates E"
proof -
  obtain T1 where T1: "mark (ptreeNode (processTree E) s) (processTree E) = Some T1" "same_tree (processTree E) T1" using mark_current [OF w(1,2)] .
  have w1: "wf_ptree T1 t" "live T1 t = live (processTree E) t" using wf_same_tree [OF T1(2)] w(1) by simp_all
  obtain nd where nd: "nodes T1 (ptreeNode T1 s) = Some nd" by (rule live_ptreeNode [OF w1(1), of s]) (use w1(2) w(2) in simp_all)
  obtain T2 where T2: "same_tree T1 T2" "\<forall>states_of added gone \<sigma>. MCTSSearcher__update states_of (Some s) added gone (\<sigma>, T1) =
    mcts_insert states_of False added (\<sigma>\<lparr>current_state := Some s\<rparr>, T2) \<bind> mcts_remove gone" using update_current [OF nd] .
  have w2: "wf_ptree T2 t" "live T2 t = live (processTree E) t" using wf_same_tree [OF T2(1)] w1 by simp_all
  obtain \<sigma>' where i: "mcts_insert (estate E) False (addedStates E) (\<sigma>\<lparr>current_state := Some s\<rparr>, T2) = Some (\<sigma>', T2)" "children \<sigma>' = children \<sigma> @ addedStates E"
    using mcts_insert_ok [OF w2(1), of "addedStates E" "estate E" "\<sigma>\<lparr>current_state := Some s\<rparr>"] w(3) w2(2) by auto
  have "end_turn C s \<sigma> E = Some (\<sigma>', E\<lparr>processTree := T2, suspendedStates := [], resumedStates := [],
      states := states E \<union> set (addedStates E), addedStates := [], removedStates := []\<rparr>)"
    using E T1(1) T2(2) i(1) by (simp add: end_turn_def updateStates_def)
  moreover have "E\<lparr>processTree := T2, suspendedStates := [], resumedStates := [], states := states E \<union> set (addedStates E), addedStates := [], removedStates := []\<rparr>
      = E\<lparr>processTree := T2, states := states E \<union> set (addedStates E), addedStates := []\<rparr>"
    using E by (intro executor.equality) simp_all
  ultimately show ?thesis using i(2) same_tree_trans [OF T1(2) T2(1)] by (intro exI [of _ \<sigma>'] exI [of _ T2]) simp
qed

text \<open>The three kinds of turns keep the invariant.\<close>

lemma mcts_inv_facts:
  assumes "mcts_inv \<sigma> E t"
  shows "wf_ptree (processTree E) t" "live (processTree E) t = states E" "mcts_nodes (processTree E) t" "distinct (children \<sigma>)" "set (children \<sigma>) = states E"
    "finite (states E)" "\<forall>s \<ge> estate_brk E. estate E s = None" "addedStates E = []" "removedStates E = []" "suspendedStates E = []" "resumedStates E = []"
    "\<not> is_simulation_mode E" "memoryOperationInstructionSet E = {}"
    "\<forall>s \<in> states E. \<exists>es. estate E s = Some es \<and> es_type es = NORMAL_STATE \<and> \<not> suspendStatus es"
proof -
  show "\<forall>s \<in> states E. \<exists>es. estate E s = Some es \<and> es_type es = NORMAL_STATE \<and> \<not> suspendStatus es"
    using assms by (fastforce simp: mcts_inv_def wf_executor_def)
qed (use assms in \<open>simp_all add: mcts_inv_def wf_executor_def\<close>)

text \<open>A state may change its instruction.\<close>

lemma set_estate_inv:
  assumes inv: "mcts_inv \<sigma> E t" "estate E s = Some es" and es: "es_type es' = es_type es" "suspendStatus es' = suspendStatus es"
  shows "mcts_inv \<sigma> (set_estate s es' E) t"
proof -
  note f = mcts_inv_facts [OF inv(1)]
  have "s < estate_brk E" using f(7) inv(2) by (metis not_less option.distinct(1))
  then have "wf_executor (set_estate s es' E)" using f inv(2) es by (auto simp: wf_executor_def set_estate_def)
  moreover have "\<forall>x \<in> states E. \<exists>es. estate (set_estate s es' E) x = Some es \<and> \<not> suspendStatus es"
    using f(14) inv(2) es by (auto simp: set_estate_def)
  ultimately show ?thesis using f by (simp add: mcts_inv_def set_estate_def)
qed

lemma stepInstruction_inv:
  assumes inv: "mcts_inv \<sigma> E t" "s \<in> states E"
  shows "\<exists>E1. stepInstruction s E = Some E1 \<and> mcts_inv \<sigma> E1 t \<and> states E1 = states E"
proof -
  obtain es where es: "estate E s = Some es" "es_type es = NORMAL_STATE" using mcts_inv_facts(14) [OF inv(1)] inv(2) by auto
  then show ?thesis using set_estate_inv [OF inv(1) es(1), of "es\<lparr>es_prevPC := es_pc es, es_pc := es_pc es + 1\<rparr>"]
    by (simp add: stepInstruction_def) (simp add: set_estate_def)
qed

lemma transferTo_inv:
  assumes inv: "mcts_inv \<sigma> E t" "s \<in> states E"
  shows "\<exists>E1. transferTo pc s E = Some E1 \<and> mcts_inv \<sigma> E1 t \<and> states E1 = states E"
proof -
  obtain es where es: "estate E s = Some es" using mcts_inv_facts(14) [OF inv(1)] inv(2) by auto
  then show ?thesis using set_estate_inv [OF inv(1) es, of "es\<lparr>es_pc := pc\<rparr>"]
    by (simp add: transferTo_def) (simp add: set_estate_def)
qed

lemma end_turn_inv:
  assumes inv: "mcts_inv \<sigma> E t" "s \<in> states E"
  shows "\<exists>\<sigma>' E'. end_turn C s \<sigma> E = Some (\<sigma>', E') \<and> mcts_inv \<sigma>' E' t"
proof -
  note f = mcts_inv_facts [OF inv(1)]
  obtain \<sigma>' T' where e: "end_turn C s \<sigma> E = Some (\<sigma>', E\<lparr>processTree := T', states := states E \<union> set (addedStates E), addedStates := []\<rparr>)"
    "same_tree (processTree E) T'" "children \<sigma>' = children \<sigma> @ addedStates E"
    using end_turn_added [of E t s C \<sigma>] f inv(2) by auto
  have "E\<lparr>processTree := T', states := states E \<union> set (addedStates E), addedStates := []\<rparr> = E\<lparr>processTree := T'\<rparr>"
    using f(8) by (intro executor.equality) simp_all
  moreover have "mcts_inv \<sigma>' (E\<lparr>processTree := T'\<rparr>) t" by (rule mcts_inv_same [OF inv(1) e(2)]) (simp add: e(3) f(8))
  ultimately show ?thesis using e(1) by (intro exI conjI) simp_all
qed

lemma fork_turn:
  assumes inv: "mcts_inv \<sigma> E t" "s \<in> states E"
  shows "\<exists>\<sigma>' E' t'. (execute C (Branch pc pc') s E \<bind> end_turn C s \<sigma>) = Some (\<sigma>', E') \<and> mcts_inv \<sigma>' E' t'"
proof -
  note f = mcts_inv_facts [OF inv(1)]
  let ?T = "processTree E" and ?a = "estate_brk E"
  obtain es where es: "estate E s = Some es" "es_type es = NORMAL_STATE" "\<not> suspendStatus es" using f(14) inv(2) by auto
  obtain nd where nd: "ptreeNode ?T s \<in> set_tree t" "nodes ?T (ptreeNode ?T s) = Some nd"
    by (rule live_ptreeNode [OF f(1), of s]) (use f(2) inv(2) in simp_all)
  have a: "?a \<notin> states E" using f(7,14) by fastforce
  have sa: "s \<noteq> ?a" using a inv(2) by auto
  define T1 where "T1 = set_node (ptreeNode ?T s) (nd\<lparr>isForked := True\<rparr>) ?T"
  have l: "\<forall>m \<in> set_tree t. same_links (nodes ?T m) (nodes T1 m)" using nd(2) by (auto simp: T1_def set_node_def same_links_def intro: option.rel_refl)
  have w1: "wf_ptree T1 t" "live T1 t = states E" using wf_ptree_links [OF l] f(1,2) by (simp_all add: T1_def set_node_def)
  have n1: "nodes T1 (ptreeNode T1 s) = Some (nd\<lparr>isForked := True\<rparr>)" by (simp add: T1_def set_node_def)
  have "\<not> isTerminal nd" using bspec [OF f(3) [unfolded mcts_nodes_def] nd(1)] nd(2) by auto
  then have m1: "mcts_nodes T1 t" using f(3) nd(2) by (simp add: mcts_nodes_def T1_def set_node_def)
  have "s \<in> live T1 t" "?a \<notin> live T1 t" "?a \<noteq> s" using w1(2) inv(2) a by auto
  from attach_marks [OF w1(1) m1 this n1] obtain T2 t' where T2: "PTree__attach (ptreeNode T1 s) ?a s T1 = Some T2" "wf_ptree T2 t'"
    "live T2 t' = insert ?a (live T1 t)" "mcts_nodes T2 t'" by auto
  define E1 where "E1 = E\<lparr>estate_brk := ?a + 1, addedStates := [?a], estate := (estate E)(?a \<mapsto> es\<lparr>es_pc := pc'\<rparr>, s \<mapsto> es\<lparr>es_pc := pc\<rparr>), processTree := T2\<rparr>"
  let ?E0 = "E\<lparr>estate_brk := ?a + 1, addedStates := [?a], estate := (estate E)(?a \<mapsto> es), processTree := T2\<rparr>"
  have "fork_state s E = Some (?a, ?E0)"
    using es(1,2) f(8,12) nd(2) T2(1) by (simp add: fork_state_def set_estate_def T1_def [symmetric]) (simp add: T1_def set_node_def Let_def)
  moreover have "(transferTo pc s ?E0 \<bind> transferTo pc' ?a) = Some E1"
    using es(1) sa by (simp add: transferTo_def set_estate_def E1_def fun_upd_twist)
  ultimately have fork: "execute C (Branch pc pc') s E = Some E1" by simp
  have added: "\<forall>a \<in> set (addedStates E1). estate E1 a \<noteq> None \<and> a \<in> live (processTree E1) t'" using T2(3) sa by (simp add: E1_def)
  have "s < ?a" using f(7) es(1) by (metis not_less option.distinct(1))
  have "wf_ptree (processTree E1) t'" "s \<in> live (processTree E1) t'" "\<not> is_simulation_mode E1" "removedStates E1 = []"
    "suspendedStates E1 = []" "resumedStates E1 = []" using f inv(2) T2(2,3) w1(2) by (simp_all add: E1_def)
  from end_turn_added [OF this(1,2) added this(3-6), of C \<sigma>]
  obtain \<sigma>' T' where e: "end_turn C s \<sigma> E1 = Some (\<sigma>', E1\<lparr>processTree := T', states := states E1 \<union> set (addedStates E1), addedStates := []\<rparr>)"
    "same_tree (processTree E1) T'" "children \<sigma>' = children \<sigma> @ addedStates E1" by (elim exE conjE)
  let ?E = "E1\<lparr>processTree := T', states := states E1 \<union> set (addedStates E1), addedStates := []\<rparr>"
  have same: "same_tree T2 T'" using e(2) by (simp add: E1_def)
  have "wf_executor ?E" using f es a \<open>s < ?a\<close> by (auto simp: wf_executor_def E1_def)
  moreover have "\<forall>x \<in> insert ?a (states E). \<exists>es. estate ?E x = Some es \<and> \<not> suspendStatus es"
    using f(14) es a by (auto simp: E1_def)
  ultimately have "mcts_inv \<sigma>' ?E t'"
    using f e(3) wf_same_tree [OF same, of t'] mcts_nodes_same [OF same T2(4)] T2(2,3) w1(2) a by (auto simp: mcts_inv_def E1_def)
  then show ?thesis using fork e(1) by (intro exI [of _ \<sigma>'] exI [of _ ?E] exI [of _ t']) simp
qed

text \<open>The update after the end of \<open>s\<close>: the searcher forgets it, and its node is removed.\<close>

lemma end_turn_removed:
  assumes w: "wf_ptree (processTree E) t" "live (processTree E) t = states E" "s \<in> states E" "s \<in> set (children \<sigma>)"
    and E: "\<not> is_simulation_mode E" "removedStates E = [s]" "suspendedStates E = []" "resumedStates E = []" "addedStates E = []"
    and es: "estate E s = Some es" "es_type es = NORMAL_STATE" "\<not> suspendStatus es"
  obtains \<sigma>' T' T3 where "end_turn C s \<sigma> E = Some (\<sigma>', E\<lparr>processTree := T', states := states E - {s}, estate := (estate E)(s := None), removedStates := []\<rparr>)"
    "same_tree (processTree E) T3" "PTree__remove (compressProcessTree C) (ptreeNode T3 s) T3 = Some T'" "children \<sigma>' = remove1 s (children \<sigma>)"
proof -
  have s: "s \<in> live (processTree E) t" using w(2,3) by simp
  obtain T1 where T1: "mark (ptreeNode (processTree E) s) (processTree E) = Some T1" "same_tree (processTree E) T1" using mark_current [OF w(1) s] .
  have w1: "wf_ptree T1 t" "live T1 t = states E" using wf_same_tree [OF T1(2)] w(1,2) by simp_all
  obtain nd where nd: "nodes T1 (ptreeNode T1 s) = Some nd" by (rule live_ptreeNode [OF w1(1), of s]) (use w1(2) w(3) in simp_all)
  obtain T3 where T3: "same_tree T1 T3" "\<forall>states_of added gone \<sigma>. MCTSSearcher__update states_of (Some s) added gone (\<sigma>, T1) =
    mcts_insert states_of False added (\<sigma>\<lparr>current_state := Some s\<rparr>, T3) \<bind> mcts_remove gone" using update_current [OF nd] .
  have w3: "wf_ptree T3 t" "live T3 t = states E" using wf_same_tree [OF T3(1)] w1 by simp_all
  obtain nd3 where nd3: "nodes T3 (ptreeNode T3 s) = Some nd3" "\<not> has_kid nd3" by (rule live_ptreeNode [OF w3(1), of s]) (use w3(2) w(3) in simp_all)
  obtain T' where T': "PTree__remove (compressProcessTree C) (ptreeNode T3 s) T3 = Some T'"
    using remove_ok [OF w3(1), of s "compressProcessTree C"] remove_last [OF w3(1), of s "compressProcessTree C"] w3(2) w(3) by (cases "states E = {s}") auto
  let ?\<sigma> = "\<sigma>\<lparr>current_state := Some s, children := remove1 s (children \<sigma>)\<rparr>"
  have rm: "mcts_remove [s] (\<sigma>\<lparr>current_state := Some s\<rparr>, T3) = Some (?\<sigma>, T3)"
    using w(4) nd3(1) walks_ok(2) [OF w3(1) _ nd3(1)] w3(2) w(3) by simp
  have "end_turn C s \<sigma> E = Some (?\<sigma>, E\<lparr>processTree := T', suspendedStates := [], resumedStates := [], states := states E - {s},
      addedStates := [], estate := (estate E)(s := None), removedStates := []\<rparr>)"
    using E T1(1) T3(2) rm es w(3) nd3 T' by (simp add: end_turn_def updateStates_def)
  moreover have "E\<lparr>processTree := T', suspendedStates := [], resumedStates := [], states := states E - {s},
      addedStates := [], estate := (estate E)(s := None), removedStates := []\<rparr> = E\<lparr>processTree := T', states := states E - {s}, estate := (estate E)(s := None), removedStates := []\<rparr>"
    using E by (intro executor.equality) simp_all
  ultimately show ?thesis using that [OF _ same_tree_trans [OF T1(2) T3(1)] T'] by simp
qed

lemma exit_turn:
  assumes inv: "mcts_inv \<sigma> E t" "s \<in> states E"
  shows "\<exists>\<sigma>' E'. (terminateState P R c s E \<bind> end_turn C s \<sigma>) = Some (\<sigma>', E') \<and> set (children \<sigma>') = states E' \<and> (states E' = {} \<or> (\<exists>t'. mcts_inv \<sigma>' E' t'))"
proof -
  note f = mcts_inv_facts [OF inv(1)]
  let ?T = "processTree E" and ?n = "ptreeNode (processTree E) s"
  obtain es where es: "estate E s = Some es" "es_type es = NORMAL_STATE" "\<not> suspendStatus es" using f(14) inv(2) by auto
  obtain nd where nd: "?n \<in> set_tree t" "nodes ?T ?n = Some nd" by (rule live_ptreeNode [OF f(1), of s]) (use f(2) inv(2) in simp_all)
  define T1 where "T1 = set_node ?n (nd\<lparr>isTerminal := True\<rparr>) ?T"
  define es' where "es' = es\<lparr>es_pc := es_prevPC es\<rparr>"
  define E1 where "E1 = E\<lparr>removedStates := [s], estate := (estate E)(s \<mapsto> es'), processTree := T1\<rparr>"
  have ter: "terminateState P R c s E = Some E1"
    using es f(8,9,12) nd(2) by (simp add: terminateState_def terminateState_base_def set_estate_def E1_def T1_def es'_def)
  have l: "\<forall>m \<in> set_tree t. same_links (nodes ?T m) (nodes T1 m)" using nd(2) by (auto simp: T1_def set_node_def same_links_def intro: option.rel_refl)
  have w1: "wf_ptree T1 t" "live T1 t = states E" using wf_ptree_links [OF l] f(1,2) by (simp_all add: T1_def set_node_def)
  obtain \<sigma>' T' T3 where e: "end_turn C s \<sigma> E1 = Some (\<sigma>', E1\<lparr>processTree := T', states := states E1 - {s}, estate := (estate E1)(s := None), removedStates := []\<rparr>)"
    "same_tree (processTree E1) T3" "PTree__remove (compressProcessTree C) (ptreeNode T3 s) T3 = Some T'" "children \<sigma>' = remove1 s (children \<sigma>)"
    by (rule end_turn_removed [of E1 t s \<sigma> es' C]) (use w1 f es inv(2) in \<open>simp_all add: E1_def es'_def\<close>)
  let ?E = "E1\<lparr>processTree := T', states := states E1 - {s}, estate := (estate E1)(s := None), removedStates := []\<rparr>"
  have same: "same_tree T1 T3" using e(2) by (simp add: E1_def)
  have c: "set (children \<sigma>') = states ?E" "distinct (children \<sigma>')" using e(4) f(4,5) by (simp_all add: E1_def)
  have "\<exists>t'. mcts_inv \<sigma>' ?E t'" if ne: "states ?E \<noteq> {}"
  proof -
    have w3: "wf_ptree T3 t" "live T3 t = states E" using wf_same_tree [OF same, of t] w1 by simp_all
    have "live T3 t \<noteq> {s}" "s \<in> live T3 t" using ne w3(2) inv(2) by (auto simp: E1_def)
    from remove_marks [OF w3(1) this(2,1), of "compressProcessTree C"] e(3) obtain t' where t': "wf_ptree T' t'" "live T' t' = states E - {s}"
      "\<forall>m \<in> set_tree t'. m \<noteq> ptreeNode T3 s \<and> m \<in> set_tree t \<and> same_flags (nodes T3 m) (nodes T' m)" using w3(2) by auto
    have "same_flags (nodes ?T m) (nodes T' m)" "m \<in> set_tree t" if m: "m \<in> set_tree t'" for m
    proof -
      have "m \<noteq> ?n" using t'(3) m same_tree_fields(2) [OF same] by (auto simp: T1_def set_node_def)
      show mt: "m \<in> set_tree t" using t'(3) m by simp
      obtain md where md: "nodes ?T m = Some md" using bspec [OF f(3) [unfolded mcts_nodes_def] mt] by (elim exE conjE)
      have "nodes T1 m = Some md" using md \<open>m \<noteq> ?n\<close> by (simp add: T1_def set_node_def)
      then obtain md' where md': "nodes T3 m = Some md'" "clear md' = clear md" by (rule same_tree_nodes [OF same])
      have fl: "isTerminal md' = isTerminal md" "isForked md' = isForked md" "node_state md' = node_state md" by (rule clear_eqD(5) [OF md'(2)], rule clear_eqD(6) [OF md'(2)], rule clear_eqD(4) [OF md'(2)])
      have "same_flags (Some md') (nodes T' m)" using bspec [OF t'(3) m] md'(1) by simp
      then have "same_flags (Some md) (nodes T' m)" by (cases "nodes T' m") (simp_all add: same_flags_def fl)
      then show "same_flags (nodes ?T m) (nodes T' m)" using md by simp
    qed
    then have "mcts_nodes T' t'" using mcts_nodes_flags [OF f(3), of t' T'] by simp
    moreover have "wf_executor ?E" using f es by (auto simp: wf_executor_def E1_def)
    moreover have "\<forall>x \<in> states E - {s}. \<exists>es. estate ?E x = Some es \<and> \<not> suspendStatus es" using f(14) by (auto simp: E1_def)
    ultimately have "mcts_inv \<sigma>' ?E t'" using c t'(1,2) by (simp add: mcts_inv_def E1_def)
    then show ?thesis by (rule exI)
  qed
  then show ?thesis using ter e(1) c(1) by (intro exI [of _ \<sigma>'] exI [of _ ?E]) auto
qed

section \<open>Runs\<close>

lemma execute_turn:
  assumes inv: "mcts_inv \<sigma> E t" "s \<in> states E"
  shows "\<exists>\<sigma>' E'. (execute C a s E \<bind> end_turn C s \<sigma>) = Some (\<sigma>', E') \<and> set (children \<sigma>') = states E' \<and> (states E' = {} \<or> (\<exists>t'. mcts_inv \<sigma>' E' t'))"
proof -
  have kept: "set (children \<sigma>') = states E'" if "mcts_inv \<sigma>' E' t'" for \<sigma>' E' t' using mcts_inv_facts(5) [OF that] .
  show ?thesis
  proof (cases a)
    case Fall
    obtain \<sigma>' E' where "end_turn C s \<sigma> E = Some (\<sigma>', E')" "mcts_inv \<sigma>' E' t" using end_turn_inv [OF inv, of C] by (elim exE conjE)
    then show ?thesis using Fall kept by (intro exI [of _ \<sigma>'] exI [of _ E']) auto
  next
    case (Jump pc)
    obtain E2 where E2: "transferTo pc s E = Some E2" "mcts_inv \<sigma> E2 t" "states E2 = states E" using transferTo_inv [OF inv, of pc] by (elim exE conjE)
    obtain \<sigma>' E' where "end_turn C s \<sigma> E2 = Some (\<sigma>', E')" "mcts_inv \<sigma>' E' t" using end_turn_inv [OF E2(2), of s C] E2(3) inv(2) by auto
    then show ?thesis using Jump E2(1) kept by (intro exI [of _ \<sigma>'] exI [of _ E']) auto
  next
    case (Branch pc pc')
    obtain \<sigma>' E' t' where "(execute C (Branch pc pc') s E \<bind> end_turn C s \<sigma>) = Some (\<sigma>', E')" "mcts_inv \<sigma>' E' t'" using fork_turn [OF inv, of C pc pc'] by (elim exE conjE)
    then show ?thesis unfolding Branch using kept by (intro exI [of _ \<sigma>'] exI [of _ E']) auto
  next
    case Exit
    then show ?thesis using exit_turn [OF inv] by simp
  qed
qed

lemma mcts_turn_ok:
  assumes C: "finite_program (prog C)" "\<not> enable_simulation C" and inv: "mcts_inv \<sigma> E t" "states E \<noteq> {}"
  shows "\<exists>\<sigma>' E'. mcts_turn C a (\<sigma>, E) = Some (\<sigma>', E') \<and> set (children \<sigma>') = states E' \<and> (states E' = {} \<or> (\<exists>t'. mcts_inv \<sigma>' E' t'))"
proof -
  obtain s \<sigma>1 T1 where sel: "MCTSSearcher__selectState C (\<sigma>, E) = Some (s, \<sigma>1, E\<lparr>processTree := T1\<rparr>)" "s \<in> states E"
    "same_tree (processTree E) T1" "children \<sigma>1 = children \<sigma>" using selectState_ok [OF C inv] by (elim exE conjE)
  define E1 where "E1 = E\<lparr>processTree := T1\<rparr>"
  have inv1: "mcts_inv \<sigma>1 E1 t" "s \<in> states E1" unfolding E1_def using mcts_inv_same [OF inv(1) sel(3,4)] sel(2) by simp_all
  obtain E2 where E2: "stepInstruction s E1 = Some E2" "mcts_inv \<sigma>1 E2 t" "states E2 = states E1" using stepInstruction_inv [OF inv1] by (elim exE conjE)
  obtain es where "estate E1 s = Some es" "\<not> is_simulation_mode E1" using mcts_inv_facts(12,14) [OF inv1(1)] inv1(2) by auto
  then have "mcts_turn C a (\<sigma>, E) = execute C a s E2 \<bind> end_turn C s \<sigma>1" using sel(1) E2(1) by (simp add: mcts_turn_def E1_def [symmetric])
  then show ?thesis using execute_turn [OF E2(2), of s C a] E2(3) inv1(2) by simp
qed

lemma mcts_turns_ok:
  assumes C: "finite_program (prog C)" "\<not> enable_simulation C"
  shows "set (children \<sigma>) = states E \<Longrightarrow> states E = {} \<or> (\<exists>t. mcts_inv \<sigma> E t) \<Longrightarrow>
    \<exists>\<sigma>' E'. mcts_turns C as (\<sigma>, E) = Some (\<sigma>', E') \<and> set (children \<sigma>') = states E' \<and> (states E' = {} \<or> (\<exists>t'. mcts_inv \<sigma>' E' t'))"
proof (induction as arbitrary: \<sigma> E)
  case (Cons a as)
  show ?case
  proof (cases "states E = {}")
    case False
    then obtain t where inv: "mcts_inv \<sigma> E t" using Cons.prems(2) by auto
    obtain \<sigma>1 E1 where "mcts_turn C a (\<sigma>, E) = Some (\<sigma>1, E1)" "set (children \<sigma>1) = states E1" "states E1 = {} \<or> (\<exists>t'. mcts_inv \<sigma>1 E1 t')"
      using mcts_turn_ok [OF C inv False, of a] by (elim exE conjE)
    with Cons.IH [of \<sigma>1 E1] False show ?thesis by simp
  qed (use Cons.prems in simp)
qed simp

lemma mcts_start:
  "\<exists>\<sigma> T t. MCTSSearcher__update (estate (initial_executor s)) None [s] [] (new_mcts, processTree (initial_executor s)) = Some (\<sigma>, T)
    \<and> mcts_inv \<sigma> ((initial_executor s)\<lparr>processTree := T\<rparr>) t"
proof -
  let ?E = "initial_executor s" and ?T = "PTree__PTree s" and ?\<sigma> = "new_mcts\<lparr>current_state := Some s, children := [s]\<rparr>"
  have w: "wf_ptree ?T (Node Leaf 0 Leaf)" "live ?T (Node Leaf 0 Leaf) = {s}" by (rule PTree__PTree_wf)+
  have n: "nodes ?T (ptreeNode ?T s) = Some (new_node None s)" "nodes ?T 0 = Some (new_node None s)"
    by (simp_all add: PTree__PTree_def PTreeNode__PTreeNode_def)
  have "MCTSSearcher__update (estate ?E) None [s] [] (new_mcts, ?T) = Some (?\<sigma>, ?T)"
    using walks_ok(1) [OF w(1) _ n(1)] w(2) n(1) by (simp add: MCTSSearcher__update_def initial_executor_def new_mcts_def Let_def)
  moreover have "mcts_inv ?\<sigma> ?E (Node Leaf 0 Leaf)"
    using initial_wf [of s] w n(2) by (simp add: mcts_inv_def mcts_nodes_def initial_executor_def new_node_def)
  ultimately show ?thesis by (intro exI [of _ ?\<sigma>] exI [of _ ?T] exI [of _ "Node Leaf 0 Leaf"]) (simp add: initial_executor_def)
qed

text \<open>
  (C1) With simulation switched off, Monte Carlo tree search drives every run of forks and
  exits to its end: over a program with finitely many blocks no turn fails, every selection
  from the root comes to an end, the searcher holds exactly the states of the executor, and
  whenever a state is left, one of them is selected.
\<close>

theorem mcts_run_progress:
  assumes "finite_program (prog C)" "\<not> enable_simulation C"
  shows "\<exists>\<sigma> E. mcts_run C as s = Some (\<sigma>, E) \<and> set (children \<sigma>) = states E
    \<and> (states E = {} \<or> (\<exists>s' \<sigma>' E'. MCTSSearcher__selectState C (\<sigma>, E) = Some (s', \<sigma>', E') \<and> s' \<in> states E))"
proof -
  obtain \<sigma>0 T t where st: "MCTSSearcher__update (estate (initial_executor s)) None [s] [] (new_mcts, processTree (initial_executor s)) = Some (\<sigma>0, T)"
    "mcts_inv \<sigma>0 ((initial_executor s)\<lparr>processTree := T\<rparr>) t" using mcts_start [of s] by (elim exE conjE)
  obtain \<sigma> E where run: "mcts_turns C as (\<sigma>0, (initial_executor s)\<lparr>processTree := T\<rparr>) = Some (\<sigma>, E)" "set (children \<sigma>) = states E"
    "states E = {} \<or> (\<exists>t. mcts_inv \<sigma> E t)"
    using mcts_turns_ok [OF assms, of \<sigma>0 "(initial_executor s)\<lparr>processTree := T\<rparr>" as] mcts_inv_facts(5) [OF st(2)] st(2) by auto
  have "states E = {} \<or> (\<exists>s' \<sigma>' E'. MCTSSearcher__selectState C (\<sigma>, E) = Some (s', \<sigma>', E') \<and> s' \<in> states E)"
  proof (rule disj_imp [THEN iffD2], rule impI)
    assume ne: "states E \<noteq> {}"
    obtain t where "mcts_inv \<sigma> E t" using run(3) ne by auto
    from selectState_ok [OF assms this ne]
    show "\<exists>s' \<sigma>' E'. MCTSSearcher__selectState C (\<sigma>, E) = Some (s', \<sigma>', E') \<and> s' \<in> states E" by (elim exE conjE) (intro exI conjI)
  qed
  then show ?thesis using st(1) run(1,2) by (intro exI [of _ \<sigma>] exI [of _ E]) (simp add: mcts_run_def)
qed

definition example_config :: config where
  "example_config = \<lparr>prog = example_program, recordingSet = {''STORE-f_nesCheck-1-2''}, rng = \<lambda>_. 1, enable_simulation = False,
     simulation_opt = True, simulation_limit = 700, compressProcessTree = False\<rparr>"

theorem mcts_run_progress_witness:
  "\<exists>\<sigma> E. mcts_run example_config [Fall, Branch 2 3, Jump 3, Branch 1 2, Exit] 1 = Some (\<sigma>, E) \<and> set (children \<sigma>) = states E"
proof -
  have "finite_program (prog example_config)"
    unfolding finite_program_def by (rule exI [of _ "{0}"]) (simp add: example_config_def example_program_def example_inst_def)
  moreover have "\<not> enable_simulation example_config" by (simp add: example_config_def)
  ultimately show ?thesis using mcts_run_progress [of example_config "[Fall, Branch 2 3, Jump 3, Branch 1 2, Exit]" 1] by auto
qed

end
