(* ===== verification/Spec2Isabelle.thy ===== *)
theory Spec2Isabelle
  imports Constraint_Manager Expr_Builder_Sound Searchers Analysis_State Const_Division
    Random_Path Mcts
begin

text \<open>
  A verification library for Vital-SE, a symbolic execution engine derived from KLEE.
\<close>

end
